(* ===== verification/Prelude.thy ===== *)
theory Prelude
  imports Main "HOL-Library.Word"
begin

text \<open>
  Shared vocabulary of the development: bytes, Go strings, the reader type that models
  decoding from a buffered stream, the little-endian integers of Go's
  \<^verbatim>\<open>encoding/binary\<close>, the codec interface that every serialisable type of the
  repository implements, and the generic lemmas on lists and readers that the component
  theories use.
\<close>

unbundle bit_operations_syntax

named_theorems codec_simps \<open>unfolding rules for readers and writers\<close>
named_theorems idset_simps \<open>abstraction rules for identifier sets\<close>

section \<open>Bytes, strings and errors\<close>

type_synonym byte = "8 word"
type_synonym bytes = "byte list"

text \<open>
  A Go string is a byte sequence; the conversions \<^verbatim>\<open>[]byte(s)\<close> and
  \<^verbatim>\<open>string(b)\<close> copy it unchanged.
\<close>

definition string_bytes :: "string \<Rightarrow> bytes" where
  "string_bytes s = map of_char s"

definition bytes_string :: "bytes \<Rightarrow> string" where
  "bytes_string bs = map (\<lambda>b. char_of (unat b)) bs"

text \<open>
  A 16-byte identifier (\<^verbatim>\<open>types/b16.go\<close>), embedded by UUIDs and through them by instance
  and node identifiers.
\<close>

record B16 =
  b0 :: "64 word"
  b1 :: "64 word"

type_synonym UUID = B16
type_synonym InstanceID = UUID
type_synonym NodeId = UUID

text \<open>
  The values of Go's \<^verbatim>\<open>error\<close> interface that the program distinguishes.
  \<open>Errorf\<close> carries the format string of the source, not the formatted text;
  \<open>InvalidStatusUpdateError\<close> carries the instance, its current and the proposed
  status (\<^verbatim>\<open>consensus/errors.go\<close>).
\<close>

datatype error =
    EOF
  | ErrUnexpectedEOF
  | Errorf string
  | MessageEncodingError string
  | TimeoutError string
  | BallotError string
  | InvalidStatusUpdateError InstanceID byte byte

text \<open>The result of a call: it returns, returns an error, or panics.\<close>

datatype 'a outcome = Ret 'a | Err error | Panic string

definition obind :: "'a outcome \<Rightarrow> ('a \<Rightarrow> 'b outcome) \<Rightarrow> 'b outcome" where
  "obind r f = (case r of Ret a \<Rightarrow> f a | Err e \<Rightarrow> Err e | Panic p \<Rightarrow> Panic p)"

lemma obind_simps [simp]:
  "obind (Ret a) f = f a" "obind (Err e) f = Err e" "obind (Panic p) f = Panic p"
  by (simp_all add: obind_def)

section \<open>Readers\<close>

text \<open>
  A \<^verbatim>\<open>*bufio.Reader\<close> is the list of bytes that are still to come.  A decoding
  function either fails or returns its value and the bytes that are left.
\<close>

type_synonym 'a reader = "bytes \<Rightarrow> error + ('a \<times> bytes)"

definition rreturn :: "'a \<Rightarrow> 'a reader" where
  "rreturn a bs = Inr (a, bs)"

definition rfail :: "error \<Rightarrow> 'a reader" where
  "rfail e bs = Inl e"

definition rbind :: "'a reader \<Rightarrow> ('a \<Rightarrow> 'b reader) \<Rightarrow> 'b reader" where
  "rbind r f bs = (case r bs of Inl e \<Rightarrow> Inl e | Inr (a, bs') \<Rightarrow> f a bs')"

text \<open>The loop \<^verbatim>\<open>for i := range xs { read(&xs[i]) }\<close> over \<open>n\<close> elements.\<close>

primrec read_n :: "nat \<Rightarrow> 'a reader \<Rightarrow> 'a list reader" where
  "read_n 0 r = rreturn []"
| "read_n (Suc n) r = rbind r (\<lambda>x. rbind (read_n n r) (\<lambda>xs. rreturn (x # xs)))"

lemma rreturn_app [codec_simps]: "rreturn a bs = Inr (a, bs)"
  by (simp add: rreturn_def)

lemma rfail_app [codec_simps]: "rfail e bs = Inl e"
  by (simp add: rfail_def)

lemma rbind_Inr [codec_simps]: "r bs = Inr (a, bs') \<Longrightarrow> rbind r f bs = f a bs'"
  by (simp add: rbind_def)

lemma rbind_Inl [codec_simps]: "r bs = Inl e \<Longrightarrow> rbind r f bs = Inl e"
  by (simp add: rbind_def)

lemma rbind_eq_InrE:
  assumes "rbind r f bs = Inr (b, bs'')"
  obtains a bs' where "r bs = Inr (a, bs')" and "f a bs' = Inr (b, bs'')"
  using assms by (auto simp: rbind_def split: sum.splits)

section \<open>Little-endian integers of encoding/binary\<close>

definition put_uint32 :: "32 word \<Rightarrow> bytes" where
  "put_uint32 w = [ucast w, ucast (drop_bit 8 w), ucast (drop_bit 16 w), ucast (drop_bit 24 w)]"

definition get_uint32 :: "byte \<Rightarrow> byte \<Rightarrow> byte \<Rightarrow> byte \<Rightarrow> 32 word" where
  "get_uint32 a b c d =
     ucast a OR push_bit 8 (ucast b) OR push_bit 16 (ucast c) OR push_bit 24 (ucast d)"

text \<open>
  \<^verbatim>\<open>binary.Read(buf, binary.LittleEndian, &x)\<close> for a \<^verbatim>\<open>uint32\<close> and for a
  \<^verbatim>\<open>byte\<close>: \<open>EOF\<close> when no byte is left, \<open>ErrUnexpectedEOF\<close> when the
  stream ends inside the value.
\<close>

fun read_uint32 :: "32 word reader" where
  "read_uint32 (a # b # c # d # bs) = Inr (get_uint32 a b c d, bs)"
| "read_uint32 [] = Inl EOF"
| "read_uint32 bs = Inl ErrUnexpectedEOF"

fun read_byte :: "byte reader" where
  "read_byte (b # bs) = Inr (b, bs)"
| "read_byte [] = Inl EOF"

text \<open>A Go bool is written as \<open>0xff\<close> or \<open>0x00\<close> and read as \<^verbatim>\<open>b != 0x0\<close>.\<close>

definition bool_byte :: "bool \<Rightarrow> byte" where
  "bool_byte b = (if b then 0xff else 0)"

definition read_bool :: "bool reader" where
  "read_bool = rbind read_byte (\<lambda>b. rreturn (b \<noteq> 0))"

text \<open>\<^verbatim>\<open>uint32(len(xs))\<close>.\<close>

definition len32 :: "'a list \<Rightarrow> 32 word" where
  "len32 xs = of_nat (length xs)"

lemma get_put_uint32 [simp]:
  "get_uint32 (ucast w) (ucast (drop_bit 8 w)) (ucast (drop_bit 16 w)) (ucast (drop_bit 24 w)) = w"
proof (rule bit_word_eqI)
  fix n assume "n < LENGTH(32)"
  then consider "n < 8" | "8 \<le> n" "n < 16" | "16 \<le> n" "n < 24" | "24 \<le> n" "n < 32"
    by fastforce
  then show "bit (get_uint32 (ucast w) (ucast (drop_bit 8 w)) (ucast (drop_bit 16 w))
      (ucast (drop_bit 24 w))) n = bit w n"
    by cases (auto simp: get_uint32_def bit_simps)
qed

lemma read_put_uint32 [codec_simps]: "read_uint32 (put_uint32 w @ bs) = Inr (w, bs)"
  by (simp add: put_uint32_def)

lemma length_put_uint32 [simp]: "length (put_uint32 w) = 4"
  by (simp add: put_uint32_def)

lemma read_bool_byte [codec_simps]: "read_bool (bool_byte b # bs) = Inr (b, bs)"
  by (simp add: read_bool_def bool_byte_def codec_simps)

lemma unat_len32 [simp]: "length xs < 2 ^ 32 \<Longrightarrow> unat (len32 xs) = length xs"
  by (simp add: len32_def unat_of_nat)

lemma bytes_string_bytes [simp]: "bytes_string (string_bytes s) = s"
proof -
  have "char_of (unat (of_char c :: byte)) = c" for c
  proof -
    have "of_char c = (of_nat (of_char c) :: byte)"
      by (simp add: of_nat_of_char)
    moreover have "(of_char c :: nat) < 256"
      by (rule nat_of_char_less_256)
    ultimately have "unat (of_char c :: byte) = of_char c"
      by (simp add: unat_of_nat)
    then show ?thesis by simp
  qed
  then show ?thesis by (simp add: bytes_string_def string_bytes_def comp_def map_idI)
qed

lemma length_string_bytes [simp]: "length (string_bytes s) = length s"
  by (simp add: string_bytes_def)

section \<open>The codec interface\<close>

text \<open>
  The contract of the \<^verbatim>\<open>Serialize\<close>, \<^verbatim>\<open>Deserialize\<close> and \<^verbatim>\<open>NumBytes\<close>
  methods that the messages, instances, instructions and values of the repository share
  (\<^verbatim>\<open>message/message.go\<close>): on values that fit the wire format (\<open>ok\<close>), decoding the
  encoding followed by any further bytes gives the value back and leaves exactly the
  further bytes, and the encoding has the announced length.
\<close>

locale codec =
  fixes ser :: "'a \<Rightarrow> bytes"
    and deser :: "'a reader"
    and nbytes :: "'a \<Rightarrow> nat"
    and ok :: "'a \<Rightarrow> bool"
  assumes roundtrip: "ok a \<Longrightarrow> deser (ser a @ rest) = Inr (a, rest)"
    and len: "ok a \<Longrightarrow> length (ser a) = nbytes a"
begin

lemma roundtrip_end: "ok a \<Longrightarrow> deser (ser a) = Inr (a, [])"
  using roundtrip [of a "[]"] by simp

lemma prefix_free:
  assumes "ok a" and "ok b" and "ser a @ r = ser b @ r'"
  shows "a = b \<and> r = r'"
proof -
  have "Inr (a, r) = deser (ser b @ r')"
    unfolding assms(3) [symmetric] by (rule roundtrip [OF assms(1), symmetric])
  also have "\<dots> = Inr (b, r')"
    by (rule roundtrip [OF assms(2)])
  finally show ?thesis by simp
qed

lemma inj: "ok a \<Longrightarrow> ok b \<Longrightarrow> ser a = ser b \<Longrightarrow> a = b"
  using prefix_free [of a b "[]" "[]"] by simp

lemma read_list:
  "\<forall>x \<in> set xs. ok x \<Longrightarrow> read_n (length xs) deser (concat (map ser xs) @ rest) = Inr (xs, rest)"
  by (induction xs) (simp_all add: codec_simps roundtrip)

lemma length_list:
  "\<forall>x \<in> set xs. ok x \<Longrightarrow> length (concat (map ser xs)) = sum_list (map nbytes xs)"
  by (induction xs) (simp_all add: len)

lemma bind_read:
  "ok a \<Longrightarrow> rbind deser f (ser a @ rest) = f a rest"
  by (simp add: rbind_Inr roundtrip)

lemma bind_read_list:
  assumes "\<forall>x \<in> set xs. ok x"
  shows "rbind (read_n (length xs) deser) f (concat (map ser xs) @ rest) = f xs rest"
  by (simp add: rbind_Inr read_list [OF assms])

end

lemma rbind_read_uint32 [codec_simps]: "rbind read_uint32 f (put_uint32 w @ bs) = f w bs"
  by (simp add: rbind_Inr read_put_uint32)

lemma rbind_read_byte [codec_simps]: "rbind read_byte f (b # bs) = f b bs"
  by (simp add: rbind_Inr)

lemma rbind_read_bool [codec_simps]: "rbind read_bool f (bool_byte b # bs) = f b bs"
  by (simp add: rbind_Inr read_bool_byte)

end
