(* ===== verification/Gostd.thy ===== *)
theory Gostd
  imports Prelude "HOL-Library.Multiset"
begin

text \<open>
  The parts of Go's standard library that the repository relies on, as executable
  definitions: \<^verbatim>\<open>bytes.Compare\<close>, \<^verbatim>\<open>sort.Sort\<close>, \<^verbatim>\<open>sort.Search\<close> and
  \<^verbatim>\<open>time.Time\<close> with its comparison, its arithmetic and its 15-byte gob encoding.
\<close>

section \<open>Big-endian words\<close>

primrec be_bytes :: "nat \<Rightarrow> 'a::len word \<Rightarrow> bytes" where
  "be_bytes 0 w = []"
| "be_bytes (Suc n) w = be_bytes n (drop_bit 8 w) @ [ucast w]"

definition be_word :: "bytes \<Rightarrow> 'a::len word" where
  "be_word bs = foldl (\<lambda>acc b. push_bit 8 acc OR ucast b) 0 bs"

lemma length_be_bytes [simp]: "length (be_bytes n w) = n"
  by (induction n arbitrary: w) auto

lemma be_word_snoc: "be_word (bs @ [b]) = push_bit 8 (be_word bs) OR ucast b"
  by (simp add: be_word_def)

lemma be_word_be_bytes: "be_word (be_bytes n w) = take_bit (8 * n) (w :: 'a::len word)"
proof (induction n arbitrary: w)
  case 0
  show ?case by (simp add: be_word_def)
next
  case (Suc n)
  have "push_bit 8 (take_bit (8 * n) (drop_bit 8 w)) OR ucast (ucast w :: byte)
      = take_bit (8 * Suc n) w"
    by (rule bit_word_eqI) (auto simp: bit_simps)
  then show ?case by (simp add: be_word_snoc Suc.IH)
qed

lemma be_word_full [simp]: "8 * n = LENGTH('a) \<Longrightarrow> be_word (be_bytes n (w :: 'a::len word)) = w"
  by (simp add: be_word_be_bytes take_bit_word_eq_self)

section \<open>bytes.Compare\<close>

fun bytes_Compare :: "bytes \<Rightarrow> bytes \<Rightarrow> int" where
  "bytes_Compare [] [] = 0"
| "bytes_Compare [] (_ # _) = -1"
| "bytes_Compare (_ # _) [] = 1"
| "bytes_Compare (a # as) (b # bs) =
     (if a < b then -1 else if b < a then 1 else bytes_Compare as bs)"

lemma bytes_Compare_refl [simp]: "bytes_Compare a a = 0"
  by (induction a) auto

lemma bytes_Compare_eq: "bytes_Compare a b = 0 \<longleftrightarrow> a = b"
  by (induction a b rule: bytes_Compare.induct) auto

lemma bytes_Compare_neg: "bytes_Compare a b = - bytes_Compare b a"
  by (induction a b rule: bytes_Compare.induct) auto

lemma bytes_Compare_range: "bytes_Compare a b \<in> {-1, 0, 1}"
  by (induction a b rule: bytes_Compare.induct) auto

lemma bytes_Compare_trans:
  "bytes_Compare a b = -1 \<Longrightarrow> bytes_Compare b c = -1 \<Longrightarrow> bytes_Compare a c = -1"
proof (induction a b arbitrary: c rule: bytes_Compare.induct)
  case (2 b bs)
  then show ?case by (cases c) auto
next
  case (4 a as b bs)
  then show ?case by (cases c) (auto split: if_splits)
qed auto

section \<open>sort.Sort and sort.Search\<close>

text \<open>
  \<^verbatim>\<open>sort.Sort\<close> puts the elements into some order in which no later element is
  less than an earlier one.  The model inserts each element before the first one that is
  not less than it.
\<close>

primrec insert_by :: "('a \<Rightarrow> 'a \<Rightarrow> bool) \<Rightarrow> 'a \<Rightarrow> 'a list \<Rightarrow> 'a list" where
  "insert_by lt x [] = [x]"
| "insert_by lt x (y # ys) = (if lt y x then y # insert_by lt x ys else x # y # ys)"

definition sort_Sort :: "('a \<Rightarrow> 'a \<Rightarrow> bool) \<Rightarrow> 'a list \<Rightarrow> 'a list" where
  "sort_Sort lt xs = foldr (insert_by lt) xs []"

lemma mset_insert_by [simp]: "mset (insert_by lt x xs) = add_mset x (mset xs)"
  by (induction xs) auto

lemma mset_sort_Sort [simp]: "mset (sort_Sort lt xs) = mset xs"
  unfolding sort_Sort_def by (induction xs) auto

lemma set_sort_Sort [simp]: "set (sort_Sort lt xs) = set xs"
  by (metis mset_sort_Sort set_mset_mset)

lemma length_sort_Sort [simp]: "length (sort_Sort lt xs) = length xs"
  by (metis mset_sort_Sort size_mset)

lemma distinct_sort_Sort [simp]: "distinct (sort_Sort lt xs) = distinct xs"
  by (metis mset_sort_Sort distinct_count_atmost_1 set_mset_mset)

lemma set_insert_by: "set (insert_by lt x xs) = insert x (set xs)"
  by (induction xs) auto

text \<open>
  The contract of a \<^verbatim>\<open>sort.Interface\<close>: on a carrier set \<open>C\<close> the comparison is a
  strict weak order.  A strict total order determines the sorted list.
\<close>

locale sort_interface =
  fixes lt :: "'a \<Rightarrow> 'a \<Rightarrow> bool" and C :: "'a set"
  assumes asym: "x \<in> C \<Longrightarrow> y \<in> C \<Longrightarrow> lt x y \<Longrightarrow> \<not> lt y x"
    and weak: "x \<in> C \<Longrightarrow> y \<in> C \<Longrightarrow> z \<in> C \<Longrightarrow> lt x z \<Longrightarrow> lt x y \<or> lt y z"
begin

lemma insert_by_sorted:
  assumes "sorted_wrt (\<lambda>x y. \<not> lt y x) xs" and "insert x (set xs) \<subseteq> C"
  shows "sorted_wrt (\<lambda>x y. \<not> lt y x) (insert_by lt x xs)"
  using assms
proof (induction xs)
  case Nil
  show ?case by simp
next
  case (Cons y ys)
  show ?case
  proof (cases "lt y x")
    case True
    then show ?thesis using Cons asym by (auto simp: set_insert_by)
  next
    case False
    have "\<not> lt z x" if "z \<in> set ys" for z
      using that Cons.prems False weak [of z y x] by auto
    then show ?thesis using Cons.prems False by auto
  qed
qed

lemma sort_Sort_sorted:
  "set xs \<subseteq> C \<Longrightarrow> sorted_wrt (\<lambda>x y. \<not> lt y x) (sort_Sort lt xs)"
proof (induction xs)
  case Nil
  show ?case by (simp add: sort_Sort_def)
next
  case (Cons x xs)
  have "set (sort_Sort lt xs) \<subseteq> C" using Cons.prems by simp
  then have "sorted_wrt (\<lambda>x y. \<not> lt y x) (insert_by lt x (sort_Sort lt xs))"
    using Cons by (intro insert_by_sorted) auto
  then show ?case by (simp add: sort_Sort_def)
qed

end

locale sort_total = sort_interface +
  assumes total: "x \<in> C \<Longrightarrow> y \<in> C \<Longrightarrow> x \<noteq> y \<Longrightarrow> lt x y \<or> lt y x"
begin

text \<open>Any two sorted arrangements of the same distinct elements are equal.\<close>

lemma sorted_unique:
  assumes "set xs \<subseteq> C" and "distinct xs" and "distinct ys" and "set xs = set ys"
    and "sorted_wrt (\<lambda>x y. \<not> lt y x) xs" and "sorted_wrt (\<lambda>x y. \<not> lt y x) ys"
  shows "xs = ys"
  using assms
proof (induction xs arbitrary: ys)
  case Nil
  then show ?case by simp
next
  case (Cons x xs)
  then obtain y ys' where ys: "ys = y # ys'"
    by (cases ys) auto
  have "x = y"
  proof (rule ccontr)
    assume "x \<noteq> y"
    with Cons.prems ys have "y \<in> set xs" and "x \<in> set ys'" by auto
    with Cons.prems ys have "\<not> lt y x" and "\<not> lt x y" by auto
    moreover have "x \<in> C" and "y \<in> C" using Cons.prems(1) \<open>y \<in> set xs\<close> by auto
    ultimately show False using total \<open>x \<noteq> y\<close> by blast
  qed
  with Cons ys have "xs = ys'" by (auto simp: insert_ident)
  with ys \<open>x = y\<close> show ?case by simp
qed

lemma sort_Sort_cong:
  assumes "set xs \<subseteq> C" and "distinct xs" and "distinct ys" and "set xs = set ys"
  shows "sort_Sort lt xs = sort_Sort lt ys"
  using assms by (intro sorted_unique sort_Sort_sorted) auto

end

text \<open>
  \<^verbatim>\<open>sort.Search(n, f)\<close>: the binary search loop of the library, from the interval
  \<open>[i, j)\<close>.
\<close>

function search_loop :: "(nat \<Rightarrow> bool) \<Rightarrow> nat \<Rightarrow> nat \<Rightarrow> nat" where
  "search_loop f i j =
     (if i < j then
        let h = i + (j - i) div 2
        in if \<not> f h then search_loop f (h + 1) j else search_loop f i h
      else i)"
  by pat_completeness auto
termination
  by (relation "measure (\<lambda>(f, i, j). j - i)") auto

declare search_loop.simps [simp del]

definition sort_Search :: "nat \<Rightarrow> (nat \<Rightarrow> bool) \<Rightarrow> nat" where
  "sort_Search n f = search_loop f 0 n"

lemma search_loop_spec:
  assumes "\<And>a b. a \<le> b \<Longrightarrow> b < n \<Longrightarrow> f a \<Longrightarrow> f b"
    and "i \<le> j" and "j \<le> n" and "\<forall>k < i. \<not> f k" and "\<forall>k. j \<le> k \<and> k < n \<longrightarrow> f k"
  shows "search_loop f i j \<le> n \<and> (\<forall>k < search_loop f i j. \<not> f k) \<and>
    (\<forall>k. search_loop f i j \<le> k \<and> k < n \<longrightarrow> f k)"
  using assms
proof (induction f i j rule: search_loop.induct)
  case (1 f i j)
  show ?case
  proof (cases "i < j")
    case False
    then have "search_loop f i j = i" by (simp add: search_loop.simps [of f i j])
    with "1.prems" False show ?thesis by simp
  next
    case True
    define h where "h = i + (j - i) div 2"
    have h: "i \<le> h" "h < j" using True by (auto simp: h_def)
    show ?thesis
    proof (cases "f h")
      case True
      have "\<forall>k. h \<le> k \<and> k < n \<longrightarrow> f k" using "1.prems"(1) [of h] True by auto
      then have "search_loop f i h \<le> n \<and> (\<forall>k < search_loop f i h. \<not> f k) \<and>
          (\<forall>k. search_loop f i h \<le> k \<and> k < n \<longrightarrow> f k)"
        using "1.prems" h True by (intro "1.IH"(2) [OF \<open>i < j\<close> h_def]) auto
      then show ?thesis
        using True \<open>i < j\<close> by (simp add: search_loop.simps [of f i j] Let_def h_def)
    next
      case False
      have "\<not> f k" if "k < h + 1" for k
        using "1.prems"(1) [of k h] False h "1.prems"(3) that by auto
      then have "search_loop f (h + 1) j \<le> n \<and> (\<forall>k < search_loop f (h + 1) j. \<not> f k) \<and>
          (\<forall>k. search_loop f (h + 1) j \<le> k \<and> k < n \<longrightarrow> f k)"
        using "1.prems" h False by (intro "1.IH"(1) [OF \<open>i < j\<close> h_def]) auto
      then show ?thesis
        using False \<open>i < j\<close> by (simp add: search_loop.simps [of f i j] Let_def h_def)
    qed
  qed
qed

text \<open>On a monotone predicate the search returns the least index that satisfies it.\<close>

lemma sort_Search_least:
  assumes "\<forall>a b. a \<le> b \<and> b < n \<and> f a \<longrightarrow> f b"
  shows "sort_Search n f \<le> n" and "k < sort_Search n f \<Longrightarrow> \<not> f k"
    and "sort_Search n f \<le> k \<Longrightarrow> k < n \<Longrightarrow> f k"
proof -
  have "search_loop f 0 n \<le> n \<and> (\<forall>k < search_loop f 0 n. \<not> f k) \<and>
      (\<forall>k. search_loop f 0 n \<le> k \<and> k < n \<longrightarrow> f k)"
    by (rule search_loop_spec) (use assms in auto)
  then show "sort_Search n f \<le> n" and "k < sort_Search n f \<Longrightarrow> \<not> f k"
    and "sort_Search n f \<le> k \<Longrightarrow> k < n \<Longrightarrow> f k"
    unfolding sort_Search_def by blast+
qed

section \<open>time.Time\<close>

text \<open>
  A \<^verbatim>\<open>time.Time\<close> is the signed number of seconds since year one, the nanoseconds
  within the second and its location.  The location is represented by its offset in
  minutes, with \<open>-1\<close> for UTC, the form in which the gob encoding carries it.
\<close>

record Time =
  t_sec :: "64 word"
  t_nsec :: "32 word"
  t_loc :: "16 word"

definition zero_Time :: Time where
  "zero_Time = \<lparr>t_sec = 0, t_nsec = 0, t_loc = -1\<rparr>"

definition Time_IsZero :: "Time \<Rightarrow> bool" where
  "Time_IsZero t \<longleftrightarrow> t_sec t = 0 \<and> t_nsec t = 0"

definition Time_Before :: "Time \<Rightarrow> Time \<Rightarrow> bool" where
  "Time_Before t u \<longleftrightarrow>
     sint (t_sec t) < sint (t_sec u) \<or> t_sec t = t_sec u \<and> sint (t_nsec t) < sint (t_nsec u)"

definition Time_After :: "Time \<Rightarrow> Time \<Rightarrow> bool" where
  "Time_After t u \<longleftrightarrow> Time_Before u t"

text \<open>\<^verbatim>\<open>t.Add(ms * time.Millisecond)\<close> for a non-negative number of milliseconds.\<close>

definition Time_AddMs :: "Time \<Rightarrow> nat \<Rightarrow> Time" where
  "Time_AddMs t ms =
     (let nsec = t_nsec t + of_nat ((ms mod 1000) * 1000000);
          sec = t_sec t + of_nat (ms div 1000)
      in if 1000000000 \<le> sint nsec
         then t\<lparr>t_sec := sec + 1, t_nsec := nsec - 1000000000\<rparr>
         else t\<lparr>t_sec := sec, t_nsec := nsec\<rparr>)"

text \<open>
  The gob encoding: a version byte, eight bytes of seconds, four of nanoseconds and two of
  zone offset, all big-endian.
\<close>

definition GobEncode :: "Time \<Rightarrow> bytes" where
  "GobEncode t = 1 # be_bytes 8 (t_sec t) @ be_bytes 4 (t_nsec t) @ be_bytes 2 (t_loc t)"

definition GobDecode :: "bytes \<Rightarrow> error + Time" where
  "GobDecode buf =
     (case buf of
        [] \<Rightarrow> Inl (Errorf ''Time.GobDecode: no data'')
      | v # bs \<Rightarrow>
          if v \<noteq> 1 then Inl (Errorf ''Time.GobDecode: unsupported version'')
          else if length buf \<noteq> 15 then Inl (Errorf ''Time.GobDecode: invalid length'')
          else Inr \<lparr>t_sec = be_word (take 8 bs), t_nsec = be_word (take 4 (drop 8 bs)),
                    t_loc = be_word (take 2 (drop 12 bs))\<rparr>)"

lemma length_GobEncode [simp]: "length (GobEncode t) = 15"
  by (simp add: GobEncode_def)

lemma GobDecode_GobEncode [simp]: "GobDecode (GobEncode t) = Inr t"
  by (simp add: GobDecode_def GobEncode_def)

lemma Time_Before_irrefl [simp]: "\<not> Time_Before t t"
  by (simp add: Time_Before_def)

lemma Time_Before_trans: "Time_Before a b \<Longrightarrow> Time_Before b c \<Longrightarrow> Time_Before a c"
  by (auto simp: Time_Before_def)

lemma Time_Before_sint:
  "Time_Before t u \<longleftrightarrow> sint (t_sec t) < sint (t_sec u) \<or>
     sint (t_sec t) = sint (t_sec u) \<and> sint (t_nsec t) < sint (t_nsec u)"
  unfolding Time_Before_def by (metis signed_word_eqI)

lemma Time_Before_weak: "Time_Before a c \<Longrightarrow> Time_Before a b \<or> Time_Before b c"
  unfolding Time_Before_sint by linarith

end
