(* ===== verification/Serializer.thy ===== *)
theory Serializer
  imports Gostd
begin

text \<open>
  The package \<^verbatim>\<open>serializer\<close> (\<^verbatim>\<open>serializer/serializer.go\<close>): length-prefixed byte
  fields, strings and timestamps, with the codec contract of each.
\<close>

section \<open>Reading a fixed number of bytes\<close>

text \<open>
  Bytes arrive from the connection in chunks of any size.  One \<^verbatim>\<open>buf.Read(p)\<close>
  returns at most one chunk and at most \<open>len(p)\<close> bytes, and fails with \<open>EOF\<close> when
  the stream is over.
\<close>

type_synonym stream = "bytes list"

fun bufio_Read :: "nat \<Rightarrow> stream \<Rightarrow> error + (bytes \<times> stream)" where
  "bufio_Read k [] = Inl EOF"
| "bufio_Read k (c # cs) =
     (if length c \<le> k then Inr (c, cs) else Inr (take k c, drop k c # cs))"

text \<open>
  The loop of \<^verbatim>\<open>ReadBytes\<close>: \<open>target\<close> is the part of the buffer that has been
  filled, so that its length is \<^verbatim>\<open>numRead\<close>.
\<close>

function ReadBytes_loop :: "nat \<Rightarrow> bytes \<Rightarrow> stream \<Rightarrow> error + (bytes \<times> stream)" where
  "ReadBytes_loop sz target s =
     (if length target < sz then
        (case bufio_Read (sz - length target) s of
           Inl err \<Rightarrow> Inl err
         | Inr (b, s') \<Rightarrow> ReadBytes_loop sz (target @ b) s')
      else Inr (target, s))"
  by pat_completeness auto
termination
proof (relation "measure (\<lambda>(sz, target, s). (sz - length target) + length s)", goal_cases)
  case 1
  show ?case by simp
next
  case (2 sz target s x b s')
  then show ?case by (cases s) (auto split: if_splits)
qed

declare ReadBytes_loop.simps [simp del]

definition ReadBytes_chunks :: "nat \<Rightarrow> stream \<Rightarrow> error + (bytes \<times> stream)" where
  "ReadBytes_chunks sz s = ReadBytes_loop sz [] s"

text \<open>The same function on the byte sequence that the chunks make up.\<close>

definition ReadBytes :: "nat \<Rightarrow> bytes reader" where
  "ReadBytes sz bs = (if sz \<le> length bs then Inr (take sz bs, drop sz bs) else Inl EOF)"

section \<open>Fields\<close>

definition WriteFieldBytes :: "bytes \<Rightarrow> bytes" where
  "WriteFieldBytes b = put_uint32 (len32 b) @ b"

definition ReadFieldBytes :: "bytes reader" where
  "ReadFieldBytes = rbind read_uint32 (\<lambda>sz. ReadBytes (unat sz))"

definition WriteFieldString :: "string \<Rightarrow> bytes" where
  "WriteFieldString s = WriteFieldBytes (string_bytes s)"

definition ReadFieldString :: "string reader" where
  "ReadFieldString = rbind ReadFieldBytes (\<lambda>b. rreturn (bytes_string b))"

definition WriteTime :: "Time \<Rightarrow> bytes" where
  "WriteTime t = WriteFieldBytes (GobEncode t)"

definition ReadTime :: "Time reader" where
  "ReadTime = rbind ReadFieldBytes
     (\<lambda>b. case GobDecode b of Inl e \<Rightarrow> rfail e | Inr t \<Rightarrow> rreturn t)"

definition NumStringBytes :: "string \<Rightarrow> nat" where
  "NumStringBytes s = 4 + length s"

definition NumSliceBytes :: "bytes \<Rightarrow> nat" where
  "NumSliceBytes b = 4 + length b"

definition NumTimeBytes :: nat where
  "NumTimeBytes = 4 + 15"

text \<open>A field fits the wire format when its length fits the 32-bit header.\<close>

definition fits32 :: "'a list \<Rightarrow> bool" where
  "fits32 xs \<longleftrightarrow> length xs < 2 ^ 32"

section \<open>Lemmas\<close>

lemma ReadBytes_loop_flat:
  "map_sum id (\<lambda>(b, s'). (b, concat s')) (ReadBytes_loop sz target s) =
     (if sz \<le> length target then Inr (target, concat s)
      else if sz - length target \<le> length (concat s)
      then Inr (target @ take (sz - length target) (concat s), drop (sz - length target) (concat s))
      else Inl EOF)"
proof (induction sz target s rule: ReadBytes_loop.induct)
  case (1 sz target s)
  show ?case
  proof (cases "length target < sz")
    case False
    then show ?thesis by (simp add: ReadBytes_loop.simps [of sz target s])
  next
    case True
    show ?thesis
    proof (cases s)
      case Nil
      with True show ?thesis by (simp add: ReadBytes_loop.simps [of sz target "[]"])
    next
      case (Cons c cs)
      define k where "k = sz - length target"
      obtain b s' where read: "bufio_Read k s = Inr (b, s')"
        and b: "b = take k c" "concat s = b @ concat s'"
        by (cases "length c \<le> k") (auto simp: Cons)
      have step: "ReadBytes_loop sz target s = ReadBytes_loop sz (target @ b) s'"
        using True read by (simp add: ReadBytes_loop.simps [of sz target s] k_def)
      show ?thesis
        unfolding step
        by (subst "1.IH" [OF True read [unfolded k_def] refl])
           (use True b in \<open>auto simp: k_def min_def split: if_splits\<close>)
    qed
  qed
qed

lemma ReadBytes_append [codec_simps]: "length b = n \<Longrightarrow> ReadBytes n (b @ rest) = Inr (b, rest)"
  by (simp add: ReadBytes_def)

lemma length_WriteFieldBytes [simp]: "length (WriteFieldBytes b) = NumSliceBytes b"
  by (simp add: WriteFieldBytes_def NumSliceBytes_def)

lemma fits32_string_bytes [simp]: "fits32 (string_bytes s) = fits32 s"
  by (simp add: fits32_def)

lemma fits32_15 [simp]: "length xs = 15 \<Longrightarrow> fits32 xs"
  by (simp add: fits32_def)

interpretation field_bytes: codec WriteFieldBytes ReadFieldBytes NumSliceBytes fits32
proof
  fix a :: bytes and rest :: bytes
  assume "fits32 a"
  then show "ReadFieldBytes (WriteFieldBytes a @ rest) = Inr (a, rest)"
    by (simp add: ReadFieldBytes_def WriteFieldBytes_def codec_simps fits32_def)
qed simp

interpretation field_string: codec WriteFieldString ReadFieldString NumStringBytes fits32
proof
  fix a :: string and rest :: bytes
  assume "fits32 a"
  then show "ReadFieldString (WriteFieldString a @ rest) = Inr (a, rest)"
    by (simp add: ReadFieldString_def WriteFieldString_def field_bytes.bind_read codec_simps)
qed (simp add: WriteFieldString_def NumStringBytes_def NumSliceBytes_def)

interpretation time: codec WriteTime ReadTime "\<lambda>_. NumTimeBytes" "\<lambda>_. True"
proof
  fix a :: Time and rest :: bytes
  show "ReadTime (WriteTime a @ rest) = Inr (a, rest)"
    by (simp add: ReadTime_def WriteTime_def field_bytes.bind_read codec_simps)
qed (simp add: WriteTime_def NumTimeBytes_def NumSliceBytes_def)

end
