(* ===== verification/Types.thy ===== *)
theory Types
  imports Serializer
begin

text \<open>
  The package \<^verbatim>\<open>types\<close> (\<^verbatim>\<open>types/b16.go\<close>, \<^verbatim>\<open>types/uuid.go\<close>): 16-byte identifiers
  stored as two 64-bit words, and their big-endian wire form.  Instance identifiers
  (\<^verbatim>\<open>consensus/instance.go\<close>) and node identifiers (\<^verbatim>\<open>node/node.go\<close>) embed a UUID.
\<close>

definition UUID_NUM_BYTES :: nat where
  "UUID_NUM_BYTES = 16"

definition zero_B16 :: B16 where
  "zero_B16 = \<lparr>b0 = 0, b1 = 0\<rparr>"

definition MarshalBinary :: "B16 \<Rightarrow> bytes" where
  "MarshalBinary b =
     map (\<lambda>i. let src = (if i < 8 then b0 b else b1 b);
                  offset = (if i < 8 then i else i - 8)
              in ucast (drop_bit ((7 - offset) * 8) src AND 0xff)) [0..<16]"

definition unmarshal_byte :: "bytes \<Rightarrow> nat \<Rightarrow> B16 \<Rightarrow> B16" where
  "unmarshal_byte bs i b =
     (if i < 8 then b\<lparr>b0 := b0 b OR push_bit ((7 - i) * 8) (ucast (bs ! i))\<rparr>
      else b\<lparr>b1 := b1 b OR push_bit ((7 - (i - 8)) * 8) (ucast (bs ! i))\<rparr>)"

definition UnmarshalBinary :: "B16 \<Rightarrow> bytes \<Rightarrow> error + B16" where
  "UnmarshalBinary b bs =
     (if length bs \<noteq> 16 then Inl (Errorf ''Exactly 16 bytes required for unmarshal, got %v'')
      else Inr (fold (unmarshal_byte bs) [0..<16] b))"

definition B16_IsZero :: "B16 \<Rightarrow> bool" where
  "B16_IsZero b \<longleftrightarrow> b0 b = 0 \<and> b1 b = 0"

definition UUID_Bytes :: "UUID \<Rightarrow> bytes" where
  "UUID_Bytes u = MarshalBinary u"

text \<open>
  \<^verbatim>\<open>NewUUID1\<close> and \<^verbatim>\<open>NewUUID4\<close> wrap the 16 bytes that the uuid library
  generates; \<^verbatim>\<open>Time\<close> reads the timestamp the library embeds in them.  The bytes and
  the timestamp function of that library are arguments.
\<close>

definition NewUUID :: "bytes \<Rightarrow> error + UUID" where
  "NewUUID raw = UnmarshalBinary zero_B16 raw"

definition UUID_Time :: "(bytes \<Rightarrow> int) \<Rightarrow> UUID \<Rightarrow> int" where
  "UUID_Time uuid_time u = uuid_time (MarshalBinary u)"

definition WriteBuffer :: "UUID \<Rightarrow> bytes" where
  "WriteBuffer u = UUID_Bytes u"

text \<open>\<^verbatim>\<open>ReadBuffer\<close> decodes into the receiver \<open>u\<close>.\<close>

definition ReadBuffer :: "UUID \<Rightarrow> UUID reader" where
  "ReadBuffer u = rbind (ReadBytes 16)
     (\<lambda>bs. case UnmarshalBinary u bs of Inl e \<Rightarrow> rfail e | Inr v \<Rightarrow> rreturn v)"

section \<open>Lemmas\<close>

lemma length_MarshalBinary [simp]: "length (MarshalBinary b) = 16"
  by (simp add: MarshalBinary_def)

lemma upt_16: "[0..<16] = [0,1,2,3,4,5,6,7,8,9,10,11,12,13,14,15::nat]"
  by code_simp

lemma or_bytes_64:
  fixes w :: "64 word"
  shows "push_bit 56 (ucast (ucast (drop_bit 56 w) :: byte)) OR
    push_bit 48 (ucast (ucast (drop_bit 48 w) :: byte)) OR
    push_bit 40 (ucast (ucast (drop_bit 40 w) :: byte)) OR
    push_bit 32 (ucast (ucast (drop_bit 32 w) :: byte)) OR
    push_bit 24 (ucast (ucast (drop_bit 24 w) :: byte)) OR
    push_bit 16 (ucast (ucast (drop_bit 16 w) :: byte)) OR
    push_bit 8 (ucast (ucast (drop_bit 8 w) :: byte)) OR
    ucast (ucast w :: byte) = w" (is "?l = w")
proof (rule bit_word_eqI)
  fix n assume "n < LENGTH(64)"
  then consider "n < 8" | "8 \<le> n" "n < 16" | "16 \<le> n" "n < 24" | "24 \<le> n" "n < 32"
    | "32 \<le> n" "n < 40" | "40 \<le> n" "n < 48" | "48 \<le> n" "n < 56" | "56 \<le> n" "n < 64"
    by fastforce
  then show "bit ?l n = bit w n"
    by cases (auto simp: bit_simps)
qed

lemma ucast_and_ff: "ucast ((w :: 64 word) AND 255) = (ucast w :: byte)"
proof -
  have "w AND 255 = take_bit 8 w"
    by (simp add: take_bit_eq_mask mask_eq_exp_minus_1)
  then show ?thesis by (auto intro!: bit_word_eqI simp: bit_simps)
qed

text \<open>Decoding merges the encoded words into what the receiver already holds.\<close>

lemma UnmarshalBinary_MarshalBinary:
  "UnmarshalBinary b (MarshalBinary u) = Inr \<lparr>b0 = b0 b OR b0 u, b1 = b1 b OR b1 u\<rparr>"
proof -
  have m: "MarshalBinary u = map (\<lambda>k. ucast (drop_bit k (b0 u))) [56,48,40,32,24,16,8,0] @
      map (\<lambda>k. ucast (drop_bit k (b1 u))) [56,48,40,32,24,16,8,0]"
    by (simp add: MarshalBinary_def upt_16 ucast_and_ff)
  have "fold (unmarshal_byte (MarshalBinary u)) [0..<16] b =
      \<lparr>b0 = b0 b OR b0 u, b1 = b1 b OR b1 u\<rparr>"
    unfolding m upt_16
    by (cases b) (simp add: unmarshal_byte_def or.assoc or_bytes_64)
  then show ?thesis by (simp add: UnmarshalBinary_def)
qed

lemma UnmarshalBinary_zero [simp]: "UnmarshalBinary zero_B16 (MarshalBinary u) = Inr u"
  by (simp add: UnmarshalBinary_MarshalBinary zero_B16_def)

interpretation uuid: codec WriteBuffer "ReadBuffer zero_B16" "\<lambda>_. UUID_NUM_BYTES" "\<lambda>_. True"
proof
  fix a :: UUID and rest :: bytes
  show "ReadBuffer zero_B16 (WriteBuffer a @ rest) = Inr (a, rest)"
    by (simp add: ReadBuffer_def WriteBuffer_def UUID_Bytes_def codec_simps)
qed (simp add: WriteBuffer_def UUID_Bytes_def UUID_NUM_BYTES_def)

lemma MarshalBinary_inject: "MarshalBinary u = MarshalBinary v \<longleftrightarrow> u = v"
  using uuid.inj by (auto simp: WriteBuffer_def UUID_Bytes_def)

end
