(* ===== verification/Topology.thy ===== *)
theory Topology
  imports Types "HOL-Library.AList"
begin

text \<open>
  The token ring and the cluster topology (\<^verbatim>\<open>topology/\<close>): which nodes replicate a
  token.  Go maps whose iteration order matters are association lists in iteration order.
\<close>

section \<open>Nodes\<close>

text \<open>
  The part of the \<^verbatim>\<open>topology.Node\<close> interface that answers questions about a node
  (\<^verbatim>\<open>topology/node.go\<close>, \<^verbatim>\<open>baseNode\<close> of \<^verbatim>\<open>cluster/node.go\<close>).
  \<open>node_ref\<close> is the pointer that the interface value holds.
\<close>

record Node =
  node_name :: string
  node_addr :: string
  node_token :: bytes
  node_id :: NodeId
  node_dcId :: string
  node_status :: string
  node_ref :: nat

definition NODE_INITIALIZING :: string where "NODE_INITIALIZING = ''''"
definition NODE_UP :: string where "NODE_UP = ''UP''"
definition NODE_DOWN :: string where "NODE_DOWN = ''DOWN''"

section \<open>The ring\<close>

definition node_Less :: "Node \<Rightarrow> Node \<Rightarrow> bool" where
  "node_Less m n \<longleftrightarrow> bytes_Compare (node_token m) (node_token n) = -1"

record Ring =
  nodeMap :: "(NodeId \<times> Node) list"
  tokenRing :: "Node list"
  priorRing :: "Node list"

definition NewRing :: Ring where
  "NewRing = \<lparr>nodeMap = [], tokenRing = [], priorRing = []\<rparr>"

definition Ring_Size :: "Ring \<Rightarrow> nat" where
  "Ring_Size r = length (tokenRing r)"

definition Ring_GetNode :: "Ring \<Rightarrow> NodeId \<Rightarrow> error + Node" where
  "Ring_GetNode r nid =
     (case map_of (nodeMap r) nid of
        None \<Rightarrow> Inl (Errorf ''No node found by node id: %v'')
      | Some n \<Rightarrow> Inr n)"

definition refreshRing :: "Ring \<Rightarrow> Ring" where
  "refreshRing r =
     (let nodes = map snd (nodeMap r);
          sorted = sort_Sort node_Less nodes
      in r\<lparr>priorRing := tokenRing r, tokenRing := sorted\<rparr>)"

definition Ring_AddNode :: "Ring \<Rightarrow> Node \<Rightarrow> error + Ring" where
  "Ring_AddNode r n =
     (let nid = node_id n in
      case map_of (nodeMap r) nid of
        Some _ \<Rightarrow> Inl (Errorf ''This node is already a part of the ring'')
      | None \<Rightarrow> Inr (refreshRing (r\<lparr>nodeMap := AList.update nid n (nodeMap r)\<rparr>)))"

definition Ring_AllNodes :: "Ring \<Rightarrow> Node list" where
  "Ring_AllNodes r = map (\<lambda>i. tokenRing r ! i) [0..<length (tokenRing r)]"

definition Ring_GetNodesForToken :: "Ring \<Rightarrow> bytes \<Rightarrow> 32 word \<Rightarrow> Node list" where
  "Ring_GetNodesForToken r t replicationFactor =
     (let ringLen = length (tokenRing r);
          numNodes = (if ringLen < unat replicationFactor then ringLen else unat replicationFactor);
          searcher = (\<lambda>i. bytes_Compare t (node_token (tokenRing r ! i)) \<le> 0);
          idx = sort_Search ringLen searcher
      in map (\<lambda>i. tokenRing r ! ((idx + i) mod ringLen)) [0..<numNodes])"

section \<open>Datacenters\<close>

text \<open>\<^verbatim>\<open>topology/datacenter.go\<close>\<close>

type_synonym DatacenterID = string

record DatacenterContainer =
  dc_rings :: "(DatacenterID \<times> Ring) list"

definition NewDatacenterContainer :: DatacenterContainer where
  "NewDatacenterContainer = \<lparr>dc_rings = []\<rparr>"

text \<open>The map of rings gains an empty ring for a datacenter that is seen first.\<close>

definition ensure_ring :: "DatacenterID \<Rightarrow> (DatacenterID \<times> Ring) list \<Rightarrow> (DatacenterID \<times> Ring) list" where
  "ensure_ring dcId rings =
     (case map_of rings dcId of None \<Rightarrow> AList.update dcId NewRing rings | Some _ \<Rightarrow> rings)"

definition dc_AddNode :: "DatacenterContainer \<Rightarrow> Node \<Rightarrow> DatacenterContainer \<times> error option" where
  "dc_AddNode dc n =
     (let dcId = node_dcId n; rings = ensure_ring dcId (dc_rings dc) in
      case Ring_AddNode (the (map_of rings dcId)) n of
        Inl e \<Rightarrow> (dc\<lparr>dc_rings := rings\<rparr>, Some e)
      | Inr r \<Rightarrow> (dc\<lparr>dc_rings := AList.update dcId r rings\<rparr>, None))"

definition dc_Size :: "DatacenterContainer \<Rightarrow> nat" where
  "dc_Size dc = fold (\<lambda>(_, ring) num. num + Ring_Size ring) (dc_rings dc) 0"

definition dc_AllNodes :: "DatacenterContainer \<Rightarrow> Node list" where
  "dc_AllNodes dc = fold (\<lambda>(_, ring) nodes. nodes @ Ring_AllNodes ring) (dc_rings dc) []"

definition dc_GetRing :: "DatacenterContainer \<Rightarrow> DatacenterID \<Rightarrow> error + Ring" where
  "dc_GetRing dc dcId =
     (case map_of (dc_rings dc) dcId of
        None \<Rightarrow> Inl (Errorf ''Unknown datacenter [%v]'')
      | Some ring \<Rightarrow> Inr ring)"

definition dc_GetNodesForToken ::
    "DatacenterContainer \<Rightarrow> bytes \<Rightarrow> 32 word \<Rightarrow> (DatacenterID \<times> Node list) list" where
  "dc_GetNodesForToken dc t replicationFactor =
     map (\<lambda>(dcid, ring). (dcid, Ring_GetNodesForToken ring t replicationFactor)) (dc_rings dc)"

section \<open>The topology\<close>

text \<open>
  \<^verbatim>\<open>topology/topology.go\<close>.  The partitioner is an interface; its \<^verbatim>\<open>GetToken\<close>
  method is a field of the record.
\<close>

record Topology =
  partitioner :: "string \<Rightarrow> bytes"
  localNodeID :: NodeId
  localDcID :: DatacenterID
  replicationFactor :: "64 word"
  rings :: "(DatacenterID \<times> Ring) list"
  top_nodes :: "NodeId \<Rightarrow> Node option"

definition NewTopology ::
    "NodeId \<Rightarrow> DatacenterID \<Rightarrow> (string \<Rightarrow> bytes) \<Rightarrow> 64 word \<Rightarrow> Topology" where
  "NewTopology localNID localDCID prtnr rf =
     \<lparr>partitioner = prtnr, localNodeID = localNID, localDcID = localDCID,
      replicationFactor = rf, rings = [], top_nodes = Map.empty\<rparr>"

definition Topology_AddNode :: "Topology \<Rightarrow> Node \<Rightarrow> Topology \<times> error option" where
  "Topology_AddNode t n =
     (let dcId = node_dcId n; rs = ensure_ring dcId (rings t) in
      case Ring_AddNode (the (map_of rs dcId)) n of
        Inl e \<Rightarrow> (t\<lparr>rings := rs\<rparr>, Some e)
      | Inr r \<Rightarrow> (t\<lparr>rings := AList.update dcId r rs, top_nodes := (top_nodes t)(node_id n \<mapsto> n)\<rparr>, None))"

definition Topology_Size :: "Topology \<Rightarrow> nat" where
  "Topology_Size t = fold (\<lambda>(_, ring) num. num + Ring_Size ring) (rings t) 0"

definition Topology_AllNodes :: "Topology \<Rightarrow> Node list" where
  "Topology_AllNodes t = fold (\<lambda>(_, ring) nodes. nodes @ Ring_AllNodes ring) (rings t) []"

definition AllLocalNodes :: "Topology \<Rightarrow> Node list outcome" where
  "AllLocalNodes t =
     (case map_of (rings t) (localDcID t) of
        None \<Rightarrow> Panic ''nil pointer dereference''
      | Some ring \<Rightarrow> Ret (Ring_AllNodes ring))"

definition Topology_GetRing :: "Topology \<Rightarrow> DatacenterID \<Rightarrow> error + Ring" where
  "Topology_GetRing t dcId =
     (case map_of (rings t) dcId of
        None \<Rightarrow> Inl (Errorf ''Unknown datacenter [%v]'')
      | Some ring \<Rightarrow> Inr ring)"

definition Topology_GetNode :: "Topology \<Rightarrow> NodeId \<Rightarrow> error + Node" where
  "Topology_GetNode t nid =
     (case top_nodes t nid of
        None \<Rightarrow> Inl (Errorf ''No node found by node id: %v'')
      | Some n \<Rightarrow> Inr n)"

definition GetToken :: "Topology \<Rightarrow> string \<Rightarrow> bytes" where
  "GetToken t key = partitioner t key"

definition GetNodesForToken :: "Topology \<Rightarrow> bytes \<Rightarrow> (DatacenterID \<times> Node list) list" where
  "GetNodesForToken t tk =
     map (\<lambda>(dcid, ring). (dcid, Ring_GetNodesForToken ring tk (ucast (replicationFactor t))))
       (rings t)"

definition GetLocalNodesForToken :: "Topology \<Rightarrow> bytes \<Rightarrow> Node list" where
  "GetLocalNodesForToken t tk =
     (case map_of (rings t) (localDcID t) of
        None \<Rightarrow> []
      | Some ring \<Rightarrow> Ring_GetNodesForToken ring tk (ucast (replicationFactor t)))"

definition TokenLocallyReplicated :: "Topology \<Rightarrow> bytes \<Rightarrow> bool" where
  "TokenLocallyReplicated t tk =
     list_ex (\<lambda>n. node_id n = localNodeID t) (GetLocalNodesForToken t tk)"

section \<open>Lemmas on the ring\<close>

lemma bytes_Compare_weak:
  assumes "bytes_Compare x z = -1"
  shows "bytes_Compare x y = -1 \<or> bytes_Compare y z = -1"
proof (cases "bytes_Compare x y = 1")
  case True
  then have "bytes_Compare y x = -1" using bytes_Compare_neg [of y x] by simp
  then show ?thesis using assms bytes_Compare_trans by blast
next
  case False
  then have "bytes_Compare x y = -1 \<or> x = y"
    using bytes_Compare_range [of x y] bytes_Compare_eq [of x y] by auto
  then show ?thesis using assms by auto
qed

interpretation node_sorter: sort_interface node_Less UNIV
proof
  fix x y z :: Node
  show "node_Less x y \<Longrightarrow> \<not> node_Less y x"
    using bytes_Compare_neg [of "node_token x" "node_token y"] by (simp add: node_Less_def)
  show "node_Less x z \<Longrightarrow> node_Less x y \<or> node_Less y z"
    unfolding node_Less_def by (rule bytes_Compare_weak)
qed

text \<open>On nodes with distinct tokens the order is total, so the ring is determined by its nodes.\<close>

lemma node_sort_total: "inj_on node_token C \<Longrightarrow> sort_total node_Less C"
proof
  fix x y assume "inj_on node_token C" "x \<in> C" "y \<in> C" "x \<noteq> y"
  then have "node_token x \<noteq> node_token y" by (auto dest: inj_onD)
  then show "node_Less x y \<or> node_Less y x"
    using bytes_Compare_range [of "node_token x" "node_token y"]
      bytes_Compare_neg [of "node_token x" "node_token y"] bytes_Compare_eq
    by (auto simp: node_Less_def)
qed (use node_sorter.asym node_sorter.weak in auto)

definition ring_inv :: "Ring \<Rightarrow> bool" where
  "ring_inv r \<longleftrightarrow>
     distinct (map fst (nodeMap r)) \<and> (\<forall>(k, n) \<in> set (nodeMap r). k = node_id n) \<and>
     tokenRing r = sort_Sort node_Less (map snd (nodeMap r))"

lemma ring_inv_New [simp]: "ring_inv NewRing"
  by (simp add: ring_inv_def NewRing_def sort_Sort_def)

lemma AList_update_new: "map_of al k = None \<Longrightarrow> AList.update k v al = al @ [(k, v)]"
  by (induction al) (auto split: if_splits)

lemma Ring_AddNode_Inr:
  "Ring_AddNode r n = Inr r' \<Longrightarrow>
     map_of (nodeMap r) (node_id n) = None \<and> nodeMap r' = nodeMap r @ [(node_id n, n)] \<and>
     tokenRing r' = sort_Sort node_Less (map snd (nodeMap r')) \<and> priorRing r' = tokenRing r"
  by (auto simp: Ring_AddNode_def refreshRing_def Let_def AList_update_new split: option.splits)

lemma ring_inv_AddNode: "ring_inv r \<Longrightarrow> Ring_AddNode r n = Inr r' \<Longrightarrow> ring_inv r'"
  by (drule Ring_AddNode_Inr) (auto simp: ring_inv_def map_of_eq_None_iff)

lemma set_tokenRing: "ring_inv r \<Longrightarrow> set (tokenRing r) = snd ` set (nodeMap r)"
  by (simp add: ring_inv_def)

lemma ring_inv_distinct: "ring_inv r \<Longrightarrow> distinct (tokenRing r)"
proof -
  assume r: "ring_inv r"
  then have "map fst (nodeMap r) = map node_id (map snd (nodeMap r))"
    by (auto simp: ring_inv_def)
  then have "distinct (map node_id (map snd (nodeMap r)))"
    using r by (metis ring_inv_def)
  then have "distinct (map snd (nodeMap r))" by (simp only: distinct_map)
  then show ?thesis using r by (simp add: ring_inv_def)
qed

lemma ring_inv_sorted: "ring_inv r \<Longrightarrow> sorted_wrt (\<lambda>m n. \<not> node_Less n m) (tokenRing r)"
  by (simp add: ring_inv_def node_sorter.sort_Sort_sorted)

text \<open>Two rings over the same nodes, with distinct tokens, are the same ring.\<close>

lemma ring_unique:
  assumes "ring_inv r" and "ring_inv r'" and "set (tokenRing r) = set (tokenRing r')"
    and "inj_on node_token (set (tokenRing r))"
  shows "tokenRing r = tokenRing r'"
proof (rule sort_total.sorted_unique [OF node_sort_total [OF assms(4)]])
qed (use assms ring_inv_distinct ring_inv_sorted in auto)

section \<open>Lemmas on the replicas of a token\<close>

definition ring_start :: "Ring \<Rightarrow> bytes \<Rightarrow> nat" where
  "ring_start r t =
     sort_Search (length (tokenRing r)) (\<lambda>i. bytes_Compare t (node_token (tokenRing r ! i)) \<le> 0)"

lemma bytes_Compare_le_trans:
  assumes "bytes_Compare t a \<le> 0" and "bytes_Compare b a \<noteq> -1"
  shows "bytes_Compare t b \<le> 0"
proof (cases "t = a")
  case True
  with assms(2) show ?thesis
    using bytes_Compare_range [of b a] bytes_Compare_neg [of a b] by auto
next
  case False
  then have "bytes_Compare t a = -1"
    using assms(1) bytes_Compare_range [of t a] bytes_Compare_eq [of t a] by auto
  then have "bytes_Compare t b = -1 \<or> bytes_Compare b a = -1" by (rule bytes_Compare_weak)
  with assms(2) show ?thesis by auto
qed

lemma ring_start_spec:
  assumes "ring_inv r"
  shows "ring_start r t \<le> length (tokenRing r)"
    and "k < ring_start r t \<Longrightarrow> bytes_Compare t (node_token (tokenRing r ! k)) = 1"
    and "ring_start r t \<le> k \<Longrightarrow> k < length (tokenRing r) \<Longrightarrow>
      bytes_Compare t (node_token (tokenRing r ! k)) \<le> 0"
proof -
  let ?n = "length (tokenRing r)"
  let ?f = "\<lambda>i. bytes_Compare t (node_token (tokenRing r ! i)) \<le> 0"
  have step: "?f b" if "a \<le> b" "b < ?n" "?f a" for a b
  proof (cases "a = b")
    case False
    with that ring_inv_sorted [OF assms] have "\<not> node_Less (tokenRing r ! b) (tokenRing r ! a)"
      by (auto simp: sorted_wrt_iff_nth_less)
    with that show ?thesis
      by (auto simp: node_Less_def intro: bytes_Compare_le_trans)
  qed (use that in simp)
  have mono: "\<forall>a b. a \<le> b \<and> b < ?n \<and> ?f a \<longrightarrow> ?f b"
    using step by blast
  note least = sort_Search_least [where n = ?n and f = ?f, OF mono, folded ring_start_def]
  show "ring_start r t \<le> length (tokenRing r)" by (rule least(1))
  show "bytes_Compare t (node_token (tokenRing r ! k)) = 1" if "k < ring_start r t"
    using least(2) [OF that] bytes_Compare_range [of t "node_token (tokenRing r ! k)"] by auto
  show "bytes_Compare t (node_token (tokenRing r ! k)) \<le> 0"
    if "ring_start r t \<le> k" "k < length (tokenRing r)"
    by (rule least(3) [OF that])
qed

lemma Ring_GetNodesForToken_alt:
  "Ring_GetNodesForToken r t rf =
     map (\<lambda>i. tokenRing r ! ((ring_start r t + i) mod length (tokenRing r)))
       [0..<min (unat rf) (length (tokenRing r))]"
  by (simp add: Ring_GetNodesForToken_def ring_start_def Let_def min_def)

lemma length_GetNodes:
  "length (Ring_GetNodesForToken r t rf) = min (unat rf) (length (tokenRing r))"
  by (simp add: Ring_GetNodesForToken_alt)

lemma mod_add_inj:
  fixes n :: nat
  assumes "(s + i) mod n = (s + j) mod n" and "i < n" and "j < n"
  shows "i = j"
proof -
  have "int (s + i) mod int n = int (s + j) mod int n"
    using assms(1) by (metis of_nat_mod)
  then have "(int (s + i) - int s) mod int n = (int (s + j) - int s) mod int n"
    by (rule mod_diff_cong) simp
  with assms show ?thesis by simp
qed

lemma distinct_GetNodes:
  assumes "ring_inv r"
  shows "distinct (Ring_GetNodesForToken r t rf)"
proof -
  let ?n = "length (tokenRing r)"
  have "inj_on (\<lambda>i. tokenRing r ! ((ring_start r t + i) mod ?n)) {0..<min (unat rf) ?n}"
  proof (rule inj_onI)
    fix i j
    assume ij: "i \<in> {0..<min (unat rf) ?n}" "j \<in> {0..<min (unat rf) ?n}"
      and eq: "tokenRing r ! ((ring_start r t + i) mod ?n) = tokenRing r ! ((ring_start r t + j) mod ?n)"
    then have "0 < ?n" by auto
    then have "(ring_start r t + i) mod ?n = (ring_start r t + j) mod ?n"
      using eq ring_inv_distinct [OF assms] by (simp add: nth_eq_iff_index_eq)
    with ij show "i = j" by (intro mod_add_inj [of "ring_start r t" i ?n j]) auto
  qed
  then show ?thesis by (simp add: Ring_GetNodesForToken_alt distinct_map)
qed

lemma set_GetNodes: "set (Ring_GetNodesForToken r t rf) \<subseteq> set (tokenRing r)"
proof (cases "tokenRing r = []")
  case True
  then show ?thesis by (simp add: Ring_GetNodesForToken_alt)
next
  case False
  then show ?thesis by (auto simp: Ring_GetNodesForToken_alt)
qed

lemma hd_GetNodes:
  assumes "tokenRing r \<noteq> []" and "0 < unat rf"
  shows "hd (Ring_GetNodesForToken r t rf) =
    tokenRing r ! (ring_start r t mod length (tokenRing r))"
  using assms by (auto simp: Ring_GetNodesForToken_alt hd_map hd_upt)

lemma ring_nth_le:
  assumes "ring_inv r" and "i \<le> j" and "j < length (tokenRing r)"
  shows "bytes_Compare (node_token (tokenRing r ! i)) (node_token (tokenRing r ! j)) \<le> 0"
proof (cases "i = j")
  case False
  then have "\<not> node_Less (tokenRing r ! j) (tokenRing r ! i)"
    using assms ring_inv_sorted by (auto simp: sorted_wrt_iff_nth_less)
  then show ?thesis
    using bytes_Compare_le_trans [of "node_token (tokenRing r ! i)" "node_token (tokenRing r ! i)"]
    by (simp add: node_Less_def)
qed simp

section \<open>Lemmas on the topology\<close>

text \<open>A topology that learns of the nodes of a list one after the other.\<close>

definition add_nodes :: "Topology \<Rightarrow> Node list \<Rightarrow> Topology" where
  "add_nodes t ns = foldl (\<lambda>t n. fst (Topology_AddNode t n)) t ns"

definition ring_of :: "Topology \<Rightarrow> DatacenterID \<Rightarrow> Ring" where
  "ring_of t dc = (case map_of (rings t) dc of None \<Rightarrow> NewRing | Some r \<Rightarrow> r)"

lemma add_nodes_simps [simp]:
  "add_nodes t [] = t" "add_nodes t (ns @ [n]) = fst (Topology_AddNode (add_nodes t ns) n)"
  by (simp_all add: add_nodes_def)

lemma map_of_ensure_ring [simp]:
  "map_of (ensure_ring dc rs) d =
     (if d = dc then Some (case map_of rs dc of None \<Rightarrow> NewRing | Some r \<Rightarrow> r) else map_of rs d)"
  by (auto simp: ensure_ring_def update_conv split: option.splits)

lemma ring_of_AddNode:
  "ring_of (fst (Topology_AddNode t n)) dc =
     (if dc = node_dcId n
      then (case Ring_AddNode (ring_of t dc) n of Inl _ \<Rightarrow> ring_of t dc | Inr r \<Rightarrow> r)
      else ring_of t dc)"
  by (auto simp: Topology_AddNode_def ring_of_def Let_def update_conv split: sum.splits)

lemma AddNode_frame [simp]:
  "partitioner (fst (Topology_AddNode t n)) = partitioner t"
  "localNodeID (fst (Topology_AddNode t n)) = localNodeID t"
  "localDcID (fst (Topology_AddNode t n)) = localDcID t"
  "replicationFactor (fst (Topology_AddNode t n)) = replicationFactor t"
  by (auto simp: Topology_AddNode_def Let_def split: sum.splits)

lemma add_nodes_frame [simp]:
  "partitioner (add_nodes t ns) = partitioner t"
  "localNodeID (add_nodes t ns) = localNodeID t"
  "localDcID (add_nodes t ns) = localDcID t"
  "replicationFactor (add_nodes t ns) = replicationFactor t"
  by (induction ns rule: rev_induct) simp_all

lemma GetLocalNodesForToken_alt:
  "GetLocalNodesForToken t tk =
     Ring_GetNodesForToken (ring_of t (localDcID t)) tk (ucast (replicationFactor t))"
  by (simp add: GetLocalNodesForToken_def ring_of_def Ring_GetNodesForToken_alt NewRing_def
      split: option.splits)

lemma ring_of_New [simp]: "ring_of (NewTopology nid dc p rf) d = NewRing"
  by (simp add: ring_of_def NewTopology_def)

text \<open>Adding a node puts exactly that node into the ring, unless its identifier is taken.\<close>

lemma Ring_AddNode_set:
  assumes "ring_inv r"
  shows "case Ring_AddNode r n of
      Inl _ \<Rightarrow> node_id n \<in> node_id ` set (tokenRing r)
    | Inr r' \<Rightarrow> ring_inv r' \<and> set (tokenRing r') = insert n (set (tokenRing r))"
proof (cases "Ring_AddNode r n")
  case (Inl e)
  then have "node_id n \<in> fst ` set (nodeMap r)"
    by (auto simp: Ring_AddNode_def Let_def split: option.splits dest!: map_of_SomeD)
      force
  then show ?thesis
    using assms Inl by (force simp: set_tokenRing ring_inv_def)
next
  case (Inr r')
  note r' = Ring_AddNode_Inr [OF Inr] ring_inv_AddNode [OF assms Inr]
  then have "set (tokenRing r') = snd ` set (nodeMap r')" by (simp add: set_tokenRing)
  with r' assms Inr show ?thesis by (auto simp: set_tokenRing)
qed

lemma add_nodes_ring:
  assumes "inj_on node_id (set ns)"
  shows "ring_inv (ring_of (add_nodes (NewTopology nid ldc p rf) ns) dc) \<and>
    set (tokenRing (ring_of (add_nodes (NewTopology nid ldc p rf) ns) dc)) =
      {n \<in> set ns. node_dcId n = dc}"
  using assms
proof (induction ns rule: rev_induct)
  case Nil
  have "tokenRing NewRing = []" by (simp add: NewRing_def)
  then show ?case by simp
next
  case (snoc n ns)
  let ?r = "ring_of (add_nodes (NewTopology nid ldc p rf) ns) dc"
  have inj: "inj_on node_id (set ns)" using snoc.prems by (auto intro: inj_on_subset)
  note IH = snoc.IH [OF inj]
  show ?case
  proof (cases "dc = node_dcId n")
    case False
    with IH show ?thesis by (auto simp: ring_of_AddNode)
  next
    case True
    show ?thesis
    proof (cases "Ring_AddNode ?r n")
      case (Inl e)
      then have "node_id n \<in> node_id ` set (tokenRing ?r)"
        using Ring_AddNode_set [of ?r n] IH by simp
      then have "n \<in> set ns" using snoc.prems IH by (auto dest: inj_onD)
      with True Inl IH show ?thesis by (auto simp: ring_of_AddNode)
    next
      case (Inr r')
      then show ?thesis
        using True IH Ring_AddNode_set [of ?r n] by (auto simp: ring_of_AddNode)
    qed
  qed
qed

section \<open>Properties\<close>


definition ex_node :: "nat \<Rightarrow> Node" where
  "ex_node n = \<lparr>node_name = ''n'', node_addr = '''', node_token = [of_nat n],
     node_id = \<lparr>b0 = 0, b1 = of_nat n\<rparr>, node_dcId = ''DC1'', node_status = NODE_UP,
     node_ref = n\<rparr>"


text \<open>
  Replica placement.  The replicas of a token are distinct members of the ring,
  as many as the replication factor allows; the first is the owner, the node with the
  least token that is not below the given one, or the node with the least token of all
  when the given token is beyond every node.
\<close>

theorem replicas_placement:
  assumes "ring_inv r" and "tokenRing r \<noteq> []" and "0 < unat rf"
  shows "distinct (Ring_GetNodesForToken r t rf) \<and>
    set (Ring_GetNodesForToken r t rf) \<subseteq> set (tokenRing r) \<and>
    length (Ring_GetNodesForToken r t rf) = min (unat rf) (length (tokenRing r)) \<and>
    (let owner = hd (Ring_GetNodesForToken r t rf);
         after = {m \<in> set (tokenRing r). bytes_Compare t (node_token m) \<le> 0};
         candidates = (if after = {} then set (tokenRing r) else after)
     in owner \<in> candidates \<and>
       (\<forall>m \<in> candidates. bytes_Compare (node_token owner) (node_token m) \<le> 0))"
proof -
  let ?n = "length (tokenRing r)" and ?s = "ring_start r t"
  let ?after = "{m \<in> set (tokenRing r). bytes_Compare t (node_token m) \<le> 0}"
  let ?o = "hd (Ring_GetNodesForToken r t rf)"
  note s = ring_start_spec [OF assms(1), where t = t]
  have after: "m \<in> ?after \<longleftrightarrow> (\<exists>k. ?s \<le> k \<and> k < ?n \<and> m = tokenRing r ! k)" for m
  proof
    assume "m \<in> ?after"
    then obtain k where k: "k < ?n" "m = tokenRing r ! k" by (auto simp: in_set_conv_nth)
    then have "?s \<le> k" using s(2) [of k] \<open>m \<in> ?after\<close> by fastforce
    with k show "\<exists>k. ?s \<le> k \<and> k < ?n \<and> m = tokenRing r ! k" by blast
  qed (use s(3) in auto)
  have "let candidates = (if ?after = {} then set (tokenRing r) else ?after)
     in ?o \<in> candidates \<and>
       (\<forall>m \<in> candidates. bytes_Compare (node_token ?o) (node_token m) \<le> 0)"
  proof (cases "?s < ?n")
    case True
    then have o: "?o = tokenRing r ! ?s" using hd_GetNodes [OF assms(2,3)] by simp
    then have "?o \<in> ?after" using True after [of ?o] by blast
    moreover have "bytes_Compare (node_token ?o) (node_token m) \<le> 0" if "m \<in> ?after" for m
      using that o after [of m] ring_nth_le [OF assms(1)] by metis
    ultimately show ?thesis by (auto simp: Let_def)
  next
    case False
    then have "?s = ?n" using s(1) by simp
    then have none: "?after = {}" using after False by fastforce
    have o: "?o = tokenRing r ! 0" using hd_GetNodes [OF assms(2,3)] \<open>?s = ?n\<close> by simp
    have "bytes_Compare (node_token ?o) (node_token m) \<le> 0" if "m \<in> set (tokenRing r)" for m
      using that o ring_nth_le [OF assms(1)] by (metis in_set_conv_nth le0)
    then show ?thesis using none o assms(2) by (auto simp: Let_def)
  qed
  then show ?thesis
    using distinct_GetNodes [OF assms(1)] set_GetNodes length_GetNodes by (simp add: Let_def)
qed

theorem replicas_placement_witness:
  "let r = ring_of (add_nodes (NewTopology \<lparr>b0 = 0, b1 = 1\<rparr> ''DC1'' string_bytes 2)
       [ex_node 1, ex_node 2, ex_node 3]) ''DC1''
   in ring_inv r \<and> tokenRing r \<noteq> [] \<and> 0 < unat (2 :: 32 word) \<and>
     distinct (Ring_GetNodesForToken r [2] 2)"
proof -
  let ?r = "ring_of (add_nodes (NewTopology \<lparr>b0 = 0, b1 = 1\<rparr> ''DC1'' string_bytes 2)
       [ex_node 1, ex_node 2, ex_node 3]) ''DC1''"
  have "inj_on node_id (set [ex_node 1, ex_node 2, ex_node 3])"
    by (auto simp: ex_node_def inj_on_def)
  from add_nodes_ring [OF this, of _ "''DC1''"]
  have r: "ring_inv ?r" "set (tokenRing ?r) = {ex_node 1, ex_node 2, ex_node 3}"
    by (auto simp: ex_node_def)
  then have "tokenRing ?r \<noteq> []" by auto
  with r replicas_placement [of ?r 2 "[2]"] show ?thesis by (simp add: Let_def)
qed

end
