(* ===== verification/Instruction.thy ===== *)
theory Instruction
  imports Types
begin

text \<open>
  Store instructions (\<^verbatim>\<open>store/instruction.go\<close>): a command on a key with arguments and a
  timestamp, its equality, copy and wire form.
\<close>

record Instruction =
  Cmd :: string
  Key :: string
  Args :: "string list"
  Timestamp :: Time

definition zero_Instruction :: Instruction where
  "zero_Instruction = \<lparr>Cmd = [], Key = [], Args = [], Timestamp = zero_Time\<rparr>"

definition NewInstruction :: "string \<Rightarrow> string \<Rightarrow> string list \<Rightarrow> Time \<Rightarrow> Instruction" where
  "NewInstruction cmd key args timestamp =
     \<lparr>Cmd = cmd, Key = key, Args = args, Timestamp = timestamp\<rparr>"

text \<open>The comparison loop over the arguments runs over indices.\<close>

definition Instruction_Equal :: "Instruction \<Rightarrow> Instruction \<Rightarrow> bool" where
  "Instruction_Equal i j =
     (if Cmd i \<noteq> Cmd j then False
      else if Key i \<noteq> Key j then False
      else if length (Args i) \<noteq> length (Args j) then False
      else if \<exists>n \<in> set [0..<length (Args i)]. Args i ! n \<noteq> Args j ! n then False
      else if Timestamp i \<noteq> Timestamp j then False
      else True)"

definition Instruction_Copy :: "Instruction \<Rightarrow> Instruction" where
  "Instruction_Copy i =
     \<lparr>Cmd = Cmd i, Key = Key i, Args = map (\<lambda>n. Args i ! n) [0..<length (Args i)],
      Timestamp = Timestamp i\<rparr>"

definition Instruction_IsZero :: "Instruction \<Rightarrow> bool" where
  "Instruction_IsZero i \<longleftrightarrow>
     Cmd i = [] \<and> Key i = [] \<and> length (Args i) = 0 \<and> Time_IsZero (Timestamp i)"

definition Instruction_NumBytes :: "Instruction \<Rightarrow> nat" where
  "Instruction_NumBytes i =
     NumStringBytes (Cmd i) + NumStringBytes (Key i) + 4 +
     sum_list (map NumStringBytes (Args i)) + NumTimeBytes"

definition Instruction_Serialize :: "Instruction \<Rightarrow> bytes" where
  "Instruction_Serialize i =
     WriteFieldString (Cmd i) @ WriteFieldString (Key i) @ put_uint32 (len32 (Args i)) @
     concat (map WriteFieldString (Args i)) @ WriteTime (Timestamp i)"

definition Instruction_Deserialize :: "Instruction reader" where
  "Instruction_Deserialize =
     rbind ReadFieldString (\<lambda>cmd.
     rbind ReadFieldString (\<lambda>key.
     rbind read_uint32 (\<lambda>numArgs.
     rbind (read_n (unat numArgs) ReadFieldString) (\<lambda>args.
     rbind ReadTime (\<lambda>ts.
       rreturn \<lparr>Cmd = cmd, Key = key, Args = args, Timestamp = ts\<rparr>)))))"

definition Instruction_ok :: "Instruction \<Rightarrow> bool" where
  "Instruction_ok i \<longleftrightarrow>
     fits32 (Cmd i) \<and> fits32 (Key i) \<and> fits32 (Args i) \<and> list_all fits32 (Args i)"

section \<open>Lemmas\<close>

lemma Instruction_Equal_iff: "Instruction_Equal i j \<longleftrightarrow> i = j"
proof
  assume "Instruction_Equal i j"
  then show "i = j"
    by (intro Instruction.equality)
       (auto simp: Instruction_Equal_def intro: nth_equalityI split: if_splits)
qed (simp add: Instruction_Equal_def)

lemma Instruction_Copy_id [simp]: "Instruction_Copy i = i"
  by (cases i) (simp add: Instruction_Copy_def map_nth)

interpretation instruction: codec Instruction_Serialize Instruction_Deserialize
  Instruction_NumBytes Instruction_ok
proof
  fix i :: Instruction and rest :: bytes
  assume "Instruction_ok i"
  then show "Instruction_Deserialize (Instruction_Serialize i @ rest) = Inr (i, rest)"
    by (simp add: Instruction_Deserialize_def Instruction_Serialize_def Instruction_ok_def
        field_string.bind_read field_string.bind_read_list time.bind_read codec_simps
        list_all_iff fits32_def)
next
  fix i :: Instruction
  assume "Instruction_ok i"
  then show "length (Instruction_Serialize i) = Instruction_NumBytes i"
    using field_string.length_list [of "Args i"]
    by (simp add: Instruction_Serialize_def Instruction_NumBytes_def Instruction_ok_def
        field_string.len time.len list_all_iff)
qed

end
