(* ===== verification/IdSet.thy ===== *)
theory IdSet
  imports Types
begin

text \<open>
  Sets of instance identifiers (\<^verbatim>\<open>InstanceIDSet\<close> in
  \<^verbatim>\<open>consensus/instance_containers.go\<close>), Go maps from identifiers to
  \<^verbatim>\<open>true\<close>.  A set is the list of its keys in the order in which a
  \<^verbatim>\<open>range\<close> loop visits them, without repetition; a key that is inserted comes last.
  Go leaves the order open, so the lemmas speak of the keys through \<^term>\<open>set\<close> only.
\<close>

type_synonym InstanceIDSet = "InstanceID list"

text \<open>\<^verbatim>\<open>s[id] = true\<close> and \<^verbatim>\<open>delete(s, id)\<close>.\<close>

definition set_put :: "'a \<Rightarrow> 'a list \<Rightarrow> 'a list" where
  "set_put k s = (if k \<in> set s then s else s @ [k])"

definition set_delete :: "'a \<Rightarrow> 'a list \<Rightarrow> 'a list" where
  "set_delete k s = filter (\<lambda>x. x \<noteq> k) s"

definition NewInstanceIDSet :: "InstanceID list \<Rightarrow> InstanceIDSet" where
  "NewInstanceIDSet ids = fold set_put ids []"

definition NewSizedInstanceIDSet :: "nat \<Rightarrow> InstanceIDSet" where
  "NewSizedInstanceIDSet sz = []"

definition idset_Contains :: "InstanceIDSet \<Rightarrow> InstanceID \<Rightarrow> bool" where
  "idset_Contains i k = (k \<in> set i)"

definition idset_Size :: "InstanceIDSet \<Rightarrow> nat" where
  "idset_Size i = length i"

definition idset_Equal :: "InstanceIDSet \<Rightarrow> InstanceIDSet \<Rightarrow> bool" where
  "idset_Equal i j =
     (if length i \<noteq> length j then False
      else if list_ex (\<lambda>key. \<not> key \<in> set j) i then False
      else True)"

definition idset_Union :: "InstanceIDSet \<Rightarrow> InstanceIDSet \<Rightarrow> InstanceIDSet" where
  "idset_Union i j = fold set_put j (fold set_put i [])"

definition idset_Intersect :: "InstanceIDSet \<Rightarrow> InstanceIDSet \<Rightarrow> InstanceIDSet" where
  "idset_Intersect i j = fold (\<lambda>k n. if k \<in> set j then set_put k n else n) i []"

definition idset_Add :: "InstanceIDSet \<Rightarrow> InstanceID list \<Rightarrow> InstanceIDSet" where
  "idset_Add i ids = fold set_put ids i"

definition idset_Remove :: "InstanceIDSet \<Rightarrow> InstanceID list \<Rightarrow> InstanceIDSet" where
  "idset_Remove i ids = fold set_delete ids i"

definition idset_Combine :: "InstanceIDSet \<Rightarrow> InstanceIDSet list \<Rightarrow> InstanceIDSet" where
  "idset_Combine i idSets = fold (\<lambda>ids s. fold set_put ids s) idSets i"

definition idset_Difference :: "InstanceIDSet \<Rightarrow> InstanceIDSet \<Rightarrow> InstanceIDSet" where
  "idset_Difference i j =
     fold (\<lambda>key s. if \<not> idset_Contains j key then idset_Add s [key] else s) i (NewInstanceIDSet [])"

definition idset_Subtract :: "InstanceIDSet \<Rightarrow> InstanceIDSet \<Rightarrow> InstanceIDSet" where
  "idset_Subtract i j = fold set_delete j i"

definition idset_Clear :: "InstanceIDSet \<Rightarrow> InstanceIDSet" where
  "idset_Clear i = fold set_delete i i"

definition idset_Copy :: "InstanceIDSet \<Rightarrow> InstanceIDSet" where
  "idset_Copy i = fold set_put i (NewSizedInstanceIDSet (idset_Size i))"

definition idset_List :: "InstanceIDSet \<Rightarrow> InstanceID list" where
  "idset_List i = fold (\<lambda>k l. l @ [k]) i []"

section \<open>Lemmas\<close>

lemma set_set_put [simp]: "set (set_put k s) = insert k (set s)"
  by (auto simp: set_put_def)

lemma distinct_set_put [simp]: "distinct (set_put k s) \<longleftrightarrow> distinct s"
  by (simp add: set_put_def)

lemma set_set_delete [simp]: "set (set_delete k s) = set s - {k}"
  by (auto simp: set_delete_def)

lemma distinct_set_delete [intro]: "distinct s \<Longrightarrow> distinct (set_delete k s)"
  by (simp add: set_delete_def)

lemma fold_set_put [simp]:
  "set (fold set_put ks s) = set ks \<union> set s" "distinct (fold set_put ks s) \<longleftrightarrow> distinct s"
  by (induction ks arbitrary: s) auto

lemma fold_set_delete [simp]: "set (fold set_delete ks s) = set s - set ks"
  by (induction ks arbitrary: s) auto

lemma distinct_fold_set_delete [intro]: "distinct s \<Longrightarrow> distinct (fold set_delete ks s)"
  by (induction ks arbitrary: s) auto

lemma fold_set_filter:
  "set (fold (\<lambda>k s. if P k then set_put k s else s) ks s) = {k \<in> set ks. P k} \<union> set s"
  "distinct (fold (\<lambda>k s. if P k then set_put k s else s) ks s) \<longleftrightarrow> distinct s"
  by (induction ks arbitrary: s) auto

lemma fold_append_id [simp]: "fold (\<lambda>k l. l @ [k]) ks l = l @ ks"
  by (induction ks arbitrary: l) auto

text \<open>Every operation computes the operation on sets that its name says.\<close>

lemma set_NewInstanceIDSet [simp, idset_simps]: "set (NewInstanceIDSet ids) = set ids"
  by (simp add: NewInstanceIDSet_def)

lemma set_NewSized [simp, idset_simps]: "set (NewSizedInstanceIDSet n) = {}"
  by (simp add: NewSizedInstanceIDSet_def)

lemma set_Union [simp, idset_simps]: "set (idset_Union i j) = set i \<union> set j"
  by (auto simp: idset_Union_def)

lemma set_Intersect [simp, idset_simps]: "set (idset_Intersect i j) = set i \<inter> set j"
  by (auto simp: idset_Intersect_def fold_set_filter [of "\<lambda>k. k \<in> set j"])

lemma set_Add [simp, idset_simps]: "set (idset_Add i ids) = set i \<union> set ids"
  by (auto simp: idset_Add_def)

lemma set_Remove [simp, idset_simps]: "set (idset_Remove i ids) = set i - set ids"
  by (simp add: idset_Remove_def)

lemma set_Combine [simp, idset_simps]: "set (idset_Combine i idSets) = set i \<union> \<Union> (set ` set idSets)"
  by (induction idSets arbitrary: i) (auto simp: idset_Combine_def)

lemma idset_Difference_alt:
  "idset_Difference i j = fold (\<lambda>k s. if k \<notin> set j then set_put k s else s) i []"
  by (simp add: idset_Difference_def idset_Contains_def idset_Add_def NewInstanceIDSet_def cong: if_cong)

lemma set_Difference [simp, idset_simps]: "set (idset_Difference i j) = set i - set j"
  by (auto simp: idset_Difference_alt fold_set_filter [of "\<lambda>k. k \<notin> set j"])

lemma set_Subtract [simp, idset_simps]: "set (idset_Subtract i j) = set i - set j"
  by (simp add: idset_Subtract_def)

lemma Clear_empty [simp, idset_simps]: "idset_Clear i = []"
proof -
  have "set (idset_Clear i) = {}" by (simp add: idset_Clear_def)
  then show ?thesis by simp
qed

lemma set_Copy [simp, idset_simps]: "set (idset_Copy i) = set i"
  by (simp add: idset_Copy_def)

lemma List_id [simp, idset_simps]: "idset_List i = i"
  by (simp add: idset_List_def)

lemma Contains_iff [simp, idset_simps]: "idset_Contains i k \<longleftrightarrow> k \<in> set i"
  by (simp add: idset_Contains_def)

text \<open>The results of all operations are sets again.\<close>

lemma distinct_idset [simp, intro]:
  "distinct (NewInstanceIDSet ids)" "distinct (NewSizedInstanceIDSet n)" "distinct (idset_Union i j)"
  "distinct (idset_Intersect i j)" "distinct (idset_Difference i j)" "distinct (idset_Copy i)"
  "distinct i \<Longrightarrow> distinct (idset_Add i ids)" "distinct i \<Longrightarrow> distinct (idset_Remove i ids)"
  "distinct i \<Longrightarrow> distinct (idset_Subtract i j)" "distinct i \<Longrightarrow> distinct (idset_Combine i idSets)"
proof -
  show "distinct i \<Longrightarrow> distinct (idset_Combine i idSets)"
    unfolding idset_Combine_def by (induction idSets arbitrary: i) auto
qed (auto simp: NewInstanceIDSet_def NewSizedInstanceIDSet_def idset_Union_def idset_Copy_def
    idset_Intersect_def idset_Difference_alt idset_Add_def idset_Remove_def idset_Subtract_def
    fold_set_filter [of "\<lambda>k. k \<in> set j"] fold_set_filter [of "\<lambda>k. k \<notin> set j"])

text \<open>
  Equality compares sizes and tests one inclusion; on sets without repetition that decides
  whether they have the same elements.
\<close>

lemma idset_Equal_iff [idset_simps]:
  assumes "distinct i" and "distinct j"
  shows "idset_Equal i j \<longleftrightarrow> set i = set j"
proof -
  have "set i = set j" if "length i = length j" "set i \<subseteq> set j"
    using that assms card_subset_eq [of "set j" "set i"] by (simp add: distinct_card)
  moreover have "length i = length j" if "set i = set j"
    using that assms by (metis distinct_card)
  ultimately show ?thesis by (auto simp: idset_Equal_def list_ex_iff)
qed

end
