(* ===== verification/Instance.thy ===== *)
theory Instance
  imports Instruction IdSet
begin

text \<open>
  Paxos instances (\<^verbatim>\<open>consensus/instance.go\<close>), their state changes, wire form, and the
  map of the instances a replica knows (\<^verbatim>\<open>InstanceMap\<close> in
  \<^verbatim>\<open>consensus/instance_containers.go\<close>).  The mutexes make each method one atomic
  step; the commit event carries no data and shows up where a goroutine waits for it.
  \<^verbatim>\<open>PAXOS_DEBUG\<close> is false, so the debug log of dependencies is left out.
\<close>

type_synonym InstanceStatus = byte

definition INSTANCE_PREACCEPTED :: InstanceStatus where "INSTANCE_PREACCEPTED = 1"
definition INSTANCE_ACCEPTED :: InstanceStatus where "INSTANCE_ACCEPTED = 2"
definition INSTANCE_COMMITTED :: InstanceStatus where "INSTANCE_COMMITTED = 3"
definition INSTANCE_EXECUTED :: InstanceStatus where "INSTANCE_EXECUTED = 4"

lemmas status_defs =
  INSTANCE_PREACCEPTED_def INSTANCE_ACCEPTED_def INSTANCE_COMMITTED_def INSTANCE_EXECUTED_def

definition InstanceStatus_String :: "InstanceStatus \<Rightarrow> string" where
  "InstanceStatus_String s =
     (if s = INSTANCE_PREACCEPTED then ''INSTANCE_PREACCEPTED''
      else if s = INSTANCE_ACCEPTED then ''INSTANCE_ACCEPTED''
      else if s = INSTANCE_COMMITTED then ''INSTANCE_COMMITTED''
      else if s = INSTANCE_EXECUTED then ''INSTANCE_EXECUTED''
      else ''Unknown InstanceStatus: %v'')"

text \<open>A result channel is a number; the results sent on it are recorded by the manager.\<close>

type_synonym result_chan = nat

record Instance =
  InstanceID :: InstanceID
  LeaderID :: NodeId
  Successors :: "NodeId list"
  Command :: Instruction
  Dependencies :: "InstanceID list"
  Status :: InstanceStatus
  MaxBallot :: "32 word"
  Noop :: bool
  DependencyMatch :: bool
  ReadOnly :: bool
  ResultListeners :: "result_chan list"
  StronglyConnected :: InstanceIDSet
  commitTimeout :: Time

definition zero_Instance :: Instance where
  "zero_Instance =
     \<lparr>InstanceID = zero_B16, LeaderID = zero_B16, Successors = [], Command = zero_Instruction,
      Dependencies = [], Status = 0, MaxBallot = 0, Noop = False, DependencyMatch = False,
      ReadOnly = False, ResultListeners = [], StronglyConnected = [], commitTimeout = zero_Time\<rparr>"

section \<open>Accessors\<close>

definition getCommitTimeout :: "Instance \<Rightarrow> Time" where
  "getCommitTimeout i = commitTimeout i"

definition getStatus :: "Instance \<Rightarrow> InstanceStatus" where
  "getStatus i = Status i"

definition getBallot :: "Instance \<Rightarrow> 32 word" where
  "getBallot i = MaxBallot i"

definition getSuccessors :: "Instance \<Rightarrow> NodeId list" where
  "getSuccessors i = map (\<lambda>n. Successors i ! n) [0..<length (Successors i)]"

definition getDependencies :: "Instance \<Rightarrow> InstanceID list" where
  "getDependencies i = Dependencies i"

definition incrementBallot :: "Instance \<Rightarrow> Instance \<times> 32 word" where
  "incrementBallot i = (let i = i\<lparr>MaxBallot := MaxBallot i + 1\<rparr> in (i, MaxBallot i))"

definition updateBallot :: "Instance \<Rightarrow> 32 word \<Rightarrow> Instance \<times> bool" where
  "updateBallot i ballot =
     (if ballot > MaxBallot i then (i\<lparr>MaxBallot := ballot\<rparr>, True) else (i, False))"

definition setDeps :: "Instance \<Rightarrow> InstanceID list \<Rightarrow> Instance" where
  "setDeps i deps = i\<lparr>Dependencies := deps\<rparr>"

definition setStronglyConnectedIds :: "Instance \<Rightarrow> InstanceID list \<Rightarrow> Instance" where
  "setStronglyConnectedIds i iids = i\<lparr>StronglyConnected := NewInstanceIDSet iids\<rparr>"

text \<open>\<open>c\<close> is the new channel.\<close>

definition addListener :: "Instance \<Rightarrow> result_chan \<Rightarrow> Instance" where
  "addListener i c = i\<lparr>ResultListeners := ResultListeners i @ [c]\<rparr>"

definition Instance_Copy :: "Instance \<Rightarrow> Instance" where
  "Instance_Copy i =
     zero_Instance\<lparr>InstanceID := InstanceID i, LeaderID := LeaderID i,
       Successors := map (\<lambda>n. Successors i ! n) [0..<length (Successors i)],
       Command := Instruction_Copy (Command i),
       Dependencies := map (\<lambda>n. Dependencies i ! n) [0..<length (Dependencies i)],
       Status := Status i, MaxBallot := MaxBallot i, Noop := Noop i,
       DependencyMatch := DependencyMatch i, commitTimeout := commitTimeout i\<rparr>"

text \<open>\<^verbatim>\<open>%v\<close> of the status is not formatted.\<close>

definition mergeAttributes :: "Instance \<Rightarrow> InstanceID list \<Rightarrow> Instance \<times> (error + bool)" where
  "mergeAttributes i deps =
     (if Status i \<noteq> INSTANCE_PREACCEPTED
      then (i, Inl (Errorf ''attributes can only be merged on instances with preaccepted status, %v''))
      else
        let iSet = NewInstanceIDSet (Dependencies i);
            oSet = NewInstanceIDSet deps
        in if \<not> idset_Equal iSet oSet
           then let union = idset_Union iSet oSet; deps = fold (\<lambda>k l. l @ [k]) union []
                in (setDeps i deps, Inr True)
           else (i, Inr False))"

section \<open>State changes\<close>

text \<open>
  Timeouts in milliseconds (\<^verbatim>\<open>consensus/manager.go\<close>).  The current time is an
  argument \<open>now\<close> of the operations that call \<^verbatim>\<open>time.Now\<close>.
\<close>

definition PREACCEPT_TIMEOUT :: nat where "PREACCEPT_TIMEOUT = 2000"
definition ACCEPT_TIMEOUT :: nat where "ACCEPT_TIMEOUT = 2000"
definition PREACCEPT_COMMIT_TIMEOUT :: nat where
  "PREACCEPT_COMMIT_TIMEOUT = PREACCEPT_TIMEOUT + ACCEPT_TIMEOUT + 50"
definition ACCEPT_COMMIT_TIMEOUT :: nat where "ACCEPT_COMMIT_TIMEOUT = ACCEPT_TIMEOUT + 50"

definition makePreAcceptCommitTimeout :: "Time \<Rightarrow> Time" where
  "makePreAcceptCommitTimeout now = Time_AddMs now PREACCEPT_COMMIT_TIMEOUT"

definition makeAcceptCommitTimeout :: "Time \<Rightarrow> Time" where
  "makeAcceptCommitTimeout now = Time_AddMs now ACCEPT_COMMIT_TIMEOUT"

text \<open>
  The state changes take the instance they update and the instance \<open>inst\<close> whose
  attributes they copy.  The source skips the copy when both are the same object; copying
  an instance onto itself changes nothing, so the model does not tell the cases apart.
  \<^verbatim>\<open>preaccept\<close> asks the manager for the dependencies: \<open>getInstanceDeps\<close> maps the
  dependency manager \<open>d\<close> and the instance to the updated dependency manager and the result.
\<close>

definition copyAttributes :: "Instance \<Rightarrow> Instance \<Rightarrow> Instance" where
  "copyAttributes i inst =
     (let i = i\<lparr>Noop := Noop inst\<rparr>
      in if MaxBallot inst > MaxBallot i then i\<lparr>MaxBallot := MaxBallot inst\<rparr> else i)"

definition bumpBallot :: "bool \<Rightarrow> Instance \<Rightarrow> Instance" where
  "bumpBallot incr i = (if incr then i\<lparr>MaxBallot := MaxBallot i + 1\<rparr> else i)"

definition preaccept ::
    "('d \<Rightarrow> Instance \<Rightarrow> 'd \<times> (error + InstanceID list)) \<Rightarrow> Time \<Rightarrow> 'd \<Rightarrow>
     Instance \<Rightarrow> Instance \<Rightarrow> bool \<Rightarrow> Instance \<times> 'd \<times> error option" where
  "preaccept getInstanceDeps now d i inst incr =
     (if Status i > INSTANCE_PREACCEPTED
      then (i, d, Some (InvalidStatusUpdateError (InstanceID i) (Status i) INSTANCE_PREACCEPTED))
      else
        let i = copyAttributes i inst; i = i\<lparr>Status := INSTANCE_PREACCEPTED\<rparr> in
        case getInstanceDeps d i of
          (d, Inl err) \<Rightarrow> (i, d, Some err)
        | (d, Inr deps) \<Rightarrow>
            let i = setDeps i deps; i = i\<lparr>commitTimeout := makePreAcceptCommitTimeout now\<rparr>
            in (bumpBallot incr i, d, None))"

definition accept :: "Time \<Rightarrow> Instance \<Rightarrow> Instance \<Rightarrow> bool \<Rightarrow> Instance \<times> error option" where
  "accept now i inst incr =
     (if Status i > INSTANCE_ACCEPTED
      then (i, Some (InvalidStatusUpdateError (InstanceID i) (Status i) INSTANCE_ACCEPTED))
      else
        let i = setDeps i (Dependencies inst); i = copyAttributes i inst;
            i = i\<lparr>Status := INSTANCE_ACCEPTED, commitTimeout := makeAcceptCommitTimeout now\<rparr>
        in (bumpBallot incr i, None))"

definition commit :: "Instance \<Rightarrow> Instance \<Rightarrow> bool \<Rightarrow> Instance \<times> error option" where
  "commit i inst incr =
     (if Status i > INSTANCE_COMMITTED
      then (i, Some (InvalidStatusUpdateError (InstanceID i) (Status i) INSTANCE_COMMITTED))
      else
        let i = setDeps i (Dependencies inst); i = copyAttributes i inst;
            i = i\<lparr>Status := INSTANCE_COMMITTED\<rparr>
        in (bumpBallot incr i, None))"

definition setNoop :: "Instance \<Rightarrow> Instance" where
  "setNoop i = i\<lparr>Noop := True\<rparr>"

section \<open>Serialization\<close>

definition NumBytesLimitedUnsafe :: "Instance \<Rightarrow> nat" where
  "NumBytesLimitedUnsafe i =
     UUID_NUM_BYTES + UUID_NUM_BYTES + 4 + UUID_NUM_BYTES * length (Successors i) +
     Instruction_NumBytes (Command i) + 4 + UUID_NUM_BYTES * length (Dependencies i) +
     1 + 4 + 1 + 1 + 1"

definition NumBytesLimited :: "Instance \<Rightarrow> nat" where
  "NumBytesLimited i = NumBytesLimitedUnsafe i"

definition SerializeLimitedUnsafe :: "Instance \<Rightarrow> bytes" where
  "SerializeLimitedUnsafe i =
     WriteBuffer (InstanceID i) @ WriteBuffer (LeaderID i) @
     put_uint32 (len32 (Successors i)) @ concat (map WriteBuffer (Successors i)) @
     Instruction_Serialize (Command i) @
     put_uint32 (len32 (Dependencies i)) @ concat (map WriteBuffer (Dependencies i)) @
     [Status i] @ put_uint32 (MaxBallot i) @
     [bool_byte (Noop i)] @ [bool_byte (DependencyMatch i)] @ [bool_byte (ReadOnly i)]"

text \<open>Decoding fills the receiver \<open>i\<close>; the slices are allocated afresh.\<close>

definition DeserializeLimited :: "Instance \<Rightarrow> Instance reader" where
  "DeserializeLimited i =
     rbind (ReadBuffer (InstanceID i)) (\<lambda>iid.
     rbind (ReadBuffer (LeaderID i)) (\<lambda>leader.
     rbind read_uint32 (\<lambda>numSuccessors.
     rbind (read_n (unat numSuccessors) (ReadBuffer zero_B16)) (\<lambda>successors.
     rbind Instruction_Deserialize (\<lambda>command.
     rbind read_uint32 (\<lambda>numDeps.
     rbind (read_n (unat numDeps) (ReadBuffer zero_B16)) (\<lambda>deps.
     rbind read_byte (\<lambda>status.
     rbind read_uint32 (\<lambda>ballot.
     rbind read_bool (\<lambda>noop.
     rbind read_bool (\<lambda>match.
     rbind read_bool (\<lambda>readonly.
       rreturn (i\<lparr>InstanceID := iid, LeaderID := leader, Successors := successors,
         Command := command, Dependencies := deps, Status := status, MaxBallot := ballot,
         Noop := noop, DependencyMatch := match, ReadOnly := readonly\<rparr>)))))))))))))"

definition SerializeLimited :: "Instance \<Rightarrow> bytes" where
  "SerializeLimited i = SerializeLimitedUnsafe i"

definition Instance_NumBytes :: "Instance \<Rightarrow> nat" where
  "Instance_NumBytes i = NumBytesLimitedUnsafe i + NumTimeBytes * 1"

definition Instance_Serialize :: "Instance \<Rightarrow> bytes" where
  "Instance_Serialize i = SerializeLimitedUnsafe i @ WriteTime (commitTimeout i)"

definition Instance_Deserialize :: "Instance \<Rightarrow> Instance reader" where
  "Instance_Deserialize i =
     rbind (DeserializeLimited i) (\<lambda>i. rbind ReadTime (\<lambda>val. rreturn (i\<lparr>commitTimeout := val\<rparr>)))"

section \<open>The instance map\<close>

type_synonym InstanceMap = "InstanceID \<Rightarrow> Instance option"

definition NewInstanceMap :: InstanceMap where
  "NewInstanceMap = Map.empty"

definition imap_Add :: "InstanceMap \<Rightarrow> Instance \<Rightarrow> InstanceMap" where
  "imap_Add m i = m(InstanceID i \<mapsto> i)"

definition imap_Get :: "InstanceMap \<Rightarrow> InstanceID \<Rightarrow> Instance option" where
  "imap_Get m iid = m iid"

definition imap_GetOrSet ::
    "InstanceMap \<Rightarrow> Instance \<Rightarrow> (Instance \<Rightarrow> Instance) option \<Rightarrow> InstanceMap \<times> Instance \<times> bool" where
  "imap_GetOrSet m inst initialize =
     (case m (InstanceID inst) of
        Some i \<Rightarrow> (m, i, True)
      | None \<Rightarrow>
          let inst' = (case initialize of None \<Rightarrow> inst | Some f \<Rightarrow> f inst)
          in (m(InstanceID inst \<mapsto> inst'), inst', False))"

definition imap_RemoveID :: "InstanceMap \<Rightarrow> InstanceID \<Rightarrow> InstanceMap" where
  "imap_RemoveID m iid = m(iid := None)"

definition imap_Remove :: "InstanceMap \<Rightarrow> Instance \<Rightarrow> InstanceMap" where
  "imap_Remove m i = m(InstanceID i := None)"

definition imap_ContainsID :: "InstanceMap \<Rightarrow> InstanceID \<Rightarrow> bool" where
  "imap_ContainsID m iid = (case m iid of None \<Rightarrow> False | Some _ \<Rightarrow> True)"

definition imap_Contains :: "InstanceMap \<Rightarrow> Instance \<Rightarrow> bool" where
  "imap_Contains m i = imap_ContainsID m (InstanceID i)"

text \<open>
  \<^verbatim>\<open>GetMap\<close> copies entries of the map; an identifier without an entry is mapped to
  the nil pointer, which a lookup does not tell from a missing key.
\<close>

definition imap_GetMap :: "InstanceMap \<Rightarrow> InstanceMap \<Rightarrow> InstanceID list \<Rightarrow> InstanceMap" where
  "imap_GetMap m imap iids = fold (\<lambda>iid imap. imap(iid := m iid)) iids imap"

section \<open>Lemmas\<close>

lemma status_order [simp]:
  "INSTANCE_PREACCEPTED < INSTANCE_ACCEPTED" "INSTANCE_ACCEPTED < INSTANCE_COMMITTED"
  "INSTANCE_COMMITTED < INSTANCE_EXECUTED" "INSTANCE_PREACCEPTED < INSTANCE_COMMITTED"
  "INSTANCE_PREACCEPTED < INSTANCE_EXECUTED" "INSTANCE_ACCEPTED < INSTANCE_EXECUTED"
  by (simp_all add: status_defs)

text \<open>A copy drops the fields that \<^verbatim>\<open>Copy\<close> does not mention.\<close>

lemma Instance_Copy_alt:
  "Instance_Copy i = i\<lparr>ReadOnly := False, ResultListeners := [], StronglyConnected := []\<rparr>"
  by (cases i) (simp add: Instance_Copy_def zero_Instance_def map_nth)

lemma copyAttributes_self [simp]: "copyAttributes i i = i"
  by (simp add: copyAttributes_def)

lemma copyAttributes_fields [simp]:
  "InstanceID (copyAttributes i inst) = InstanceID i" "LeaderID (copyAttributes i inst) = LeaderID i"
  "Command (copyAttributes i inst) = Command i" "Dependencies (copyAttributes i inst) = Dependencies i"
  "Status (copyAttributes i inst) = Status i" "Noop (copyAttributes i inst) = Noop inst"
  "ReadOnly (copyAttributes i inst) = ReadOnly i"
  "ResultListeners (copyAttributes i inst) = ResultListeners i"
  "MaxBallot (copyAttributes i inst) = max (MaxBallot i) (MaxBallot inst)"
  by (auto simp: copyAttributes_def Let_def max_def)

lemma bumpBallot_fields [simp]:
  "InstanceID (bumpBallot b i) = InstanceID i" "LeaderID (bumpBallot b i) = LeaderID i"
  "Command (bumpBallot b i) = Command i" "Dependencies (bumpBallot b i) = Dependencies i"
  "Status (bumpBallot b i) = Status i" "Noop (bumpBallot b i) = Noop i"
  "ReadOnly (bumpBallot b i) = ReadOnly i" "ResultListeners (bumpBallot b i) = ResultListeners i"
  "MaxBallot (bumpBallot b i) = MaxBallot i + (if b then 1 else 0)"
  by (simp_all add: bumpBallot_def)

lemma imap_GetMap_apply:
  "imap_GetMap m imap iids x = (if x \<in> set iids then m x else imap x)"
  by (induction iids arbitrary: imap) (auto simp: imap_GetMap_def)

text \<open>
  Merging leaves an instance that agrees with the other dependencies alone, and otherwise
  gives it the union.
\<close>

lemma mergeAttributes_spec:
  assumes "Status i = INSTANCE_PREACCEPTED"
  shows "\<exists>deps'. mergeAttributes i deps = (i\<lparr>Dependencies := deps'\<rparr>, Inr (set deps \<noteq> set (Dependencies i))) \<and>
    set deps' = set (Dependencies i) \<union> set deps"
proof (cases "set deps = set (Dependencies i)")
  case True
  then have "mergeAttributes i deps = (i\<lparr>Dependencies := Dependencies i\<rparr>, Inr False)"
    using assms by (simp add: mergeAttributes_def Let_def idset_Equal_iff)
  with True show ?thesis by (intro exI [of _ "Dependencies i"]) simp
next
  case False
  with assms show ?thesis
    by (auto simp: mergeAttributes_def Let_def idset_Equal_iff setDeps_def)
qed

section \<open>The wire form as a codec\<close>

definition Instance_ok :: "Instance \<Rightarrow> bool" where
  "Instance_ok i \<longleftrightarrow> fits32 (Successors i) \<and> fits32 (Dependencies i) \<and> Instruction_ok (Command i)"

text \<open>
  The fields that the limited form does not carry come back as those of a fresh instance.
\<close>

definition wire_limited :: "Instance \<Rightarrow> Instance" where
  "wire_limited i = i\<lparr>ResultListeners := [], StronglyConnected := [], commitTimeout := zero_Time\<rparr>"

definition wire_full :: "Instance \<Rightarrow> Instance" where
  "wire_full i = i\<lparr>ResultListeners := [], StronglyConnected := []\<rparr>"

lemma read_n_uuids [codec_simps]:
  "fits32 ids \<Longrightarrow> rbind (read_n (unat (len32 ids)) (ReadBuffer zero_B16)) f
     (concat (map WriteBuffer ids) @ rest) = f ids rest"
  by (simp add: uuid.bind_read_list fits32_def)

lemma DeserializeLimited_Serialize:
  assumes "Instance_ok i"
  shows "DeserializeLimited zero_Instance (SerializeLimited i @ rest) = Inr (wire_limited i, rest)"
  using assms
  by (simp add: DeserializeLimited_def SerializeLimited_def SerializeLimitedUnsafe_def
      Instance_ok_def uuid.bind_read instruction.bind_read codec_simps zero_Instance_def
      wire_limited_def)

lemma Deserialize_Serialize:
  assumes "Instance_ok i"
  shows "Instance_Deserialize zero_Instance (Instance_Serialize i @ rest) = Inr (wire_full i, rest)"
  using DeserializeLimited_Serialize [OF assms, of "WriteTime (commitTimeout i) @ rest"]
  by (simp add: Instance_Deserialize_def Instance_Serialize_def SerializeLimited_def codec_simps
      time.bind_read wire_limited_def wire_full_def)

lemma length_uuids [simp]: "length (concat (map WriteBuffer ids)) = UUID_NUM_BYTES * length ids"
  using uuid.length_list [of ids] by (simp add: sum_list_triv)

lemma length_SerializeLimited:
  "Instance_ok i \<Longrightarrow> length (SerializeLimited i) = NumBytesLimited i"
  by (simp add: SerializeLimited_def SerializeLimitedUnsafe_def NumBytesLimited_def
      NumBytesLimitedUnsafe_def Instance_ok_def uuid.len instruction.len)

interpretation instance_limited: codec SerializeLimited "DeserializeLimited zero_Instance"
  NumBytesLimited "\<lambda>i. Instance_ok i \<and> wire_limited i = i"
  by unfold_locales (auto simp: DeserializeLimited_Serialize length_SerializeLimited)

interpretation instance_full: codec Instance_Serialize "Instance_Deserialize zero_Instance"
  Instance_NumBytes "\<lambda>i. Instance_ok i \<and> wire_full i = i"
proof
  show "Instance_ok a \<and> wire_full a = a \<Longrightarrow>
      Instance_Deserialize zero_Instance (Instance_Serialize a @ rest) = Inr (a, rest)" for a rest
    by (simp add: Deserialize_Serialize)
  show "Instance_ok a \<and> wire_full a = a \<Longrightarrow>
      length (Instance_Serialize a) = Instance_NumBytes a" for a
    using length_SerializeLimited [of a]
    by (simp add: Instance_Serialize_def Instance_NumBytes_def time.len SerializeLimited_def
        NumBytesLimited_def)
qed

end
