(* ===== verification/Dependencies.thy ===== *)
theory Dependencies
  imports Instance "HOL-Library.AList" "HOL-Library.Sublist"
begin

text \<open>
  The dependency tree (\<^verbatim>\<open>consensus/manager_depedencies.go\<close>): for every tuple of
  interfering keys the reads and writes that a later instance has to depend on.  Nodes are
  values; \<^verbatim>\<open>get\<close> and the recursive methods return the updated tree.  The node locks
  make each call atomic.  \<^verbatim>\<open>keys[1:]\<close> of an empty slice panics, which is
  \<^term>\<open>None\<close>.
\<close>

section \<open>The tree\<close>

datatype dependencies = Deps
  (d_writes: InstanceIDSet) (d_reads: InstanceIDSet) (d_executed: InstanceIDSet)
  (d_acknowledged: InstanceIDSet) (d_sub: "(string \<times> dependencies) list")

type_synonym dependencyMap = "(string \<times> dependencies) list"

definition newDependencyMap :: dependencyMap where
  "newDependencyMap = []"

definition newDependencies :: dependencies where
  "newDependencies =
     Deps (NewSizedInstanceIDSet 0) (NewSizedInstanceIDSet 0) (NewSizedInstanceIDSet 0)
       (NewSizedInstanceIDSet 0) newDependencyMap"

definition dm_get :: "dependencyMap \<Rightarrow> string \<Rightarrow> dependencies \<times> dependencyMap" where
  "dm_get dm key =
     (case map_of dm key of
        Some deps \<Rightarrow> (deps, dm)
      | None \<Rightarrow> let deps = newDependencies in (deps, AList.update key deps dm))"

definition dm_all :: "dependencyMap \<Rightarrow> dependencies list" where
  "dm_all dm = (if length dm = 0 then [] else map snd dm)"

definition getLocalDeps :: "dependencies \<Rightarrow> Instance \<Rightarrow> InstanceIDSet" where
  "getLocalDeps d inst =
     (let deps = idset_Copy (d_writes d)
      in if \<not> ReadOnly inst then idset_Combine deps [d_reads d] else deps)"

fun getChildDeps :: "dependencies \<Rightarrow> Instance \<Rightarrow> InstanceIDSet" where
  "getChildDeps (Deps w r e a subs) inst =
     fold (\<lambda>p deps. idset_Combine deps [getChildDeps (snd p) inst]) subs
       (getLocalDeps (Deps w r e a subs) inst)"

text \<open>Identifiers that were both executed and acknowledged leave the node.\<close>

definition purge :: "dependencies \<Rightarrow> dependencies" where
  "purge d =
     (let exAcked = idset_Intersect (d_executed d) (d_acknowledged d)
      in Deps (idset_Subtract (d_writes d) exAcked) (idset_Subtract (d_reads d) exAcked)
           (idset_Subtract (d_executed d) exAcked) (idset_Subtract (d_acknowledged d) exAcked)
           (d_sub d))"

definition register :: "dependencies \<Rightarrow> Instance \<Rightarrow> dependencies" where
  "register d inst =
     (if ReadOnly inst
      then Deps (d_writes d) (idset_Add (d_reads d) [InstanceID inst]) (d_executed d)
             (d_acknowledged d) (d_sub d)
      else Deps (idset_Add (d_writes d) [InstanceID inst]) (d_reads d) (d_executed d)
             (d_acknowledged d) (d_sub d))"

definition set_sub :: "dependencies \<Rightarrow> string \<Rightarrow> dependencyMap \<Rightarrow> dependencies \<Rightarrow> dependencies" where
  "set_sub d key subs sub =
     Deps (d_writes d) (d_reads d) (d_executed d) (d_acknowledged d) (AList.update key sub subs)"

fun GetAndSetDeps ::
    "dependencies \<Rightarrow> string list \<Rightarrow> Instance \<Rightarrow> (dependencies \<times> InstanceIDSet) option" where
  "GetAndSetDeps d [] inst = None"
| "GetAndSetDeps d [key] inst =
     (let deps = fold (\<lambda>sub deps. idset_Combine deps [getChildDeps sub inst]) (dm_all (d_sub d))
                   (getLocalDeps d inst);
          d = purge (register d inst)
      in Some (d, idset_Remove deps [InstanceID inst]))"
| "GetAndSetDeps d (key # next # keys) inst =
     (let deps = getLocalDeps d inst in
      case dm_get (d_sub d) next of (sub, subs) \<Rightarrow>
      case GetAndSetDeps sub (next # keys) inst of
        None \<Rightarrow> None
      | Some (sub, subDeps) \<Rightarrow>
          Some (set_sub d next subs sub,
            idset_Remove (idset_Combine deps [subDeps]) [InstanceID inst]))"

fun ReportAcknowledged :: "dependencies \<Rightarrow> string list \<Rightarrow> Instance \<Rightarrow> dependencies option" where
  "ReportAcknowledged d [] inst = None"
| "ReportAcknowledged d [key] inst =
     (let containsInstance = idset_Contains (d_acknowledged d) (InstanceID inst);
          ack = idset_Add (d_acknowledged d) (Dependencies inst);
          ack = (if \<not> containsInstance then idset_Remove ack [InstanceID inst] else ack)
      in Some (Deps (d_writes d) (d_reads d) (d_executed d) ack (d_sub d)))"
| "ReportAcknowledged d (key # next # keys) inst =
     (case dm_get (d_sub d) next of (sub, subs) \<Rightarrow>
        map_option (set_sub d next subs) (ReportAcknowledged sub (next # keys) inst))"

text \<open>On longer keys the next two methods go on with \<^verbatim>\<open>ReportAcknowledged\<close>.\<close>

fun ReportExecuted :: "dependencies \<Rightarrow> string list \<Rightarrow> Instance \<Rightarrow> dependencies option" where
  "ReportExecuted d [] inst = None"
| "ReportExecuted d [key] inst =
     Some (Deps (d_writes d) (d_reads d) (idset_Add (d_executed d) [InstanceID inst])
       (d_acknowledged d) (d_sub d))"
| "ReportExecuted d (key # next # keys) inst =
     (case dm_get (d_sub d) next of (sub, subs) \<Rightarrow>
        map_option (set_sub d next subs) (ReportAcknowledged sub (next # keys) inst))"

fun AddDependency :: "dependencies \<Rightarrow> string list \<Rightarrow> Instance \<Rightarrow> dependencies option" where
  "AddDependency d [] inst = None"
| "AddDependency d [key] inst = Some (register d inst)"
| "AddDependency d (key # next # keys) inst =
     (case dm_get (d_sub d) next of (sub, subs) \<Rightarrow>
        map_option (set_sub d next subs) (ReportAcknowledged sub (next # keys) inst))"

section \<open>The dependency manager\<close>

text \<open>
  The root of the tree.  \<open>keys\<close> is the result of the store's \<^verbatim>\<open>InterferingKeys\<close>
  for the command of the instance.
\<close>

definition no_keys :: error where
  "no_keys = Errorf ''at least one interfering key required, none found''"

definition dm_GetAndSetDeps ::
    "dependencyMap \<Rightarrow> string list \<Rightarrow> Instance \<Rightarrow> dependencyMap \<times> (error + InstanceID list)" where
  "dm_GetAndSetDeps dm keys inst =
     (case keys of
        [] \<Rightarrow> (dm, Inl no_keys)
      | key # _ \<Rightarrow>
          (case dm_get dm key of (deps, dm) \<Rightarrow>
           case GetAndSetDeps deps keys inst of
             None \<Rightarrow> (dm, Inl no_keys)
           | Some (deps, ids) \<Rightarrow> (AList.update key deps dm, Inr (idset_List ids))))"

definition dm_update ::
    "(dependencies \<Rightarrow> string list \<Rightarrow> Instance \<Rightarrow> dependencies option) \<Rightarrow>
     dependencyMap \<Rightarrow> string list \<Rightarrow> Instance \<Rightarrow> dependencyMap \<times> error option" where
  "dm_update f dm keys inst =
     (case keys of
        [] \<Rightarrow> (dm, Some no_keys)
      | key # _ \<Rightarrow>
          (case dm_get dm key of (deps, dm) \<Rightarrow>
           case f deps keys inst of
             None \<Rightarrow> (dm, Some no_keys)
           | Some deps \<Rightarrow> (AList.update key deps dm, None)))"

definition dm_ReportAcknowledged ::
    "dependencyMap \<Rightarrow> string list \<Rightarrow> Instance \<Rightarrow> dependencyMap \<times> error option" where
  "dm_ReportAcknowledged = dm_update ReportAcknowledged"

definition dm_ReportExecuted ::
    "dependencyMap \<Rightarrow> string list \<Rightarrow> Instance \<Rightarrow> dependencyMap \<times> error option" where
  "dm_ReportExecuted = dm_update ReportExecuted"

definition dm_AddDependency ::
    "dependencyMap \<Rightarrow> string list \<Rightarrow> Instance \<Rightarrow> dependencyMap \<times> error option" where
  "dm_AddDependency = dm_update AddDependency"

text \<open>With at least one key the methods of the nodes do not panic.\<close>

lemma GetAndSetDeps_Some: "keys \<noteq> [] \<Longrightarrow> \<exists>d' deps. GetAndSetDeps d keys inst = Some (d', deps)"
proof (induction keys arbitrary: d rule: induct_list012)
  case (3 x y zs)
  obtain sub subs where "dm_get (d_sub d) y = (sub, subs)" by fastforce
  with 3(2) [of sub] show ?case by (auto simp: Let_def)
qed (simp_all add: Let_def)

lemma ReportAcknowledged_Some: "keys \<noteq> [] \<Longrightarrow> \<exists>d'. ReportAcknowledged d keys inst = Some d'"
proof (induction keys arbitrary: d rule: induct_list012)
  case (3 x y zs)
  obtain sub subs where "dm_get (d_sub d) y = (sub, subs)" by fastforce
  with 3(2) [of sub] show ?case by auto
qed (simp_all add: Let_def)

section \<open>The abstract view\<close>

text \<open>
  The node at a path, a fresh one where the tree has none, the identifiers an instance has to depend on there, and the
  well-formed trees, whose maps have no repeated keys.
\<close>

definition sub_at :: "dependencies \<Rightarrow> string \<Rightarrow> dependencies" where
  "sub_at d k = (case map_of (d_sub d) k of None \<Rightarrow> newDependencies | Some s \<Rightarrow> s)"

fun node_at :: "dependencies \<Rightarrow> string list \<Rightarrow> dependencies" where
  "node_at d [] = d"
| "node_at d (k # ks) = node_at (sub_at d k) ks"

definition local_ids :: "bool \<Rightarrow> dependencies \<Rightarrow> InstanceID set" where
  "local_ids ro d = set (d_writes d) \<union> (if ro then {} else set (d_reads d))"

definition ids_at :: "bool \<Rightarrow> dependencies \<Rightarrow> string list \<Rightarrow> InstanceID set" where
  "ids_at ro d p = local_ids ro (node_at d p)"

fun wf_deps :: "dependencies \<Rightarrow> bool" where
  "wf_deps (Deps w r e a subs) \<longleftrightarrow>
     distinct (map fst subs) \<and> (\<forall>p \<in> set subs. wf_deps (snd p))"

lemma wf_deps_alt:
  "wf_deps d \<longleftrightarrow> distinct (map fst (d_sub d)) \<and> (\<forall>p \<in> set (d_sub d). wf_deps (snd p))"
  by (cases d) simp

text \<open>Two tuples of keys interfere when one is a prefix of the other.\<close>

definition interfere :: "'a list \<Rightarrow> 'a list \<Rightarrow> bool" where
  "interfere p q \<longleftrightarrow> prefix p q \<or> prefix q p"

lemma interfere_simps [simp]:
  "interfere [] q" "interfere p []" "interfere (x # p) (y # q) \<longleftrightarrow> x = y \<and> interfere p q"
  by (auto simp: interfere_def)

lemma newDependencies_sel [simp]:
  "d_writes newDependencies = []" "d_reads newDependencies = []" "d_executed newDependencies = []"
  "d_acknowledged newDependencies = []" "d_sub newDependencies = []" "wf_deps newDependencies"
  by (simp_all add: newDependencies_def NewSizedInstanceIDSet_def newDependencyMap_def)

lemma set_getLocalDeps [simp]: "set (getLocalDeps d inst) = local_ids (ReadOnly inst) d"
  by (auto simp: getLocalDeps_def local_ids_def Let_def)

lemma fold_Combine:
  "set (fold (\<lambda>p deps. idset_Combine deps [f p]) ps deps) = set deps \<union> (\<Union>p \<in> set ps. set (f p))"
  by (induction ps arbitrary: deps) auto

lemma ids_at_Nil [simp]: "ids_at ro d [] = local_ids ro d"
  by (simp add: ids_at_def)

lemma ids_at_Cons:
  "ids_at ro d (k # p) = (case map_of (d_sub d) k of None \<Rightarrow> {} | Some s \<Rightarrow> ids_at ro s p)"
proof -
  have "local_ids ro (node_at newDependencies p) = {}"
    by (induction p) (simp_all add: sub_at_def local_ids_def)
  then show ?thesis by (simp add: ids_at_def sub_at_def split: option.splits)
qed

lemma Union_lists: "(\<Union>p. f p) = f [] \<union> (\<Union>k p. f (k # p))"
proof -
  have "x \<in> f [] \<union> (\<Union>k p. f (k # p))" if "x \<in> f p" for x p
    using that by (cases p) auto
  then show ?thesis by blast
qed

lemma Union_paths: "(\<Union>p. ids_at ro d p) = local_ids ro d \<union> (\<Union>k p. ids_at ro d (k # p))"
  using Union_lists [of "ids_at ro d"] by simp

lemma Union_sub:
  assumes "distinct (map fst (d_sub d))"
  shows "(\<Union>k p. ids_at ro d (k # p)) = (\<Union>s \<in> set (d_sub d). \<Union>p. ids_at ro (snd s) p)"
proof -
  have "ids_at ro d (k # p) = (\<Union>s \<in> {s. (k, s) \<in> set (d_sub d)}. ids_at ro s p)" for k p
    using map_of_eq_Some_iff [OF assms, of k]
    by (cases "map_of (d_sub d) k") (auto simp: ids_at_Cons simp flip: map_of_eq_Some_iff [OF assms])
  then show ?thesis by force
qed

lemma set_getChildDeps:
  "wf_deps d \<Longrightarrow> set (getChildDeps d inst) = (\<Union>p. ids_at (ReadOnly inst) d p)"
proof (induction d)
  case (Deps w r e a subs)
  let ?d = "Deps w r e a subs"
  have "set (getChildDeps (snd s) inst) = (\<Union>p. ids_at (ReadOnly inst) (snd s) p)"
    if "s \<in> set subs" for s
    using that Deps.prems by (intro Deps.IH [of s]) (auto simp: snds.simps)
  then have "set (getChildDeps ?d inst) =
      local_ids (ReadOnly inst) ?d \<union> (\<Union>s \<in> set subs. \<Union>p. ids_at (ReadOnly inst) (snd s) p)"
    by (simp add: fold_Combine)
  then show ?case using Union_sub [of ?d] Deps.prems by (simp add: Union_paths)
qed

section \<open>The operations on the abstract view\<close>

text \<open>Replacing the node at a path.\<close>

fun upd_at :: "(dependencies \<Rightarrow> dependencies) \<Rightarrow> dependencies \<Rightarrow> string list \<Rightarrow> dependencies" where
  "upd_at f d [] = f d"
| "upd_at f d (k # ks) = set_sub d k (snd (dm_get (d_sub d) k)) (upd_at f (sub_at d k) ks)"

text \<open>A node without its children, and the updates that leave the children alone.\<close>

definition strip :: "dependencies \<Rightarrow> dependencies" where
  "strip d = Deps (d_writes d) (d_reads d) (d_executed d) (d_acknowledged d) []"

definition keeps_sub :: "(dependencies \<Rightarrow> dependencies) \<Rightarrow> bool" where
  "keeps_sub f \<longleftrightarrow> (\<forall>d. d_sub (f d) = d_sub d)"

definition acknowledge :: "Instance \<Rightarrow> dependencies \<Rightarrow> dependencies" where
  "acknowledge inst d = the (ReportAcknowledged d [''''] inst)"

lemma fst_dm_get [simp]: "fst (dm_get (d_sub d) k) = sub_at d k"
  by (simp add: dm_get_def sub_at_def Let_def split: option.splits)

lemma sub_at_set_sub [simp]:
  "sub_at (set_sub d k (snd (dm_get (d_sub d) k)) s) k' = (if k' = k then s else sub_at d k')"
  by (simp add: set_sub_def sub_at_def dm_get_def update_conv Let_def split: option.splits)

lemma set_sub_sel [simp]:
  "d_writes (set_sub d k ss s) = d_writes d" "d_reads (set_sub d k ss s) = d_reads d"
  "d_executed (set_sub d k ss s) = d_executed d" "d_acknowledged (set_sub d k ss s) = d_acknowledged d"
  "strip (set_sub d k ss s) = strip d"
  by (simp_all add: set_sub_def strip_def)

lemma local_ids_strip: "strip d = strip d' \<Longrightarrow> local_ids ro d = local_ids ro d'"
  by (simp add: strip_def local_ids_def)

lemma keeps_sub_ops [simp]:
  "keeps_sub (\<lambda>d. register d inst)" "keeps_sub purge" "keeps_sub (\<lambda>d. purge (register d inst))"
  "keeps_sub (acknowledge inst)"
  by (simp_all add: keeps_sub_def register_def purge_def acknowledge_def Let_def)

lemma strip_upd_at:
  assumes f: "keeps_sub f"
  shows "strip (node_at (upd_at f d ks) p) = (if p = ks then strip (f (node_at d ks)) else strip (node_at d p))"
proof (induction ks arbitrary: d p)
  case Nil
  have "sub_at (f d) k = sub_at d k" for k using f by (simp add: sub_at_def keeps_sub_def)
  then show ?case by (cases p) simp_all
next
  case (Cons k ks)
  then show ?case by (cases p) auto
qed

lemma ids_at_upd_at:
  assumes "keeps_sub f"
  shows "ids_at ro (upd_at f d ks) p = (if p = ks then local_ids ro (f (node_at d ks)) else ids_at ro d p)"
  using local_ids_strip [OF strip_upd_at [OF assms, of d ks p, simplified if_distrib [of strip, symmetric]]]
  by (simp add: ids_at_def)

lemma wf_sub_at: "wf_deps d \<Longrightarrow> wf_deps (sub_at d k)"
  by (auto simp: sub_at_def wf_deps_alt [of d] split: option.splits dest: map_of_SomeD)

lemma set_AList_update: "set (AList.update k v al) \<subseteq> insert (k, v) (set al)"
  by (induction al) auto

lemma wf_AList_update:
  assumes "distinct (map fst al)" and "\<forall>p \<in> set al. wf_deps (snd p)" and "wf_deps s"
  shows "distinct (map fst (AList.update k s al)) \<and> (\<forall>p \<in> set (AList.update k s al). wf_deps (snd p))"
  using assms set_AList_update [of k s al] by (auto simp: distinct_update)

lemma wf_set_sub:
  assumes "wf_deps d" and "wf_deps s"
  shows "wf_deps (set_sub d k (snd (dm_get (d_sub d) k)) s)"
proof -
  have "distinct (map fst (snd (dm_get (d_sub d) k))) \<and> (\<forall>p \<in> set (snd (dm_get (d_sub d) k)). wf_deps (snd p))"
    using assms(1) wf_AList_update [of "d_sub d" newDependencies k]
    by (auto simp: dm_get_def Let_def wf_deps_alt [of d] split: option.splits)
  then have "distinct (map fst (AList.update k s (snd (dm_get (d_sub d) k)))) \<and>
      (\<forall>p \<in> set (AList.update k s (snd (dm_get (d_sub d) k))). wf_deps (snd p))"
    by (intro wf_AList_update) (use assms(2) in simp_all)
  then show ?thesis by (simp add: set_sub_def)
qed

lemma wf_upd_at:
  assumes f: "keeps_sub f"
  shows "wf_deps d \<Longrightarrow> wf_deps (upd_at f d ks)"
proof (induction ks arbitrary: d)
  case Nil
  then show ?case using f by (simp add: wf_deps_alt [of d] wf_deps_alt [of "f d"] keeps_sub_def)
qed (simp add: wf_set_sub wf_sub_at)

lemma ReportAcknowledged_upd:
  "ReportAcknowledged d (k # ks) inst = Some (upd_at (acknowledge inst) d ks)"
proof (induction ks arbitrary: d k)
  case (Cons k' ks)
  then show ?case
    by (cases "dm_get (d_sub d) k'") (use fst_dm_get [of d k'] in auto)
qed (simp add: acknowledge_def Let_def)

lemma ReportExecuted_upd:
  "ReportExecuted d (k # ks) inst = Some (upd_at
     (if ks = [] then \<lambda>d. Deps (d_writes d) (d_reads d) (idset_Add (d_executed d) [InstanceID inst])
         (d_acknowledged d) (d_sub d) else acknowledge inst) d ks)"
  by (cases ks; cases "dm_get (d_sub d) (hd ks)")
    (use fst_dm_get [of d "hd ks"] in \<open>auto simp: ReportAcknowledged_upd\<close>)

lemma AddDependency_upd:
  "AddDependency d (k # ks) inst =
     Some (upd_at (if ks = [] then \<lambda>d. register d inst else acknowledge inst) d ks)"
  by (cases ks; cases "dm_get (d_sub d) (hd ks)")
    (use fst_dm_get [of d "hd ks"] in \<open>auto simp: ReportAcknowledged_upd\<close>)

text \<open>The dependencies of an instance: everything registered under an interfering path.\<close>

definition interfering_ids :: "bool \<Rightarrow> dependencies \<Rightarrow> string list \<Rightarrow> InstanceID set" where
  "interfering_ids ro d ks = (\<Union>p \<in> {p. interfere p ks}. ids_at ro d p)"

lemma interfering_ids_Cons:
  "interfering_ids ro d (k # ks) = local_ids ro d \<union> interfering_ids ro (sub_at d k) ks"
proof -
  have "{p. interfere p (k # ks)} = insert [] (Cons k ` {p. interfere p ks})"
  proof (rule set_eqI)
    fix p show "p \<in> {p. interfere p (k # ks)} \<longleftrightarrow> p \<in> insert [] (Cons k ` {p. interfere p ks})"
      by (cases p) auto
  qed
  then show ?thesis by (simp add: interfering_ids_def ids_at_def)
qed

lemma GetAndSetDeps_upd:
  assumes "wf_deps d"
  shows "\<exists>deps. GetAndSetDeps d (k # ks) inst = Some (upd_at (\<lambda>d. purge (register d inst)) d ks, deps) \<and>
    set deps = interfering_ids (ReadOnly inst) d ks - {InstanceID inst}"
  using assms
proof (induction ks arbitrary: d k)
  case Nil
  have "set (getChildDeps s inst) = (\<Union>p. ids_at (ReadOnly inst) s p)" if "s \<in> snd ` set (d_sub d)" for s
    using that Nil by (intro set_getChildDeps) (auto simp: wf_deps_alt [of d])
  moreover have "set (dm_all (d_sub d)) = snd ` set (d_sub d)" by (simp add: dm_all_def)
  ultimately have "set (fold (\<lambda>sub deps. idset_Combine deps [getChildDeps sub inst]) (dm_all (d_sub d))
      (getLocalDeps d inst)) = (\<Union>p. ids_at (ReadOnly inst) d p)"
    using Nil Union_sub [of d] by (simp add: fold_Combine Union_paths wf_deps_alt [of d])
  then show ?case by (auto simp: Let_def interfering_ids_def)
next
  case (Cons k' ks)
  from Cons.IH [OF wf_sub_at [OF Cons.prems], of k' k'] obtain deps where
    "GetAndSetDeps (sub_at d k') (k' # ks) inst =
       Some (upd_at (\<lambda>d. purge (register d inst)) (sub_at d k') ks, deps)"
    "set deps = interfering_ids (ReadOnly inst) (sub_at d k') ks - {InstanceID inst}" by blast
  then show ?case
    using fst_dm_get [of d k']
    by (cases "dm_get (d_sub d) k'") (auto simp: Let_def interfering_ids_Cons)
qed

section \<open>The dependency manager as the root of the tree\<close>

definition root :: "dependencyMap \<Rightarrow> dependencies" where
  "root dm = Deps [] [] [] [] dm"

definition dm_wf :: "dependencyMap \<Rightarrow> bool" where
  "dm_wf dm \<longleftrightarrow> wf_deps (root dm)"

lemma root_sel [simp]: "d_sub (root dm) = dm" "local_ids ro (root dm) = {}"
  by (simp_all add: root_def local_ids_def)

lemma dm_wf_new [simp]: "dm_wf newDependencyMap"
  by (simp add: dm_wf_def root_def newDependencyMap_def)

lemma set_sub_root [simp]: "set_sub (root dm) k ss s = root (AList.update k s ss)"
  by (simp add: root_def set_sub_def)

lemma dm_update_upd:
  assumes "f (sub_at (root dm) k) (k # ks) inst = Some (upd_at h (sub_at (root dm) k) ks)"
  shows "\<exists>dm'. dm_update f dm (k # ks) inst = (dm', None) \<and> root dm' = upd_at h (root dm) (k # ks)"
proof (cases "dm_get dm k")
  case (Pair s dm')
  then have "s = sub_at (root dm) k" using fst_dm_get [of "root dm" k] by simp
  then show ?thesis using assms Pair by (simp add: dm_update_def)
qed

lemma dm_GetAndSetDeps_upd:
  assumes "dm_wf dm"
  shows "\<exists>dm' ids. dm_GetAndSetDeps dm (k # ks) inst = (dm', Inr ids) \<and>
    root dm' = upd_at (\<lambda>d. purge (register d inst)) (root dm) (k # ks) \<and>
    set ids = interfering_ids (ReadOnly inst) (root dm) (k # ks) - {InstanceID inst}"
proof (cases "dm_get dm k")
  case (Pair s dm')
  then have s: "s = sub_at (root dm) k" using fst_dm_get [of "root dm" k] by simp
  have "wf_deps s" using assms wf_sub_at by (simp add: s dm_wf_def)
  from GetAndSetDeps_upd [OF this, of k ks inst] Pair show ?thesis
    by (auto simp: dm_GetAndSetDeps_def s interfering_ids_Cons [of _ "root dm"])
qed

text \<open>Sequences of calls of the dependency manager.\<close>

datatype dm_call =
    CallGetAndSet "string list" Instance
  | CallAcknowledged "string list" Instance
  | CallExecuted "string list" Instance
  | CallAdd "string list" Instance

fun dm_run :: "dm_call \<Rightarrow> dependencyMap \<Rightarrow> dependencyMap" where
  "dm_run (CallGetAndSet keys inst) dm = fst (dm_GetAndSetDeps dm keys inst)"
| "dm_run (CallAcknowledged keys inst) dm = fst (dm_ReportAcknowledged dm keys inst)"
| "dm_run (CallExecuted keys inst) dm = fst (dm_ReportExecuted dm keys inst)"
| "dm_run (CallAdd keys inst) dm = fst (dm_AddDependency dm keys inst)"

text \<open>Every call either has no keys and does nothing, or updates the node at its keys.\<close>

fun call_effect :: "dm_call \<Rightarrow> dependencies \<Rightarrow> dependencies" where
  "call_effect (CallGetAndSet keys inst) d = purge (register d inst)"
| "call_effect (CallAcknowledged keys inst) d = acknowledge inst d"
| "call_effect (CallExecuted keys inst) d =
     (if length keys = 1 then Deps (d_writes d) (d_reads d) (idset_Add (d_executed d) [InstanceID inst])
        (d_acknowledged d) (d_sub d) else acknowledge inst d)"
| "call_effect (CallAdd keys inst) d = (if length keys = 1 then register d inst else acknowledge inst d)"

fun call_keys :: "dm_call \<Rightarrow> string list" where
  "call_keys (CallGetAndSet keys inst) = keys"
| "call_keys (CallAcknowledged keys inst) = keys"
| "call_keys (CallExecuted keys inst) = keys"
| "call_keys (CallAdd keys inst) = keys"

lemma keeps_sub_call [simp]: "keeps_sub (call_effect c)"
  by (cases c) (auto simp: keeps_sub_def register_def purge_def acknowledge_def Let_def)

lemma call_effect_fun:
  "call_effect (CallGetAndSet keys inst) = (\<lambda>d. purge (register d inst))"
  "call_effect (CallAcknowledged keys inst) = acknowledge inst"
  "call_effect (CallExecuted [k] inst) = (\<lambda>d. Deps (d_writes d) (d_reads d)
     (idset_Add (d_executed d) [InstanceID inst]) (d_acknowledged d) (d_sub d))"
  "call_effect (CallExecuted (k # k' # ks) inst) = acknowledge inst"
  "call_effect (CallAdd [k] inst) = (\<lambda>d. register d inst)"
  "call_effect (CallAdd (k # k' # ks) inst) = acknowledge inst"
  by (simp_all add: fun_eq_iff)

lemma dm_ReportAcknowledged_upd:
  "\<exists>dm'. dm_ReportAcknowledged dm (k # ks) inst = (dm', None) \<and>
     root dm' = upd_at (acknowledge inst) (root dm) (k # ks)"
  unfolding dm_ReportAcknowledged_def by (rule dm_update_upd) (rule ReportAcknowledged_upd)

lemma dm_ReportExecuted_upd:
  "\<exists>dm'. dm_ReportExecuted dm (k # ks) inst = (dm', None) \<and>
     root dm' = upd_at (call_effect (CallExecuted (k # ks) inst)) (root dm) (k # ks)"
  unfolding dm_ReportExecuted_def
  by (rule dm_update_upd) (cases ks; simp add: ReportExecuted_upd call_effect_fun del: upd_at.simps)

lemma dm_AddDependency_upd:
  "\<exists>dm'. dm_AddDependency dm (k # ks) inst = (dm', None) \<and>
     root dm' = upd_at (call_effect (CallAdd (k # ks) inst)) (root dm) (k # ks)"
  unfolding dm_AddDependency_def
  by (rule dm_update_upd) (cases ks; simp add: AddDependency_upd call_effect_fun del: upd_at.simps)

lemma dm_run_upd:
  assumes "dm_wf dm"
  shows "root (dm_run c dm) =
    (if call_keys c = [] then root dm else upd_at (call_effect c) (root dm) (call_keys c))"
proof (cases "call_keys c")
  case Nil
  then show ?thesis
    by (cases c) (simp_all add: dm_GetAndSetDeps_def dm_ReportAcknowledged_def dm_ReportExecuted_def
        dm_AddDependency_def dm_update_def)
next
  case keys: (Cons k ks)
  have "root (dm_run c dm) = upd_at (call_effect c) (root dm) (k # ks)"
  proof (cases c)
    case c: (CallGetAndSet ks' inst)
    then have "dm_run c dm = fst (dm_GetAndSetDeps dm (k # ks) inst)" using keys by simp
    moreover obtain dm' ids where "dm_GetAndSetDeps dm (k # ks) inst = (dm', Inr ids)"
      "root dm' = upd_at (call_effect c) (root dm) (k # ks)"
      using dm_GetAndSetDeps_upd [OF assms, of k ks inst] unfolding c call_effect_fun(1) by blast
    ultimately show ?thesis by (simp only: fst_conv)
  next
    case c: (CallAcknowledged ks' inst)
    then have "dm_run c dm = fst (dm_ReportAcknowledged dm (k # ks) inst)" using keys by simp
    moreover obtain dm' where "dm_ReportAcknowledged dm (k # ks) inst = (dm', None)"
      "root dm' = upd_at (call_effect c) (root dm) (k # ks)"
      using dm_ReportAcknowledged_upd [of dm k ks inst] unfolding c call_effect_fun(2) by blast
    ultimately show ?thesis by (simp only: fst_conv)
  next
    case (CallExecuted ks' inst)
    then have c: "c = CallExecuted (k # ks) inst" using keys by simp
    obtain dm' where "dm_ReportExecuted dm (k # ks) inst = (dm', None)"
      "root dm' = upd_at (call_effect c) (root dm) (k # ks)"
      using dm_ReportExecuted_upd [of dm k ks inst] unfolding c by blast
    then show ?thesis by (simp only: c dm_run.simps fst_conv)
  next
    case (CallAdd ks' inst)
    then have c: "c = CallAdd (k # ks) inst" using keys by simp
    obtain dm' where "dm_AddDependency dm (k # ks) inst = (dm', None)"
      "root dm' = upd_at (call_effect c) (root dm) (k # ks)"
      using dm_AddDependency_upd [of dm k ks inst] unfolding c by blast
    then show ?thesis by (simp only: c dm_run.simps fst_conv)
  qed
  then show ?thesis by (simp add: keys del: upd_at.simps)
qed

lemma dm_wf_run: "dm_wf dm \<Longrightarrow> dm_wf (dm_run c dm)"
  using wf_upd_at [OF keeps_sub_call, of "root dm" c "call_keys c"]
  by (simp add: dm_wf_def dm_run_upd)

text \<open>
  An identifier is tracked at a node while it is registered there and has not been reported
  as executed; only a report of its own execution ends that.
\<close>

definition tracked :: "bool \<Rightarrow> InstanceID \<Rightarrow> dependencies \<Rightarrow> bool" where
  "tracked ro iid d \<longleftrightarrow> iid \<in> local_ids ro d \<and> iid \<notin> set (d_executed d)"

lemma tracked_strip: "strip d = strip d' \<Longrightarrow> tracked ro iid d = tracked ro iid d'"
  by (simp add: tracked_def strip_def local_ids_def)

lemma tracked_upd_at:
  assumes "keeps_sub f"
  shows "tracked ro iid (node_at (upd_at f d ks) p) =
    tracked ro iid (if p = ks then f (node_at d ks) else node_at d p)"
  by (rule tracked_strip) (simp add: strip_upd_at [OF assms])

lemma local_ids_purge_register:
  "local_ids ro (purge (register d inst)) =
     local_ids ro d \<union> (if ro \<and> ReadOnly inst then {} else {InstanceID inst}) -
     set (d_executed d) \<inter> set (d_acknowledged d)"
  by (auto simp: local_ids_def purge_def register_def Let_def)

lemma tracked_effect:
  assumes "tracked ro iid d" and "\<forall>keys inst. c = CallExecuted keys inst \<longrightarrow> InstanceID inst \<noteq> iid"
  shows "tracked ro iid (call_effect c d)"
  using assms
  by (cases c) (auto simp: tracked_def local_ids_def register_def purge_def acknowledge_def Let_def
      split: if_splits)

lemma tracked_call:
  assumes "dm_wf dm" and "tracked ro iid (node_at (root dm) p)"
    and "\<forall>keys inst. c = CallExecuted keys inst \<longrightarrow> InstanceID inst \<noteq> iid"
  shows "tracked ro iid (node_at (root (dm_run c dm)) p)"
proof (cases "call_keys c = []")
  case False
  have "tracked ro iid (call_effect c (node_at (root dm) p))"
    using tracked_effect assms(2,3) by blast
  then show ?thesis
    using assms(2) False by (cases "p = call_keys c") (simp_all add: dm_run_upd [OF assms(1)] tracked_upd_at)
qed (use assms(2) in \<open>simp add: dm_run_upd [OF assms(1)]\<close>)

lemma tracked_calls:
  assumes "dm_wf dm" and "tracked ro iid (node_at (root dm) p)"
    and "\<forall>keys inst. CallExecuted keys inst \<in> set cs \<longrightarrow> InstanceID inst \<noteq> iid"
  shows "dm_wf (fold dm_run cs dm) \<and> tracked ro iid (node_at (root (fold dm_run cs dm)) p)"
  using assms
proof (induction cs arbitrary: dm)
  case (Cons c cs)
  have "\<forall>keys inst. c = CallExecuted keys inst \<longrightarrow> InstanceID inst \<noteq> iid"
    using Cons.prems(3) by auto
  with Cons show ?case using dm_wf_run tracked_call by simp
qed simp

section \<open>Properties\<close>


definition ex_inst :: "nat \<Rightarrow> Instance" where
  "ex_inst n = zero_Instance\<lparr>InstanceID := \<lparr>b0 = 0, b1 = of_nat n\<rparr>\<rparr>"




text \<open>
  On keys with more than one component, adding a missing instance registers nothing
  anywhere in the tree, and reporting an execution marks nothing as executed, because both
  go on with \<^verbatim>\<open>ReportAcknowledged\<close> below the first key.
\<close>

theorem nested_reports_lost:
  assumes "dm_wf dm" and "2 \<le> length keys"
  shows "\<exists>dm' dm''. dm_AddDependency dm keys inst = (dm', None) \<and>
    (\<forall>ro p. ids_at ro (root dm') p = ids_at ro (root dm) p) \<and>
    dm_ReportExecuted dm keys inst = (dm'', None) \<and>
    (\<forall>p. d_executed (node_at (root dm'') p) = d_executed (node_at (root dm) p))"
proof -
  obtain k k' ks where keys: "keys = k # k' # ks"
    using assms(2) by (metis Suc_le_length_iff numeral_2_eq_2)
  have ack: "d_executed (acknowledge inst d) = d_executed d" "local_ids ro (acknowledge inst d) = local_ids ro d"
    for ro d by (simp_all add: acknowledge_def local_ids_def Let_def)
  obtain dm' where dm': "dm_AddDependency dm keys inst = (dm', None)"
      "root dm' = upd_at (acknowledge inst) (root dm) keys"
    using dm_AddDependency_upd [of dm k "k' # ks" inst] unfolding keys call_effect_fun by blast
  obtain dm'' where dm'': "dm_ReportExecuted dm keys inst = (dm'', None)"
      "root dm'' = upd_at (acknowledge inst) (root dm) keys"
    using dm_ReportExecuted_upd [of dm k "k' # ks" inst] unfolding keys call_effect_fun by blast
  have "d_executed (node_at (root dm'') p) = d_executed (node_at (root dm) p)" for p
    using arg_cong [OF strip_upd_at [OF keeps_sub_ops(4), of inst "root dm" keys p], of d_executed]
    by (auto simp: dm''(2) strip_def ack split: if_splits)
  moreover have "ids_at ro (root dm') p = ids_at ro (root dm) p" for ro p
    by (simp add: dm'(2) ids_at_upd_at ack) (simp add: ids_at_def)
  ultimately show ?thesis using dm'(1) dm''(1) by blast
qed

theorem nested_reports_lost_witness:
  "\<exists>dm'. dm_AddDependency newDependencyMap [''a'', ''b''] (ex_inst 1) = (dm', None) \<and>
     (\<forall>ro p. ids_at ro (root dm') p = ids_at ro (root newDependencyMap) p)"
  using nested_reports_lost [of newDependencyMap "[''a'', ''b'']" "ex_inst 1"] by auto

end
