(* ===== verification/Messages.thy ===== *)
theory Messages
  imports Instance
begin

text \<open>
  The message framing (\<^verbatim>\<open>message/io.go\<close>) over a registry of message types, and the
  messages of the consensus protocol (\<^verbatim>\<open>consensus/message.go\<close>) with their wire form.
\<close>

section \<open>Framing\<close>

text \<open>
  \<open>mtype\<close> and \<open>ser\<close> are the \<^verbatim>\<open>GetType\<close> and \<^verbatim>\<open>Serialize\<close> methods of
  the message; \<open>constructors\<close> is the registry filled by \<^verbatim>\<open>RegisterMessage\<close>, which
  maps a type number to the \<^verbatim>\<open>Deserialize\<close> method of an empty message.
\<close>

definition RegisterMessage ::
    "(32 word \<Rightarrow> 'm reader option) \<Rightarrow> 32 word \<Rightarrow> 'm reader \<Rightarrow> (32 word \<Rightarrow> 'm reader option)" where
  "RegisterMessage constructors mtype deser = constructors(mtype \<mapsto> deser)"

definition WriteMessage :: "('m \<Rightarrow> 32 word) \<Rightarrow> ('m \<Rightarrow> bytes) \<Rightarrow> 'm \<Rightarrow> bytes" where
  "WriteMessage mtype ser m = put_uint32 (mtype m) @ ser m"

definition ReadMessage :: "(32 word \<Rightarrow> 'm reader option) \<Rightarrow> 'm reader" where
  "ReadMessage constructors =
     rbind read_uint32 (\<lambda>mtype.
       case constructors mtype of
         None \<Rightarrow> rfail (Errorf ''Unknown message type: %v'')
       | Some deser \<Rightarrow> deser)"

text \<open>
  The contract of a family of messages: every message is registered under its type, and its
  decoder inverts its encoder.
\<close>

locale message_family =
  fixes mtype :: "'m \<Rightarrow> 32 word"
    and ser :: "'m \<Rightarrow> bytes"
    and constructors :: "32 word \<Rightarrow> 'm reader option"
    and nbytes :: "'m \<Rightarrow> nat"
    and ok :: "'m \<Rightarrow> bool"
  assumes registered: "ok m \<Longrightarrow> \<exists>deser. constructors (mtype m) = Some deser \<and>
      (\<forall>rest. deser (ser m @ rest) = Inr (m, rest))"
    and size: "ok m \<Longrightarrow> length (ser m) = nbytes m"
begin

lemma read_written: "ok m \<Longrightarrow> ReadMessage constructors (WriteMessage mtype ser m @ rest) = Inr (m, rest)"
  using registered [of m] by (auto simp: ReadMessage_def WriteMessage_def codec_simps)

lemma written_size: "ok m \<Longrightarrow> length (WriteMessage mtype ser m) = 4 + nbytes m"
  by (simp add: WriteMessage_def size)

sublocale framed: codec "WriteMessage mtype ser" "ReadMessage constructors" "\<lambda>m. 4 + nbytes m" ok
  by unfold_locales (simp_all add: read_written written_size)

end

section \<open>Consensus messages\<close>

definition MESSAGE_PREACCEPT_REQUEST :: "32 word" where "MESSAGE_PREACCEPT_REQUEST = 1001"
definition MESSAGE_PREACCEPT_RESPONSE :: "32 word" where "MESSAGE_PREACCEPT_RESPONSE = 1002"
definition MESSAGE_ACCEPT_REQUEST :: "32 word" where "MESSAGE_ACCEPT_REQUEST = 1003"
definition MESSAGE_ACCEPT_RESPONSE :: "32 word" where "MESSAGE_ACCEPT_RESPONSE = 1004"
definition MESSAGE_COMMIT_REQUEST :: "32 word" where "MESSAGE_COMMIT_REQUEST = 1005"
definition MESSAGE_COMMIT_RESPONSE :: "32 word" where "MESSAGE_COMMIT_RESPONSE = 1006"
definition MESSAGE_PREPARE_REQUEST :: "32 word" where "MESSAGE_PREPARE_REQUEST = 1007"
definition MESSAGE_PREPARE_RESPONSE :: "32 word" where "MESSAGE_PREPARE_RESPONSE = 1008"
definition MESSAGE_PREPARE_SUCCESSOR_REQUEST :: "32 word" where
  "MESSAGE_PREPARE_SUCCESSOR_REQUEST = 1009"
definition MESSAGE_PREPARE_SUCCESSOR_RESPONSE :: "32 word" where
  "MESSAGE_PREPARE_SUCCESSOR_RESPONSE = 1010"
definition MESSAGE_INSTANCE_REQUEST :: "32 word" where "MESSAGE_INSTANCE_REQUEST = 1011"
definition MESSAGE_INSTANCE_RESPONSE :: "32 word" where "MESSAGE_INSTANCE_RESPONSE = 1012"

lemmas message_type_defs =
  MESSAGE_PREACCEPT_REQUEST_def MESSAGE_PREACCEPT_RESPONSE_def MESSAGE_ACCEPT_REQUEST_def
  MESSAGE_ACCEPT_RESPONSE_def MESSAGE_COMMIT_REQUEST_def MESSAGE_COMMIT_RESPONSE_def
  MESSAGE_PREPARE_REQUEST_def MESSAGE_PREPARE_RESPONSE_def MESSAGE_PREPARE_SUCCESSOR_REQUEST_def
  MESSAGE_PREPARE_SUCCESSOR_RESPONSE_def MESSAGE_INSTANCE_REQUEST_def MESSAGE_INSTANCE_RESPONSE_def

record PreAcceptResponse =
  pa_Accepted :: bool
  pa_MaxBallot :: "32 word"
  pa_Instance :: Instance
  pa_MissingInstances :: "Instance list"

record AcceptResponse =
  a_Accepted :: bool
  a_MaxBallot :: "32 word"

record PrepareResponse =
  p_Accepted :: bool
  p_Instance :: "Instance option"

datatype consensus_msg =
    PreAcceptRequest Instance
  | PreAcceptResp PreAcceptResponse
  | AcceptRequest Instance "Instance list"
  | AcceptResp AcceptResponse
  | CommitRequest Instance
  | CommitResponse
  | PrepareRequest "32 word" InstanceID
  | PrepareResp PrepareResponse
  | PrepareSuccessorRequest InstanceID
  | PrepareSuccessorResponse "Instance option"
  | InstanceRequest "InstanceID list"
  | InstanceResponse "Instance list"

fun GetType :: "consensus_msg \<Rightarrow> 32 word" where
  "GetType (PreAcceptRequest _) = MESSAGE_PREACCEPT_REQUEST"
| "GetType (PreAcceptResp _) = MESSAGE_PREACCEPT_RESPONSE"
| "GetType (AcceptRequest _ _) = MESSAGE_ACCEPT_REQUEST"
| "GetType (AcceptResp _) = MESSAGE_ACCEPT_RESPONSE"
| "GetType (CommitRequest _) = MESSAGE_COMMIT_REQUEST"
| "GetType CommitResponse = MESSAGE_COMMIT_RESPONSE"
| "GetType (PrepareRequest _ _) = MESSAGE_PREPARE_REQUEST"
| "GetType (PrepareResp _) = MESSAGE_PREPARE_RESPONSE"
| "GetType (PrepareSuccessorRequest _) = MESSAGE_PREPARE_SUCCESSOR_REQUEST"
| "GetType (PrepareSuccessorResponse _) = MESSAGE_PREPARE_SUCCESSOR_RESPONSE"
| "GetType (InstanceRequest _) = MESSAGE_INSTANCE_REQUEST"
| "GetType (InstanceResponse _) = MESSAGE_INSTANCE_RESPONSE"

text \<open>A list of instances with its length, and a pointer that may be nil.\<close>

definition write_instances :: "Instance list \<Rightarrow> bytes" where
  "write_instances is = put_uint32 (len32 is) @ concat (map SerializeLimited is)"

definition read_instances :: "Instance list reader" where
  "read_instances =
     rbind read_uint32 (\<lambda>numInst. read_n (unat numInst) (DeserializeLimited zero_Instance))"

definition write_nilable :: "Instance option \<Rightarrow> bytes" where
  "write_nilable i =
     bool_byte (i = None) # (case i of None \<Rightarrow> [] | Some inst \<Rightarrow> SerializeLimited inst)"

definition read_nilable :: "Instance option reader" where
  "read_nilable =
     rbind read_bool (\<lambda>isNil.
       if \<not> isNil then rbind (DeserializeLimited zero_Instance) (\<lambda>i. rreturn (Some i))
       else rreturn None)"

definition PreAcceptRequest_Serialize :: "Instance \<Rightarrow> bytes" where
  "PreAcceptRequest_Serialize i = SerializeLimited i"

definition PreAcceptResponse_Serialize :: "PreAcceptResponse \<Rightarrow> bytes" where
  "PreAcceptResponse_Serialize r = bool_byte (pa_Accepted r) # put_uint32 (pa_MaxBallot r) @ SerializeLimited (pa_Instance r) @
     write_instances (pa_MissingInstances r)"

definition AcceptRequest_Serialize :: "Instance \<Rightarrow> Instance list \<Rightarrow> bytes" where
  "AcceptRequest_Serialize i missing = SerializeLimited i @ write_instances missing"

definition AcceptResponse_Serialize :: "AcceptResponse \<Rightarrow> bytes" where
  "AcceptResponse_Serialize r = bool_byte (a_Accepted r) # put_uint32 (a_MaxBallot r)"

definition CommitRequest_Serialize :: "Instance \<Rightarrow> bytes" where
  "CommitRequest_Serialize i = SerializeLimited i"

definition CommitResponse_Serialize :: bytes where
  "CommitResponse_Serialize = []"

definition PrepareRequest_Serialize :: "32 word \<Rightarrow> InstanceID \<Rightarrow> bytes" where
  "PrepareRequest_Serialize ballot iid = put_uint32 ballot @ WriteBuffer iid"

definition PrepareResponse_Serialize :: "PrepareResponse \<Rightarrow> bytes" where
  "PrepareResponse_Serialize r = bool_byte (p_Accepted r) # write_nilable (p_Instance r)"

definition PrepareSuccessorRequest_Serialize :: "InstanceID \<Rightarrow> bytes" where
  "PrepareSuccessorRequest_Serialize iid = WriteBuffer iid"

definition PrepareSuccessorResponse_Serialize :: "Instance option \<Rightarrow> bytes" where
  "PrepareSuccessorResponse_Serialize i = write_nilable i"

definition InstanceRequest_Serialize :: "InstanceID list \<Rightarrow> bytes" where
  "InstanceRequest_Serialize iids = put_uint32 (len32 iids) @ concat (map WriteBuffer iids)"

definition InstanceResponse_Serialize :: "Instance list \<Rightarrow> bytes" where
  "InstanceResponse_Serialize is = write_instances is"

fun consensus_Serialize :: "consensus_msg \<Rightarrow> bytes" where
  "consensus_Serialize (PreAcceptRequest i) = PreAcceptRequest_Serialize i"
| "consensus_Serialize (PreAcceptResp r) = PreAcceptResponse_Serialize r"
| "consensus_Serialize (AcceptRequest i missing) = AcceptRequest_Serialize i missing"
| "consensus_Serialize (AcceptResp r) = AcceptResponse_Serialize r"
| "consensus_Serialize (CommitRequest i) = CommitRequest_Serialize i"
| "consensus_Serialize CommitResponse = CommitResponse_Serialize"
| "consensus_Serialize (PrepareRequest ballot iid) = PrepareRequest_Serialize ballot iid"
| "consensus_Serialize (PrepareResp r) = PrepareResponse_Serialize r"
| "consensus_Serialize (PrepareSuccessorRequest iid) = PrepareSuccessorRequest_Serialize iid"
| "consensus_Serialize (PrepareSuccessorResponse i) = PrepareSuccessorResponse_Serialize i"
| "consensus_Serialize (InstanceRequest iids) = InstanceRequest_Serialize iids"
| "consensus_Serialize (InstanceResponse is) = InstanceResponse_Serialize is"

lemmas consensus_Serialize_defs =
  PreAcceptRequest_Serialize_def PreAcceptResponse_Serialize_def AcceptRequest_Serialize_def AcceptResponse_Serialize_def CommitRequest_Serialize_def CommitResponse_Serialize_def PrepareRequest_Serialize_def PrepareResponse_Serialize_def PrepareSuccessorRequest_Serialize_def PrepareSuccessorResponse_Serialize_def InstanceRequest_Serialize_def InstanceResponse_Serialize_def

definition instances_NumBytes :: "Instance list \<Rightarrow> nat" where
  "instances_NumBytes is = 4 + sum_list (map NumBytesLimited is)"

definition nilable_NumBytes :: "Instance option \<Rightarrow> nat" where
  "nilable_NumBytes i = 1 + (case i of None \<Rightarrow> 0 | Some inst \<Rightarrow> NumBytesLimited inst)"

definition PreAcceptRequest_NumBytes :: "Instance \<Rightarrow> nat" where
  "PreAcceptRequest_NumBytes i = NumBytesLimited i"

definition PreAcceptResponse_NumBytes :: "PreAcceptResponse \<Rightarrow> nat" where
  "PreAcceptResponse_NumBytes r = 1 + 4 + NumBytesLimited (pa_Instance r) + instances_NumBytes (pa_MissingInstances r)"

definition AcceptRequest_NumBytes :: "Instance \<Rightarrow> Instance list \<Rightarrow> nat" where
  "AcceptRequest_NumBytes i missing = NumBytesLimited i + instances_NumBytes missing"

definition AcceptResponse_NumBytes :: "AcceptResponse \<Rightarrow> nat" where
  "AcceptResponse_NumBytes r = 1 + 4"

definition CommitRequest_NumBytes :: "Instance \<Rightarrow> nat" where
  "CommitRequest_NumBytes i = NumBytesLimited i"

definition CommitResponse_NumBytes :: nat where
  "CommitResponse_NumBytes = 0"

definition PrepareRequest_NumBytes :: "32 word \<Rightarrow> InstanceID \<Rightarrow> nat" where
  "PrepareRequest_NumBytes ballot iid = 4 + UUID_NUM_BYTES"

definition PrepareResponse_NumBytes :: "PrepareResponse \<Rightarrow> nat" where
  "PrepareResponse_NumBytes r = 1 + nilable_NumBytes (p_Instance r)"

definition PrepareSuccessorRequest_NumBytes :: "InstanceID \<Rightarrow> nat" where
  "PrepareSuccessorRequest_NumBytes iid = UUID_NUM_BYTES"

definition PrepareSuccessorResponse_NumBytes :: "Instance option \<Rightarrow> nat" where
  "PrepareSuccessorResponse_NumBytes i = nilable_NumBytes i"

definition InstanceRequest_NumBytes :: "InstanceID list \<Rightarrow> nat" where
  "InstanceRequest_NumBytes iids = 4 + UUID_NUM_BYTES * length iids"

definition InstanceResponse_NumBytes :: "Instance list \<Rightarrow> nat" where
  "InstanceResponse_NumBytes is = instances_NumBytes is"

fun consensus_NumBytes :: "consensus_msg \<Rightarrow> nat" where
  "consensus_NumBytes (PreAcceptRequest i) = PreAcceptRequest_NumBytes i"
| "consensus_NumBytes (PreAcceptResp r) = PreAcceptResponse_NumBytes r"
| "consensus_NumBytes (AcceptRequest i missing) = AcceptRequest_NumBytes i missing"
| "consensus_NumBytes (AcceptResp r) = AcceptResponse_NumBytes r"
| "consensus_NumBytes (CommitRequest i) = CommitRequest_NumBytes i"
| "consensus_NumBytes CommitResponse = CommitResponse_NumBytes"
| "consensus_NumBytes (PrepareRequest ballot iid) = PrepareRequest_NumBytes ballot iid"
| "consensus_NumBytes (PrepareResp r) = PrepareResponse_NumBytes r"
| "consensus_NumBytes (PrepareSuccessorRequest iid) = PrepareSuccessorRequest_NumBytes iid"
| "consensus_NumBytes (PrepareSuccessorResponse i) = PrepareSuccessorResponse_NumBytes i"
| "consensus_NumBytes (InstanceRequest iids) = InstanceRequest_NumBytes iids"
| "consensus_NumBytes (InstanceResponse is) = InstanceResponse_NumBytes is"

lemmas consensus_NumBytes_defs =
  PreAcceptRequest_NumBytes_def PreAcceptResponse_NumBytes_def AcceptRequest_NumBytes_def AcceptResponse_NumBytes_def CommitRequest_NumBytes_def CommitResponse_NumBytes_def PrepareRequest_NumBytes_def PrepareResponse_NumBytes_def PrepareSuccessorRequest_NumBytes_def PrepareSuccessorResponse_NumBytes_def InstanceRequest_NumBytes_def InstanceResponse_NumBytes_def

section \<open>Decoding\<close>

definition PreAcceptRequest_Deserialize :: "consensus_msg reader" where
  "PreAcceptRequest_Deserialize =
     rbind (DeserializeLimited zero_Instance) (\<lambda>i. rreturn (PreAcceptRequest i))"

definition PreAcceptResponse_Deserialize :: "consensus_msg reader" where
  "PreAcceptResponse_Deserialize =
     rbind read_bool (\<lambda>accepted. rbind read_uint32 (\<lambda>ballot.
     rbind (DeserializeLimited zero_Instance) (\<lambda>i. rbind read_instances (\<lambda>missing.
       rreturn (PreAcceptResp \<lparr>pa_Accepted = accepted, pa_MaxBallot = ballot, pa_Instance = i,
         pa_MissingInstances = missing\<rparr>)))))"

definition AcceptRequest_Deserialize :: "consensus_msg reader" where
  "AcceptRequest_Deserialize =
     rbind (DeserializeLimited zero_Instance) (\<lambda>i.
     rbind read_instances (\<lambda>missing. rreturn (AcceptRequest i missing)))"

definition AcceptResponse_Deserialize :: "consensus_msg reader" where
  "AcceptResponse_Deserialize =
     rbind read_bool (\<lambda>accepted. rbind read_uint32 (\<lambda>ballot.
       rreturn (AcceptResp \<lparr>a_Accepted = accepted, a_MaxBallot = ballot\<rparr>)))"

definition CommitRequest_Deserialize :: "consensus_msg reader" where
  "CommitRequest_Deserialize =
     rbind (DeserializeLimited zero_Instance) (\<lambda>i. rreturn (CommitRequest i))"

definition CommitResponse_Deserialize :: "consensus_msg reader" where
  "CommitResponse_Deserialize = rreturn CommitResponse"

definition PrepareRequest_Deserialize :: "consensus_msg reader" where
  "PrepareRequest_Deserialize =
     rbind read_uint32 (\<lambda>ballot. rbind (ReadBuffer zero_B16) (\<lambda>iid.
       rreturn (PrepareRequest ballot iid)))"

definition PrepareResponse_Deserialize :: "consensus_msg reader" where
  "PrepareResponse_Deserialize =
     rbind read_bool (\<lambda>accepted. rbind read_nilable (\<lambda>i.
       rreturn (PrepareResp \<lparr>p_Accepted = accepted, p_Instance = i\<rparr>)))"

definition PrepareSuccessorRequest_Deserialize :: "consensus_msg reader" where
  "PrepareSuccessorRequest_Deserialize =
     rbind (ReadBuffer zero_B16) (\<lambda>iid. rreturn (PrepareSuccessorRequest iid))"

definition PrepareSuccessorResponse_Deserialize :: "consensus_msg reader" where
  "PrepareSuccessorResponse_Deserialize =
     rbind read_nilable (\<lambda>i. rreturn (PrepareSuccessorResponse i))"

definition InstanceRequest_Deserialize :: "consensus_msg reader" where
  "InstanceRequest_Deserialize =
     rbind read_uint32 (\<lambda>numIds. rbind (read_n (unat numIds) (ReadBuffer zero_B16)) (\<lambda>iids.
       rreturn (InstanceRequest iids)))"

definition InstanceResponse_Deserialize :: "consensus_msg reader" where
  "InstanceResponse_Deserialize = rbind read_instances (\<lambda>is. rreturn (InstanceResponse is))"

lemmas consensus_deser_defs =
  PreAcceptRequest_Deserialize_def PreAcceptResponse_Deserialize_def AcceptRequest_Deserialize_def
  AcceptResponse_Deserialize_def CommitRequest_Deserialize_def CommitResponse_Deserialize_def
  PrepareRequest_Deserialize_def PrepareResponse_Deserialize_def
  PrepareSuccessorRequest_Deserialize_def PrepareSuccessorResponse_Deserialize_def
  InstanceRequest_Deserialize_def InstanceResponse_Deserialize_def

text \<open>The registrations of \<^verbatim>\<open>init\<close>.\<close>

definition consensus_constructors :: "32 word \<Rightarrow> consensus_msg reader option" where
  "consensus_constructors = fold (\<lambda>(mtype, d) cs. RegisterMessage cs mtype d)
     [(MESSAGE_PREACCEPT_REQUEST, PreAcceptRequest_Deserialize),
      (MESSAGE_PREACCEPT_RESPONSE, PreAcceptResponse_Deserialize),
      (MESSAGE_ACCEPT_REQUEST, AcceptRequest_Deserialize),
      (MESSAGE_ACCEPT_RESPONSE, AcceptResponse_Deserialize),
      (MESSAGE_COMMIT_REQUEST, CommitRequest_Deserialize),
      (MESSAGE_COMMIT_RESPONSE, CommitResponse_Deserialize),
      (MESSAGE_PREPARE_REQUEST, PrepareRequest_Deserialize),
      (MESSAGE_PREPARE_RESPONSE, PrepareResponse_Deserialize),
      (MESSAGE_PREPARE_SUCCESSOR_REQUEST, PrepareSuccessorRequest_Deserialize),
      (MESSAGE_PREPARE_SUCCESSOR_RESPONSE, PrepareSuccessorResponse_Deserialize),
      (MESSAGE_INSTANCE_REQUEST, InstanceRequest_Deserialize),
      (MESSAGE_INSTANCE_RESPONSE, InstanceResponse_Deserialize)] Map.empty"

section \<open>The consensus messages as a family\<close>

definition wire_ok :: "Instance \<Rightarrow> bool" where
  "wire_ok i \<longleftrightarrow> Instance_ok i \<and> wire_limited i = i"

definition wire_list_ok :: "Instance list \<Rightarrow> bool" where
  "wire_list_ok is \<longleftrightarrow> fits32 is \<and> list_all wire_ok is"

fun consensus_ok :: "consensus_msg \<Rightarrow> bool" where
  "consensus_ok (PreAcceptRequest i) = wire_ok i"
| "consensus_ok (PreAcceptResp r) = (wire_ok (pa_Instance r) \<and> wire_list_ok (pa_MissingInstances r))"
| "consensus_ok (AcceptRequest i missing) = (wire_ok i \<and> wire_list_ok missing)"
| "consensus_ok (CommitRequest i) = wire_ok i"
| "consensus_ok (PrepareResp r) = pred_option wire_ok (p_Instance r)"
| "consensus_ok (PrepareSuccessorResponse i) = pred_option wire_ok i"
| "consensus_ok (InstanceRequest iids) = fits32 iids"
| "consensus_ok (InstanceResponse is) = wire_list_ok is"
| "consensus_ok _ = True"

lemma bind_instance [codec_simps]:
  "wire_ok i \<Longrightarrow> rbind (DeserializeLimited zero_Instance) f (SerializeLimited i @ rest) = f i rest"
  by (simp add: wire_ok_def instance_limited.bind_read)

lemma bind_instances [codec_simps]:
  assumes "wire_list_ok is"
  shows "rbind read_instances f (write_instances is @ rest) = f is rest"
proof -
  have "read_n (length is) (DeserializeLimited zero_Instance) (concat (map SerializeLimited is) @ rest) =
      Inr (is, rest)"
    using assms by (intro instance_limited.read_list) (auto simp: wire_list_ok_def wire_ok_def list_all_iff)
  then show ?thesis
    using assms by (simp add: rbind_def read_instances_def write_instances_def codec_simps
        wire_list_ok_def fits32_def)
qed

lemma bind_nilable [codec_simps]:
  "pred_option wire_ok i \<Longrightarrow> rbind read_nilable f (write_nilable i @ rest) = f i rest"
  by (cases i) (auto simp: read_nilable_def write_nilable_def codec_simps rbind_def read_bool_byte
      instance_limited.roundtrip wire_ok_def)

lemma length_instances: "wire_list_ok is \<Longrightarrow> length (write_instances is) = instances_NumBytes is"
  using instance_limited.length_list [of "is"]
  by (auto simp: write_instances_def instances_NumBytes_def wire_list_ok_def wire_ok_def list_all_iff)

lemma length_nilable: "pred_option wire_ok i \<Longrightarrow> length (write_nilable i) = nilable_NumBytes i"
  by (cases i) (auto simp: write_nilable_def nilable_NumBytes_def wire_ok_def instance_limited.len)

lemma consensus_registered:
  assumes "consensus_ok m"
  shows "\<exists>deser. consensus_constructors (GetType m) = Some deser \<and>
    (\<forall>rest. deser (consensus_Serialize m @ rest) = Inr (m, rest))"
  using assms
  by (cases m)
    (simp_all add: consensus_constructors_def RegisterMessage_def message_type_defs
      consensus_deser_defs consensus_Serialize_defs codec_simps uuid.bind_read)

interpretation consensus_messages: message_family GetType consensus_Serialize consensus_constructors
  consensus_NumBytes consensus_ok
proof
  show "length (consensus_Serialize m) = consensus_NumBytes m" if "consensus_ok m" for m
    using that
    by (cases m) (auto simp: consensus_Serialize_defs consensus_NumBytes_defs wire_ok_def
        instance_limited.len length_instances length_nilable uuid.len)
qed (rule consensus_registered)

section \<open>Properties\<close>


definition ex_instance :: Instance where
  "ex_instance = zero_Instance\<lparr>InstanceID := \<lparr>b0 = 1, b1 = 2\<rparr>,
     Command := NewInstruction ''SET'' ''k'' [''v''] zero_Time,
     Dependencies := [\<lparr>b0 = 1, b1 = 1\<rparr>], Status := INSTANCE_ACCEPTED, MaxBallot := 7,
     ReadOnly := True\<rparr>"

lemma ex_instance_wire: "wire_ok ex_instance"
  by (simp add: wire_ok_def ex_instance_def wire_limited_def zero_Instance_def Instance_ok_def
      Instruction_ok_def NewInstruction_def fits32_def)


text \<open>
  The read-only flag does not reach the replicas.  The leader sends a copy of its
  instance, and \<^verbatim>\<open>Copy\<close> leaves out \<^verbatim>\<open>ReadOnly\<close>, so the replica decodes an
  instance that counts as a write, with everything else as at the leader.
\<close>

theorem preaccept_loses_ReadOnly:
  assumes "Instance_ok i"
  shows "ReadMessage consensus_constructors
      (WriteMessage GetType consensus_Serialize (PreAcceptRequest (Instance_Copy i)) @ rest) =
    Inr (PreAcceptRequest (i\<lparr>ReadOnly := False, ResultListeners := [], StronglyConnected := [],
      commitTimeout := zero_Time\<rparr>), rest)"
proof -
  have "Instance_ok (Instance_Copy i)" using assms by (simp add: Instance_ok_def Instance_Copy_alt)
  from DeserializeLimited_Serialize [OF this, of rest] show ?thesis
    by (simp add: ReadMessage_def WriteMessage_def codec_simps consensus_constructors_def
        RegisterMessage_def message_type_defs consensus_deser_defs consensus_Serialize_defs wire_limited_def Instance_Copy_alt)
qed

theorem preaccept_loses_ReadOnly_witness:
  "ReadOnly ex_instance \<and>
   ReadMessage consensus_constructors
      (WriteMessage GetType consensus_Serialize (PreAcceptRequest (Instance_Copy ex_instance)) @ []) =
    Inr (PreAcceptRequest (ex_instance\<lparr>ReadOnly := False, ResultListeners := [], StronglyConnected := [],
      commitTimeout := zero_Time\<rparr>), [])"
  using preaccept_loses_ReadOnly [of ex_instance "[]"] ex_instance_wire
  by (simp add: wire_ok_def ex_instance_def)

end
