(* ===== verification/Manager.thy ===== *)
theory Manager
  imports Topology Dependencies Messages
begin

text \<open>
  The replica-level consensus manager (\<^verbatim>\<open>consensus/manager.go\<close>) with the state
  changes and message handlers of the preaccept, accept, commit and prepare phases
  (\<^verbatim>\<open>manager_preaccept.go\<close>, \<^verbatim>\<open>manager_accept.go\<close>, \<^verbatim>\<open>manager_commit.go\<close>,
  \<^verbatim>\<open>manager_prepare.go\<close>).

  A call maps the manager to the manager and an outcome.  A pointer to an instance is the
  value of the instance at the time of the call; changes are written back to the map of
  instances, in which every instance that is changed lives.  \<^verbatim>\<open>Persist\<close>, statistics
  and logging do nothing.
\<close>

section \<open>State\<close>

text \<open>
  The store is an interface (\<^verbatim>\<open>store/store.go\<close>): its state is a type variable, its
  methods are the fields of a record.
\<close>

record ('s, 'v) Store =
  st_ExecuteInstruction :: "'s \<Rightarrow> Instruction \<Rightarrow> 's \<times> 'v option outcome"
  st_InterferingKeys :: "Instruction \<Rightarrow> string list"

text \<open>
  \<open>delivered\<close> is the log of the results sent to the channels of clients, \<open>outbox\<close> that of
  the requests sent to other nodes.
\<close>

record ('s, 'v) Manager =
  nodeID :: NodeId
  dcID :: DatacenterID
  store :: 's
  topology :: Topology
  instances :: InstanceMap
  executed :: "InstanceID list"
  depsMngr :: dependencyMap
  delivered :: "(result_chan \<times> 'v option) list"
  outbox :: "(NodeId \<times> consensus_msg) list"

definition NewManager :: "Topology \<Rightarrow> 's \<Rightarrow> ('s, 'v) Manager" where
  "NewManager t s =
     \<lparr>nodeID = localNodeID t, dcID = localDcID t, store = s, topology = t,
      instances = NewInstanceMap, executed = [], depsMngr = newDependencyMap, delivered = [],
      outbox = []\<rparr>"

section \<open>Replicas\<close>

definition getInstanceNodes :: "('s, 'v) Manager \<Rightarrow> Instance \<Rightarrow> Node list" where
  "getInstanceNodes m instance =
     (let tk = GetToken (topology m) (Key (Command instance))
      in GetLocalNodesForToken (topology m) tk)"

definition checkLocalKeyEligibility :: "('s, 'v) Manager \<Rightarrow> string \<Rightarrow> bool" where
  "checkLocalKeyEligibility m key =
     (let tk = GetToken (topology m) key in TokenLocallyReplicated (topology m) tk)"

definition checkLocalInstanceEligibility :: "('s, 'v) Manager \<Rightarrow> Instance \<Rightarrow> bool" where
  "checkLocalInstanceEligibility m instance = checkLocalKeyEligibility m (Key (Command instance))"

definition getInstanceReplicas :: "('s, 'v) Manager \<Rightarrow> Instance \<Rightarrow> Node list" where
  "getInstanceReplicas m instance =
     (let tk = GetToken (topology m) (Key (Command instance));
          nodes = GetLocalNodesForToken (topology m) tk
      in fold (\<lambda>n replicas. if node_id n = nodeID m then replicas else replicas @ [n]) nodes [])"

definition GetLocalID :: "('s, 'v) Manager \<Rightarrow> NodeId" where
  "GetLocalID m = localNodeID (topology m)"

section \<open>Instances\<close>

definition getInstance :: "('s, 'v) Manager \<Rightarrow> InstanceID \<Rightarrow> Instance option" where
  "getInstance m iid = imap_Get (instances m) iid"

text \<open>Writing back an instance that was changed in place.\<close>

definition put_instance :: "('s, 'v) Manager \<Rightarrow> Instance \<Rightarrow> ('s, 'v) Manager" where
  "put_instance m i = m\<lparr>instances := imap_Add (instances m) i\<rparr>"

definition interferingKeys :: "('s, 'v) Store \<Rightarrow> Instance \<Rightarrow> string list" where
  "interferingKeys S i = st_InterferingKeys S (Command i)"

definition mgr_AddDependency ::
    "('s, 'v) Store \<Rightarrow> ('s, 'v) Manager \<Rightarrow> Instance \<Rightarrow> ('s, 'v) Manager \<times> error option" where
  "mgr_AddDependency S m i =
     (case dm_AddDependency (depsMngr m) (interferingKeys S i) i of
        (d, err) \<Rightarrow> (m\<lparr>depsMngr := d\<rparr>, err))"

definition mgr_ReportAcknowledged ::
    "('s, 'v) Store \<Rightarrow> ('s, 'v) Manager \<Rightarrow> Instance \<Rightarrow> ('s, 'v) Manager \<times> error option" where
  "mgr_ReportAcknowledged S m i =
     (case dm_ReportAcknowledged (depsMngr m) (interferingKeys S i) i of
        (d, err) \<Rightarrow> (m\<lparr>depsMngr := d\<rparr>, err))"

definition mgr_ReportExecuted ::
    "('s, 'v) Store \<Rightarrow> ('s, 'v) Manager \<Rightarrow> Instance \<Rightarrow> ('s, 'v) Manager \<times> error option" where
  "mgr_ReportExecuted S m i =
     (case dm_ReportExecuted (depsMngr m) (interferingKeys S i) i of
        (d, err) \<Rightarrow> (m\<lparr>depsMngr := d\<rparr>, err))"

text \<open>The \<^verbatim>\<open>initialize\<close> closure of \<^verbatim>\<open>getOrSetInstance\<close>.\<close>

definition initialize :: "Instance \<Rightarrow> Instance" where
  "initialize i = (if Status i > INSTANCE_COMMITTED then i\<lparr>Status := INSTANCE_COMMITTED\<rparr> else i)"

definition getOrSetInstance ::
    "('s, 'v) Store \<Rightarrow> ('s, 'v) Manager \<Rightarrow> Instance \<Rightarrow> ('s, 'v) Manager \<times> Instance \<times> bool" where
  "getOrSetInstance S m inst =
     (case imap_GetOrSet (instances m) inst (Some initialize) of
        (is, instance, existed) \<Rightarrow>
          let m = m\<lparr>instances := is\<rparr>
          in if \<not> existed \<and> Status instance > INSTANCE_PREACCEPTED
             then (fst (mgr_AddDependency S m instance), instance, existed)
             else (m, instance, existed))"

definition getInstanceDeps ::
    "('s, 'v) Store \<Rightarrow> dependencyMap \<Rightarrow> Instance \<Rightarrow> dependencyMap \<times> (error + InstanceID list)" where
  "getInstanceDeps S d i = dm_GetAndSetDeps d (interferingKeys S i) i"

text \<open>\<open>iid\<close> is the fresh identifier and \<open>perm\<close> the random permutation of the replicas.\<close>

definition makeInstance ::
    "('s, 'v) Manager \<Rightarrow> InstanceID \<Rightarrow> nat list \<Rightarrow> Instruction \<Rightarrow> Instance" where
  "makeInstance m iid perm instruction =
     (let instance = zero_Instance\<lparr>InstanceID := iid, LeaderID := nodeID m, Command := instruction\<rparr>;
          replicas = getInstanceReplicas m instance
      in instance\<lparr>Successors := map (\<lambda>j. node_id (replicas ! j)) perm\<rparr>)"

fun addMissingInstancesUnsafe ::
    "('s, 'v) Store \<Rightarrow> ('s, 'v) Manager \<Rightarrow> Instance list \<Rightarrow> ('s, 'v) Manager \<times> unit outcome" where
  "addMissingInstancesUnsafe S m [] = (m, Ret ())"
| "addMissingInstancesUnsafe S m (inst # insts) =
     (case getOrSetInstance S m inst of
        (m, instance, existed) \<Rightarrow>
          if existed then addMissingInstancesUnsafe S m insts
          else if Status instance \<notin> {INSTANCE_PREACCEPTED, INSTANCE_ACCEPTED, INSTANCE_COMMITTED, INSTANCE_EXECUTED}
          then (m, Panic ''Unknown status: %v'')
          else
            let instance = (if Status instance \<in> {INSTANCE_COMMITTED, INSTANCE_EXECUTED}
                            then instance\<lparr>Status := INSTANCE_COMMITTED\<rparr> else instance);
                m = put_instance m instance
            in case mgr_AddDependency S m instance of
                 (m, Some err) \<Rightarrow> (m, Err err)
               | (m, None) \<Rightarrow> addMissingInstancesUnsafe S m insts)"

definition addMissingInstances ::
    "('s, 'v) Store \<Rightarrow> ('s, 'v) Manager \<Rightarrow> Instance list \<Rightarrow> ('s, 'v) Manager \<times> unit outcome" where
  "addMissingInstances S m insts = addMissingInstancesUnsafe S m insts"

definition updateInstanceBallotFromResponses ::
    "('s, 'v) Manager \<Rightarrow> Instance \<Rightarrow> 32 word list \<Rightarrow> ('s, 'v) Manager" where
  "updateInstanceBallotFromResponses m instance ballots =
     (let maxBallot = fold (\<lambda>ballot maxBallot. if ballot > maxBallot then ballot else maxBallot) ballots 0
      in put_instance m (fst (updateBallot instance maxBallot)))"

section \<open>Preaccept\<close>

definition preAcceptInstance ::
    "('s, 'v) Store \<Rightarrow> Time \<Rightarrow> ('s, 'v) Manager \<Rightarrow> Instance \<Rightarrow> bool \<Rightarrow>
     ('s, 'v) Manager \<times> error option" where
  "preAcceptInstance S now m inst incr =
     (case getOrSetInstance S m inst of
        (m, instance, existed) \<Rightarrow>
          case preaccept (getInstanceDeps S) now (depsMngr m) instance inst incr of
            (instance, d, err) \<Rightarrow> (put_instance (m\<lparr>depsMngr := d\<rparr>) instance, err))"

fun is_InvalidStatusUpdateError :: "error \<Rightarrow> bool" where
  "is_InvalidStatusUpdateError (InvalidStatusUpdateError _ _ _) = True"
| "is_InvalidStatusUpdateError _ = False"

text \<open>The instances of the missing dependencies that are known.\<close>

definition missing_instances :: "('s, 'v) Manager \<Rightarrow> InstanceIDSet \<Rightarrow> Instance list" where
  "missing_instances m missingDeps =
     fold (\<lambda>iid l. case imap_Get (instances m) iid of
         None \<Rightarrow> l | Some inst \<Rightarrow> l @ [Instance_Copy inst]) missingDeps []"

definition HandlePreAccept ::
    "('s, 'v) Store \<Rightarrow> Time \<Rightarrow> ('s, 'v) Manager \<Rightarrow> Instance \<Rightarrow>
     ('s, 'v) Manager \<times> PreAcceptResponse outcome" where
  "HandlePreAccept S now m request =
     (let extDeps = NewInstanceIDSet (Dependencies request);
          proceed =
            (case preAcceptInstance S now m request False of
               (m, err) \<Rightarrow>
                 if (case err of None \<Rightarrow> False | Some e \<Rightarrow> \<not> is_InvalidStatusUpdateError e)
                 then (m, Err (the err))
                 else case imap_Get (instances m) (InstanceID request) of
                     None \<Rightarrow> (m, Panic ''nil pointer dereference'')
                   | Some instance \<Rightarrow>
                       let newDeps = NewInstanceIDSet (Dependencies instance);
                           instance = instance\<lparr>DependencyMatch := idset_Equal extDeps newDeps\<rparr>;
                           m = put_instance m instance;
                           missingDeps = idset_Difference newDeps extDeps;
                           instanceCopy = Instance_Copy instance
                       in (m, Ret \<lparr>pa_Accepted = True, pa_MaxBallot = MaxBallot instanceCopy,
                             pa_Instance = instanceCopy,
                             pa_MissingInstances = missing_instances m missingDeps\<rparr>))
      in case imap_Get (instances m) (InstanceID request) of
           Some instance \<Rightarrow>
             if getBallot instance \<ge> MaxBallot request
             then let instCopy = Instance_Copy instance
                  in (m, Ret \<lparr>pa_Accepted = False, pa_MaxBallot = getBallot instCopy,
                        pa_Instance = instCopy, pa_MissingInstances = []\<rparr>)
             else proceed
         | None \<Rightarrow> proceed)"

section \<open>Accept\<close>

definition acceptInstance ::
    "('s, 'v) Store \<Rightarrow> Time \<Rightarrow> ('s, 'v) Manager \<Rightarrow> Instance \<Rightarrow> bool \<Rightarrow>
     ('s, 'v) Manager \<times> error option" where
  "acceptInstance S now m inst incr =
     (case getOrSetInstance S m inst of
        (m, instance, existed) \<Rightarrow>
          case accept now instance inst incr of
            (instance, Some err) \<Rightarrow> (put_instance m instance, Some err)
          | (instance, None) \<Rightarrow> mgr_ReportAcknowledged S (put_instance m instance) instance)"

definition HandleAccept ::
    "('s, 'v) Store \<Rightarrow> Time \<Rightarrow> ('s, 'v) Manager \<Rightarrow> Instance \<Rightarrow> Instance list \<Rightarrow>
     ('s, 'v) Manager \<times> AcceptResponse outcome" where
  "HandleAccept S now m request missing =
     (case (if length missing > 0 then addMissingInstancesUnsafe S m missing else (m, Ret ())) of
        (m, Panic p) \<Rightarrow> (m, Panic p)
      | (m, _) \<Rightarrow>
          let proceed =
            (case acceptInstance S now m request False of
               (m, err) \<Rightarrow>
                 if (case err of None \<Rightarrow> False | Some e \<Rightarrow> \<not> is_InvalidStatusUpdateError e)
                 then (m, Err (the err))
                 else (m, Ret \<lparr>a_Accepted = True, a_MaxBallot = 0\<rparr>))
          in case imap_Get (instances m) (InstanceID request) of
               Some instance \<Rightarrow>
                 if getBallot instance \<ge> MaxBallot request
                 then (m, Ret \<lparr>a_Accepted = False, a_MaxBallot = getBallot instance\<rparr>)
                 else proceed
             | None \<Rightarrow> proceed)"

section \<open>Commit\<close>

definition commitInstance ::
    "('s, 'v) Store \<Rightarrow> ('s, 'v) Manager \<Rightarrow> Instance \<Rightarrow> bool \<Rightarrow> ('s, 'v) Manager \<times> error option" where
  "commitInstance S m inst incr =
     (case getOrSetInstance S m inst of
        (m, instance, existed) \<Rightarrow>
          case commit instance inst incr of
            (instance, Some err) \<Rightarrow> (put_instance m instance, Some err)
          | (instance, None) \<Rightarrow> mgr_ReportAcknowledged S (put_instance m instance) instance)"

definition HandleCommit ::
    "('s, 'v) Store \<Rightarrow> ('s, 'v) Manager \<Rightarrow> Instance \<Rightarrow> ('s, 'v) Manager \<times> unit outcome" where
  "HandleCommit S m request =
     (case commitInstance S m request False of
        (m, err) \<Rightarrow>
          if (case err of None \<Rightarrow> False | Some e \<Rightarrow> \<not> is_InvalidStatusUpdateError e)
          then (m, Err (the err)) else (m, Ret ()))"

section \<open>Prepare\<close>

definition HandlePrepare ::
    "('s, 'v) Manager \<Rightarrow> 32 word \<Rightarrow> InstanceID \<Rightarrow> ('s, 'v) Manager \<times> PrepareResponse outcome" where
  "HandlePrepare m ballot iid =
     (case getInstance m iid of
        None \<Rightarrow> (m, Ret \<lparr>p_Accepted = True, p_Instance = None\<rparr>)
      | Some instance \<Rightarrow>
          let accepted = ballot > getBallot instance
          in if accepted
             then let instance = fst (updateBallot instance ballot)
                  in (put_instance m instance,
                      Ret \<lparr>p_Accepted = accepted, p_Instance = Some (Instance_Copy instance)\<rparr>)
             else (m, Ret \<lparr>p_Accepted = accepted, p_Instance = Some (Instance_Copy instance)\<rparr>))"

text \<open>The reply; the prepare phase it may start runs on its own.\<close>

definition HandlePrepareSuccessor ::
    "('s, 'v) Manager \<Rightarrow> InstanceID \<Rightarrow> Instance option outcome" where
  "HandlePrepareSuccessor m iid =
     (case imap_Get (instances m) iid of
        None \<Rightarrow> Ret None
      | Some instance \<Rightarrow> Ret (Some (Instance_Copy instance)))"

section \<open>Dispatch\<close>

definition omap :: "('a \<Rightarrow> 'b) \<Rightarrow> 'a outcome \<Rightarrow> 'b outcome" where
  "omap f r = obind r (\<lambda>a. Ret (f a))"

fun HandleMessage ::
    "('s, 'v) Store \<Rightarrow> Time \<Rightarrow> ('s, 'v) Manager \<Rightarrow> consensus_msg \<Rightarrow>
     ('s, 'v) Manager \<times> consensus_msg outcome" where
  "HandleMessage S now m (PreAcceptRequest i) =
     map_prod id (omap PreAcceptResp) (HandlePreAccept S now m i)"
| "HandleMessage S now m (AcceptRequest i missing) =
     map_prod id (omap AcceptResp) (HandleAccept S now m i missing)"
| "HandleMessage S now m (CommitRequest i) =
     map_prod id (omap (\<lambda>_. CommitResponse)) (HandleCommit S m i)"
| "HandleMessage S now m (PrepareRequest ballot iid) =
     map_prod id (omap PrepareResp) (HandlePrepare m ballot iid)"
| "HandleMessage S now m (PrepareSuccessorRequest iid) =
     (m, omap PrepareSuccessorResponse (HandlePrepareSuccessor m iid))"
| "HandleMessage S now m _ = (m, Err (Errorf ''Unhandled request type: %T''))"

end
