(* ===== verification/ManagerInv.thy ===== *)
theory ManagerInv
  imports Manager
begin

text \<open>
  The invariant of the manager and what every handler keeps: the instances a replica knows
  only move forward in status and ballot, an executed instance never changes again, and the
  list of executed instances names exactly the instances with that status.
\<close>

named_theorems quiet_intros \<open>calls that keep the invariant and do not execute anything\<close>

section \<open>Invariant and order\<close>

definition mgr_inv :: "('s, 'v) Manager \<Rightarrow> bool" where
  "mgr_inv m \<longleftrightarrow>
     (\<forall>iid i. instances m iid = Some i \<longrightarrow> InstanceID i = iid \<and> Status i \<le> INSTANCE_EXECUTED) \<and>
     distinct (executed m) \<and>
     set (executed m) = {iid. \<exists>i. instances m iid = Some i \<and> Status i = INSTANCE_EXECUTED} \<and>
     dm_wf (depsMngr m) \<and> finite (dom (instances m))"

definition instance_le :: "Instance \<Rightarrow> Instance \<Rightarrow> bool" where
  "instance_le i j \<longleftrightarrow>
     InstanceID j = InstanceID i \<and> LeaderID j = LeaderID i \<and> Command j = Command i \<and>
     ReadOnly j = ReadOnly i \<and> ResultListeners j = ResultListeners i \<and>
     Status i \<le> Status j \<and> MaxBallot i \<le> MaxBallot j \<and>
     (Status i = INSTANCE_EXECUTED \<longrightarrow>
        Status j = INSTANCE_EXECUTED \<and> Dependencies j = Dependencies i \<and> Noop j = Noop i)"

definition mgr_le :: "('s, 'v) Manager \<Rightarrow> ('s, 'v) Manager \<Rightarrow> bool" where
  "mgr_le m m' \<longleftrightarrow>
     (\<forall>iid i. instances m iid = Some i \<longrightarrow>
        (\<exists>j. instances m' iid = Some j \<and> instance_le i j)) \<and>
     prefix (executed m) (executed m')"

text \<open>A call that executes nothing.\<close>

definition quiet :: "('s, 'v) Manager \<Rightarrow> ('s, 'v) Manager \<Rightarrow> bool" where
  "quiet m m' \<longleftrightarrow>
     (mgr_inv m \<longrightarrow> mgr_inv m' \<and> mgr_le m m') \<and> executed m' = executed m \<and>
     store m' = store m \<and> topology m' = topology m \<and> nodeID m' = nodeID m \<and>
     delivered m' = delivered m \<and> outbox m' = outbox m"

lemma mgr_invD:
  assumes "mgr_inv m"
  shows "instances m iid = Some i \<Longrightarrow> InstanceID i = iid"
    and "instances m iid = Some i \<Longrightarrow> Status i \<le> INSTANCE_EXECUTED"
    and "distinct (executed m)"
    and "iid \<in> set (executed m) \<longleftrightarrow> (\<exists>i. instances m iid = Some i \<and> Status i = INSTANCE_EXECUTED)"
    and "dm_wf (depsMngr m)" and "finite (dom (instances m))"
  using assms unfolding mgr_inv_def by auto

lemma mgr_inv_New: "mgr_inv (NewManager t s)"
  by (simp add: mgr_inv_def NewManager_def NewInstanceMap_def)

lemma instance_le_refl [simp]: "instance_le i i"
  by (simp add: instance_le_def)

lemma instance_le_trans: "instance_le i j \<Longrightarrow> instance_le j k \<Longrightarrow> instance_le i k"
  by (auto simp: instance_le_def)

lemma mgr_le_refl [simp]: "mgr_le m m"
  by (simp add: mgr_le_def)

lemma mgr_le_trans: "mgr_le m m' \<Longrightarrow> mgr_le m' m'' \<Longrightarrow> mgr_le m m''"
  unfolding mgr_le_def by (meson instance_le_trans prefix_order.trans)

lemma quiet_refl [simp, quiet_intros]: "quiet m m"
  by (simp add: quiet_def)

lemma quiet_trans: "quiet m m' \<Longrightarrow> quiet m' m'' \<Longrightarrow> quiet m m''"
  unfolding quiet_def using mgr_le_trans by auto

lemma quietD:
  assumes "quiet m m'"
  shows "mgr_inv m \<Longrightarrow> mgr_inv m'" and "mgr_inv m \<Longrightarrow> mgr_le m m'"
    and "executed m' = executed m" and "store m' = store m" and "topology m' = topology m"
    and "nodeID m' = nodeID m" and "delivered m' = delivered m" and "outbox m' = outbox m"
  using assms by (simp_all add: quiet_def)

section \<open>Elementary steps\<close>

lemma put_instance_fields [simp]:
  "instances (put_instance m i) = (instances m)(InstanceID i \<mapsto> i)"
  "executed (put_instance m i) = executed m" "store (put_instance m i) = store m"
  "topology (put_instance m i) = topology m" "nodeID (put_instance m i) = nodeID m"
  "delivered (put_instance m i) = delivered m" "outbox (put_instance m i) = outbox m" "depsMngr (put_instance m i) = depsMngr m"
  by (simp_all add: put_instance_def imap_Add_def)

lemma quiet_put:
  assumes "instances m (InstanceID j) = Some i" and "instance_le i j"
    and "Status j = INSTANCE_EXECUTED \<longleftrightarrow> Status i = INSTANCE_EXECUTED"
    and "Status i \<le> INSTANCE_EXECUTED \<Longrightarrow> Status j \<le> INSTANCE_EXECUTED"
  shows "quiet m (put_instance m j)"
proof -
  have "mgr_inv (put_instance m j)" if inv: "mgr_inv m"
    using inv assms unfolding mgr_inv_def by auto
  moreover have "mgr_le m (put_instance m j)" using assms(1,2) by (auto simp: mgr_le_def)
  ultimately show ?thesis by (simp add: quiet_def)
qed

lemma quiet_new:
  assumes "instances m (InstanceID i) = None" and "Status i \<le> INSTANCE_COMMITTED"
  shows "quiet m (put_instance m i)"
proof -
  have "Status i < INSTANCE_EXECUTED" using assms(2) order_le_less_trans status_order(3) by blast
  then have "mgr_inv (put_instance m i)" if "mgr_inv m"
    using that assms(1) unfolding mgr_inv_def by (auto simp: less_imp_le)
  moreover have "mgr_le m (put_instance m i)" using assms(1) by (auto simp: mgr_le_def)
  ultimately show ?thesis by (simp add: quiet_def)
qed

lemma quiet_deps:
  assumes "dm_wf (depsMngr m) \<Longrightarrow> dm_wf d"
  shows "quiet m (m\<lparr>depsMngr := d\<rparr>)"
  using assms by (simp add: quiet_def mgr_inv_def mgr_le_def)

lemma dm_wf_ops [simp]:
  assumes "dm_wf d"
  shows "dm_wf (fst (dm_GetAndSetDeps d keys i))" "dm_wf (fst (dm_ReportAcknowledged d keys i))"
    "dm_wf (fst (dm_ReportExecuted d keys i))" "dm_wf (fst (dm_AddDependency d keys i))"
  using dm_wf_run [OF assms, of "CallGetAndSet keys i"] dm_wf_run [OF assms, of "CallAcknowledged keys i"]
    dm_wf_run [OF assms, of "CallExecuted keys i"] dm_wf_run [OF assms, of "CallAdd keys i"]
  by simp_all

lemma quiet_AddDependency [quiet_intros]: "quiet m (fst (mgr_AddDependency S m i))"
  unfolding mgr_AddDependency_def by (auto simp: split_beta intro: quiet_deps)

lemma quiet_ReportAcknowledged [quiet_intros]: "quiet m (fst (mgr_ReportAcknowledged S m i))"
  unfolding mgr_ReportAcknowledged_def by (auto simp: split_beta intro: quiet_deps)

lemma quiet_ReportExecuted [quiet_intros]: "quiet m (fst (mgr_ReportExecuted S m i))"
  unfolding mgr_ReportExecuted_def by (auto simp: split_beta intro: quiet_deps)

lemma instances_mgr_deps [simp]:
  "instances (fst (mgr_AddDependency S m i)) = instances m"
  "instances (fst (mgr_ReportAcknowledged S m i)) = instances m"
  "instances (fst (mgr_ReportExecuted S m i)) = instances m"
  by (simp_all add: mgr_AddDependency_def mgr_ReportAcknowledged_def mgr_ReportExecuted_def split_beta)

section \<open>Instances\<close>

lemma initialize_fields [simp]:
  "InstanceID (initialize i) = InstanceID i" "Status (initialize i) \<le> INSTANCE_COMMITTED"
  "Dependencies (initialize i) = Dependencies i" "MaxBallot (initialize i) = MaxBallot i"
  "Noop (initialize i) = Noop i" "Command (initialize i) = Command i"
  "ReadOnly (initialize i) = ReadOnly i" "LeaderID (initialize i) = LeaderID i"
  by (auto simp: initialize_def)

text \<open>
  The instance that \<^verbatim>\<open>getOrSetInstance\<close> returns is in the map, under the identifier of
  the argument; a known instance is left alone.
\<close>

lemma getOrSetInstance_existing:
  "instances m (InstanceID inst) = Some i \<Longrightarrow> getOrSetInstance S m inst = (m, i, True)"
  by (simp add: getOrSetInstance_def imap_GetOrSet_def Let_def)

lemma getOrSetInstance_new:
  assumes "instances m (InstanceID inst) = None"
  shows "\<exists>m'. getOrSetInstance S m inst = (m', initialize inst, False) \<and> quiet m m' \<and>
    instances m' = (instances m)(InstanceID inst \<mapsto> initialize inst)"
proof -
  have eq: "m\<lparr>instances := (instances m)(InstanceID inst \<mapsto> initialize inst)\<rparr> = put_instance m (initialize inst)"
    by (simp add: put_instance_def imap_Add_def)
  have "quiet m (put_instance m (initialize inst))" using assms by (simp add: quiet_new)
  then show ?thesis
    using assms quiet_trans [OF _ quiet_AddDependency]
    by (auto simp: getOrSetInstance_def imap_GetOrSet_def Let_def eq)
qed

lemma getOrSetInstance_spec:
  "\<exists>m' i existed. getOrSetInstance S m inst = (m', i, existed) \<and> quiet m m' \<and>
     instances m' = (instances m)(InstanceID inst \<mapsto> i) \<and>
     (if existed then instances m (InstanceID inst) = Some i \<and> m' = m
      else instances m (InstanceID inst) = None \<and> i = initialize inst)"
proof (cases "instances m (InstanceID inst)")
  case None
  then show ?thesis using getOrSetInstance_new [OF None, of S] by auto
next
  case (Some i)
  then show ?thesis using getOrSetInstance_existing [OF Some, of S] by (auto simp: fun_upd_idem)
qed

section \<open>State changes of an instance\<close>

text \<open>Room for one more increment of a ballot.\<close>

definition no_wrap :: "bool \<Rightarrow> 32 word \<Rightarrow> bool" where
  "no_wrap incr b \<longleftrightarrow> incr \<longrightarrow> b \<noteq> - 1"

lemma inc_le:
  assumes "b \<noteq> - 1"
  shows "b \<le> b + (1 :: 32 word)"
proof -
  have "1 + b \<noteq> 0" using assms by (metis add.commute add_eq_0_iff2)
  then show ?thesis by (simp add: word_le_nat_alt unatSuc add.commute)
qed

lemma bump_le:
  assumes "no_wrap incr (max b c)"
  shows "b \<le> max b c + (if incr then 1 else 0 :: 32 word)"
proof (cases incr)
  case True
  have "b \<le> max b c" by simp
  also have "\<dots> \<le> max b c + 1" using assms True inc_le unfolding no_wrap_def by blast
  finally show ?thesis using True by (simp only: if_True)
qed simp

text \<open>What a change of one instance may do when it does not execute it.\<close>

definition advances :: "Instance \<Rightarrow> Instance \<Rightarrow> bool" where
  "advances i j \<longleftrightarrow>
     instance_le i j \<and> (Status j = INSTANCE_EXECUTED \<longleftrightarrow> Status i = INSTANCE_EXECUTED) \<and>
     (Status i \<le> INSTANCE_EXECUTED \<longrightarrow> Status j \<le> INSTANCE_EXECUTED)"

lemma advances_refl [simp]: "advances i i"
  by (simp add: advances_def)

lemma advances_id: "advances i j \<Longrightarrow> InstanceID j = InstanceID i"
  by (simp add: advances_def instance_le_def)

lemma quiet_advance:
  "instances m (InstanceID i) = Some i \<Longrightarrow> advances i j \<Longrightarrow> quiet m (put_instance m j)"
  using quiet_put [of m j i] advances_id [of i j] unfolding advances_def by auto

lemma advances_status:
  assumes "Status i \<le> s" and "s < INSTANCE_EXECUTED" and "Status j = s"
    and "InstanceID j = InstanceID i" "LeaderID j = LeaderID i" "Command j = Command i"
      "ReadOnly j = ReadOnly i" "ResultListeners j = ResultListeners i" "MaxBallot i \<le> MaxBallot j"
  shows "advances i j"
  using assms by (auto simp: advances_def instance_le_def less_imp_le)

lemma preaccept_advances:
  assumes "preaccept f now d i inst incr = (j, d', err)"
    and "no_wrap incr (max (MaxBallot i) (MaxBallot inst))"
  shows "advances i j"
proof (cases "Status i > INSTANCE_PREACCEPTED")
  case False
  let ?i = "(copyAttributes i inst)\<lparr>Status := INSTANCE_PREACCEPTED\<rparr>"
  have "j = ?i \<or> (\<exists>deps. j = bumpBallot incr (setDeps ?i deps\<lparr>commitTimeout := makePreAcceptCommitTimeout now\<rparr>))"
    using assms(1) False by (auto simp: preaccept_def Let_def split: prod.splits sum.splits)
  moreover have "MaxBallot i \<le> max (MaxBallot i) (MaxBallot inst) + (if incr then 1 else 0)"
    by (rule bump_le [OF assms(2)])
  ultimately show ?thesis
    using False by (intro advances_status [of i INSTANCE_PREACCEPTED]) (auto simp: setDeps_def)
qed (use assms(1) in \<open>auto simp: preaccept_def\<close>)

lemma preaccept_deps:
  assumes "preaccept f now d i inst incr = (j, d', err)"
  shows "d' = d \<or> (\<exists>k. d' = fst (f d k))"
proof (cases "Status i > INSTANCE_PREACCEPTED")
  case False
  let ?k = "(copyAttributes i inst)\<lparr>Status := INSTANCE_PREACCEPTED\<rparr>"
  have "d' = fst (f d ?k)"
    using assms False by (cases "f d ?k") (auto simp: preaccept_def Let_def split: sum.splits)
  then show ?thesis by blast
qed (use assms in \<open>simp add: preaccept_def\<close>)

lemma accept_advances:
  assumes "accept now i inst incr = (j, err)" and "no_wrap incr (max (MaxBallot i) (MaxBallot inst))"
  shows "advances i j"
proof (cases "Status i > INSTANCE_ACCEPTED")
  case False
  then show ?thesis
    using assms(1) bump_le [OF assms(2)]
    by (intro advances_status [of i INSTANCE_ACCEPTED]) (auto simp: accept_def Let_def setDeps_def)
qed (use assms(1) in \<open>auto simp: accept_def\<close>)

lemma commit_advances:
  assumes "commit i inst incr = (j, err)" and "no_wrap incr (max (MaxBallot i) (MaxBallot inst))"
  shows "advances i j"
proof (cases "Status i > INSTANCE_COMMITTED")
  case False
  then show ?thesis
    using assms(1) bump_le [OF assms(2)]
    by (intro advances_status [of i INSTANCE_COMMITTED]) (auto simp: commit_def Let_def setDeps_def)
qed (use assms(1) in \<open>auto simp: commit_def\<close>)

lemma updateBallot_advances: "advances i (fst (updateBallot i b))"
  by (auto simp: advances_def instance_le_def updateBallot_def)

section \<open>The state changes of the manager\<close>

text \<open>Neither the known nor the given instance is about to wrap its ballot.\<close>

definition ballots_fit :: "bool \<Rightarrow> ('s, 'v) Manager \<Rightarrow> Instance \<Rightarrow> bool" where
  "ballots_fit incr m inst \<longleftrightarrow>
     no_wrap incr (MaxBallot inst) \<and>
     (\<forall>i. instances m (InstanceID inst) = Some i \<longrightarrow> no_wrap incr (MaxBallot i))"

lemma ballots_fit_False [simp]: "ballots_fit False m inst"
  by (simp add: ballots_fit_def no_wrap_def)

lemma ballots_fit_max:
  assumes "ballots_fit incr m inst" and "instances m (InstanceID inst) = Some i \<or> i = initialize inst"
  shows "no_wrap incr (max (MaxBallot i) (MaxBallot inst))"
  using assms by (auto simp: ballots_fit_def no_wrap_def max_def)

text \<open>Getting hold of an instance, changing it, and writing it back.\<close>

lemma quiet_getOrSet_put:
  assumes inv: "mgr_inv m" and get: "getOrSetInstance S m inst = (m', i, existed)"
    and adv: "advances i j"
  shows "quiet m (put_instance m' j)" and "instances (put_instance m' j) (InstanceID inst) = Some j"
    and "InstanceID j = InstanceID inst"
    and "instances m (InstanceID inst) = Some i \<or> i = initialize inst"
proof -
  have *: "quiet m m'" "instances m' = (instances m)(InstanceID inst \<mapsto> i)"
    "if existed then instances m (InstanceID inst) = Some i \<and> m' = m
      else instances m (InstanceID inst) = None \<and> i = initialize inst"
    using getOrSetInstance_spec [of S m inst] get by auto
  then show "instances m (InstanceID inst) = Some i \<or> i = initialize inst" by (auto split: if_splits)
  have i: "instances m' (InstanceID inst) = Some i" using *(2) by simp
  have iid: "InstanceID i = InstanceID inst"
    using mgr_invD(1) [OF quietD(1) [OF *(1) inv]] i by blast
  then show "InstanceID j = InstanceID inst" using advances_id [OF adv] by simp
  then show "instances (put_instance m' j) (InstanceID inst) = Some j" by simp
  show "quiet m (put_instance m' j)"
    using quiet_trans [OF *(1)] quiet_advance [OF _ adv, of m'] i iid by simp
qed

lemma preAcceptInstance_quiet:
  assumes inv: "mgr_inv m" and fit: "ballots_fit incr m inst"
  shows "quiet m (fst (preAcceptInstance S now m inst incr))"
    and "\<exists>j. instances (fst (preAcceptInstance S now m inst incr)) (InstanceID inst) = Some j"
proof -
  obtain m' i e where get: "getOrSetInstance S m inst = (m', i, e)" by (metis prod_cases3)
  obtain j d err where pre: "preaccept (getInstanceDeps S) now (depsMngr m') i inst incr = (j, d, err)"
    by (metis prod_cases3)
  have adv: "advances i j"
    by (rule preaccept_advances [OF pre ballots_fit_max [OF fit]])
      (rule quiet_getOrSet_put(4) [OF inv get advances_refl])
  have d: "dm_wf d" if "dm_wf (depsMngr m')"
    using preaccept_deps [OF pre] dm_wf_ops(1) [OF that] that by (auto simp: getInstanceDeps_def)
  have eq: "preAcceptInstance S now m inst incr = (put_instance (m'\<lparr>depsMngr := d\<rparr>) j, err)"
    by (simp add: preAcceptInstance_def get pre)
  have "put_instance (m'\<lparr>depsMngr := d\<rparr>) j = (put_instance m' j)\<lparr>depsMngr := d\<rparr>"
    by (simp add: put_instance_def)
  then show "quiet m (fst (preAcceptInstance S now m inst incr))"
    using quiet_trans [OF quiet_getOrSet_put(1) [OF inv get adv] quiet_deps] d by (simp add: eq)
  show "\<exists>j. instances (fst (preAcceptInstance S now m inst incr)) (InstanceID inst) = Some j"
    using quiet_getOrSet_put(3) [OF inv get adv] by (simp add: eq)
qed

lemma acceptInstance_quiet:
  assumes inv: "mgr_inv m" and fit: "ballots_fit incr m inst"
  shows "quiet m (fst (acceptInstance S now m inst incr))"
    and "\<exists>j. instances (fst (acceptInstance S now m inst incr)) (InstanceID inst) = Some j"
proof -
  obtain m' i e where get: "getOrSetInstance S m inst = (m', i, e)" by (metis prod_cases3)
  obtain j err where acc: "accept now i inst incr = (j, err)" by fastforce
  have adv: "advances i j"
    by (rule accept_advances [OF acc ballots_fit_max [OF fit]])
      (rule quiet_getOrSet_put(4) [OF inv get advances_refl])
  note put = quiet_getOrSet_put [OF inv get adv]
  show "quiet m (fst (acceptInstance S now m inst incr))"
    using put(1) quiet_trans [OF put(1) quiet_ReportAcknowledged]
    by (auto simp: acceptInstance_def get acc split: option.split)
  show "\<exists>j. instances (fst (acceptInstance S now m inst incr)) (InstanceID inst) = Some j"
    using put(2) by (auto simp: acceptInstance_def get acc split: option.split)
qed

lemma commitInstance_quiet:
  assumes inv: "mgr_inv m" and fit: "ballots_fit incr m inst"
  shows "quiet m (fst (commitInstance S m inst incr))"
    and "\<exists>j. instances (fst (commitInstance S m inst incr)) (InstanceID inst) = Some j"
proof -
  obtain m' i e where get: "getOrSetInstance S m inst = (m', i, e)" by (metis prod_cases3)
  obtain j err where com: "commit i inst incr = (j, err)" by fastforce
  have adv: "advances i j"
    by (rule commit_advances [OF com ballots_fit_max [OF fit]])
      (rule quiet_getOrSet_put(4) [OF inv get advances_refl])
  note put = quiet_getOrSet_put [OF inv get adv]
  show "quiet m (fst (commitInstance S m inst incr))"
    using put(1) quiet_trans [OF put(1) quiet_ReportAcknowledged]
    by (auto simp: commitInstance_def get com split: option.split)
  show "\<exists>j. instances (fst (commitInstance S m inst incr)) (InstanceID inst) = Some j"
    using put(2) by (auto simp: commitInstance_def get com split: option.split)
qed

lemma addMissing_quiet:
  "mgr_inv m \<Longrightarrow> quiet m (fst (addMissingInstancesUnsafe S m insts))"
proof (induction insts arbitrary: m)
  case (Cons inst insts)
  obtain m1 i e where get: "getOrSetInstance S m inst = (m1, i, e)" by (metis prod_cases3)
  have q1: "quiet m m1"
    and i: "if e then instances m (InstanceID inst) = Some i \<and> m1 = m
      else instances m (InstanceID inst) = None \<and> i = initialize inst"
    using getOrSetInstance_spec [of S m inst] get by auto
  note inv1 = quietD(1) [OF q1 Cons.prems]
  let ?j = "if Status i \<in> {INSTANCE_COMMITTED, INSTANCE_EXECUTED} then i\<lparr>Status := INSTANCE_COMMITTED\<rparr> else i"
  let ?m2 = "put_instance m1 ?j"
  show ?case
  proof (cases e)
    case True
    then show ?thesis using Cons.IH [OF inv1] i by (simp add: get)
  next
    case False
    have "Status i \<le> INSTANCE_COMMITTED" using i False by simp
    then have "?j = i" using status_order(3) by (auto simp: status_defs)
    then have "quiet m ?m2"
      using quiet_getOrSet_put(1) [OF Cons.prems get advances_refl] by simp
    from quiet_trans [OF this quiet_AddDependency [of ?m2 S ?j]]
    have q3: "quiet m (fst (mgr_AddDependency S ?m2 ?j))" .
    obtain m3 err where add: "mgr_AddDependency S ?m2 ?j = (m3, err)" by fastforce
    then have "quiet m m3" using q3 by simp
    moreover have "quiet m3 (fst (addMissingInstancesUnsafe S m3 insts))"
      using Cons.IH quietD(1) [OF \<open>quiet m m3\<close> Cons.prems] by blast
    ultimately have "quiet m (fst (addMissingInstancesUnsafe S m3 insts))" by (rule quiet_trans)
    then show ?thesis
      using q1 \<open>quiet m m3\<close> False
      by (simp add: get Let_def add split: option.split del: insert_iff)
  qed
qed simp

section \<open>The handlers\<close>

lemma HandlePreAccept_quiet:
  assumes inv: "mgr_inv m"
  shows "quiet m (fst (HandlePreAccept S now m request))"
proof -
  obtain m' err where pre: "preAcceptInstance S now m request False = (m', err)" by fastforce
  note q = preAcceptInstance_quiet [OF inv ballots_fit_False, where S = S and now = now and inst = request, unfolded pre fst_conv]
  obtain j where j: "instances m' (InstanceID request) = Some j" using q(2) by blast
  have iid: "InstanceID j = InstanceID request" using mgr_invD(1) [OF quietD(1) [OF q(1) inv] j] .
  have "quiet m (put_instance m' (j\<lparr>DependencyMatch := b\<rparr>))" for b
    by (rule quiet_trans [OF q(1) quiet_advance [of m' j]])
      (use j iid in \<open>auto simp: advances_def instance_le_def\<close>)
  then show ?thesis
    using q(1)
    by (auto simp: HandlePreAccept_def Let_def pre imap_Get_def j split: option.split)
qed

lemma HandleAccept_quiet:
  assumes inv: "mgr_inv m"
  shows "quiet m (fst (HandleAccept S now m request missing))"
proof -
  let ?r = "if length missing > 0 then addMissingInstancesUnsafe S m missing else (m, Ret ())"
  obtain m1 out where r: "?r = (m1, out)" by fastforce
  have q1: "quiet m m1" using r addMissing_quiet [OF inv, of S missing] by (auto split: if_splits)
  obtain m2 err where acc: "acceptInstance S now m1 request False = (m2, err)" by fastforce
  have "quiet m m2"
    using quiet_trans [OF q1 acceptInstance_quiet(1) [OF quietD(1) [OF q1 inv] ballots_fit_False, where S = S and now = now and inst = request]]
    by (simp add: acc)
  then show ?thesis
    using q1 unfolding HandleAccept_def r by (cases out) (auto simp: acc Let_def split: option.split)
qed

lemma HandleCommit_quiet:
  assumes inv: "mgr_inv m"
  shows "quiet m (fst (HandleCommit S m request))"
  using commitInstance_quiet(1) [OF inv ballots_fit_False, where S = S and inst = request]
  by (auto simp: HandleCommit_def split_beta)

lemma HandlePrepare_quiet:
  assumes inv: "mgr_inv m"
  shows "quiet m (fst (HandlePrepare m ballot iid))"
proof (cases "instances m iid")
  case (Some i)
  have "InstanceID i = iid" using mgr_invD(1) [OF inv Some] .
  then have "quiet m (put_instance m (fst (updateBallot i ballot)))"
    using Some quiet_advance [of m i, OF _ updateBallot_advances] by simp
  then show ?thesis
    by (simp add: HandlePrepare_def getInstance_def imap_Get_def Some Let_def)
qed (simp add: HandlePrepare_def getInstance_def imap_Get_def)

lemma HandleMessage_quiet:
  "mgr_inv m \<Longrightarrow> quiet m (fst (HandleMessage S now m msg))"
  by (cases msg) (simp_all add: HandlePreAccept_quiet HandleAccept_quiet HandleCommit_quiet
      HandlePrepare_quiet)

lemma getInstanceDeps_ok:
  assumes "dm_wf d" and "st_InterferingKeys S (Command i) \<noteq> []"
  shows "\<exists>d' deps. getInstanceDeps S d i = (d', Inr deps) \<and> dm_wf d'"
proof -
  obtain k ks where keys: "interferingKeys S i = k # ks"
    using assms(2) by (metis interferingKeys_def neq_Nil_conv)
  then show ?thesis
    using dm_GetAndSetDeps_upd [OF assms(1), of k ks i] dm_wf_ops(1) [OF assms(1), of "k # ks" i]
    by (auto simp: getInstanceDeps_def)
qed

text \<open>Preaccepting an instance that is new to the replica keeps the ballot of the message.\<close>

lemma preAcceptInstance_new:
  assumes inv: "mgr_inv m" and new: "instances m (InstanceID req) = None"
    and keys: "st_InterferingKeys S (Command req) \<noteq> []"
    and pre: "preAcceptInstance S now m req False = (m', err)"
  shows "err \<noteq> None \<longrightarrow> is_InvalidStatusUpdateError (the err)"
    and "instances m' (InstanceID req) = Some j \<Longrightarrow> MaxBallot j = MaxBallot req"
proof -
  obtain m1 where get: "getOrSetInstance S m req = (m1, initialize req, False)" "quiet m m1"
    using getOrSetInstance_new [OF new] by blast
  let ?i = "(copyAttributes (initialize req) req)\<lparr>Status := INSTANCE_PREACCEPTED\<rparr>"
  have "dm_wf (depsMngr m1)" using mgr_invD(5) [OF quietD(1) [OF get(2) inv]] .
  then obtain d deps where "getInstanceDeps S (depsMngr m1) ?i = (d, Inr deps)"
    using getInstanceDeps_ok [of "depsMngr m1" S ?i] keys by auto
  then show "err \<noteq> None \<longrightarrow> is_InvalidStatusUpdateError (the err)"
    "instances m' (InstanceID req) = Some j \<Longrightarrow> MaxBallot j = MaxBallot req"
    using pre by (auto simp: preAcceptInstance_def get preaccept_def Let_def setDeps_def split: if_splits)
qed

text \<open>A replica that handles a sequence of messages.\<close>

definition handle_all ::
    "('s, 'v) Store \<Rightarrow> (Time \<times> consensus_msg) list \<Rightarrow> ('s, 'v) Manager \<Rightarrow> ('s, 'v) Manager" where
  "handle_all S msgs m = fold (\<lambda>(now, msg) m. fst (HandleMessage S now m msg)) msgs m"

lemma handle_all_quiet: "mgr_inv m \<Longrightarrow> quiet m (handle_all S msgs m)"
proof (induction msgs arbitrary: m)
  case (Cons a msgs)
  obtain now msg where a: "a = (now, msg)" by (cases a)
  note q = HandleMessage_quiet [OF Cons.prems, of S now msg]
  from quiet_trans [OF q Cons.IH [OF quietD(1) [OF q Cons.prems]]] show ?case
    by (simp add: handle_all_def a)
qed (simp add: handle_all_def)

section \<open>Properties\<close>

text \<open>
  C9: handling messages only moves a replica forward.  Whatever messages arrive, in whatever
  order, the invariant is kept, no known instance is forgotten, its status and its ballot
  never decrease, its command stays, an executed instance keeps its dependencies for good,
  and neither the store nor the list of executed instances changes.
\<close>

theorem handlers_monotone:
  assumes "mgr_inv m"
  shows "mgr_inv (handle_all S msgs m) \<and> store (handle_all S msgs m) = store m \<and>
    executed (handle_all S msgs m) = executed m \<and>
    (\<forall>iid i. instances m iid = Some i \<longrightarrow>
      (\<exists>j. instances (handle_all S msgs m) iid = Some j \<and> Command j = Command i \<and>
        Status i \<le> Status j \<and> MaxBallot i \<le> MaxBallot j \<and>
        (Status i = INSTANCE_EXECUTED \<longrightarrow>
          Status j = INSTANCE_EXECUTED \<and> Dependencies j = Dependencies i)))"
  using quietD [OF handle_all_quiet [OF assms, of S msgs]] assms
  unfolding mgr_le_def instance_le_def by fastforce

text \<open>A store that accepts every instruction, and a manager on it.\<close>

definition ex_store :: "(unit, unit) Store" where
  "ex_store = \<lparr>st_ExecuteInstruction = (\<lambda>s i. (s, Ret None)), st_InterferingKeys = (\<lambda>i. [Key i])\<rparr>"

definition ex_manager :: "(unit, unit) Manager" where
  "ex_manager = NewManager (NewTopology \<lparr>b0 = 0, b1 = 1\<rparr> ''DC1'' string_bytes 3) ()"

lemma ex_manager_facts:
  "mgr_inv ex_manager" "instances ex_manager iid = None" "executed ex_manager = []"
  "store ex_manager = ()" "delivered ex_manager = []" "st_InterferingKeys ex_store i = [Key i]"
  by (simp_all add: ex_manager_def mgr_inv_New ex_store_def)
    (simp_all add: NewManager_def NewInstanceMap_def)

theorem handlers_monotone_witness:
  "mgr_inv (handle_all ex_store [(zero_Time, PreAcceptRequest ex_instance)] ex_manager) \<and>
   executed (handle_all ex_store [(zero_Time, PreAcceptRequest ex_instance)] ex_manager) = []"
  using handlers_monotone [of ex_manager ex_store "[(zero_Time, PreAcceptRequest ex_instance)]"]
    ex_manager_facts by simp


definition ex_manager1 :: "(unit, unit) Manager" where
  "ex_manager1 = put_instance ex_manager ex_instance"

lemma ex_manager1_inv: "mgr_inv ex_manager1"
proof -
  have "quiet ex_manager ex_manager1"
    unfolding ex_manager1_def
    by (rule quiet_new) (simp_all add: ex_manager_facts ex_instance_def status_defs)
  then show ?thesis using quietD(1) ex_manager_facts by blast
qed


text \<open>
  A prepare for an instance that the replica has never seen is accepted but not
  remembered: the state does not change, so a later preaccept with a lower ballot is not
  rejected.
\<close>

theorem unknown_prepare_not_remembered:
  assumes "mgr_inv m" and "instances m iid = None" and "InstanceID req = iid"
    and "st_InterferingKeys S (Command req) \<noteq> []"
  shows "HandlePrepare m ballot iid = (m, Ret \<lparr>p_Accepted = True, p_Instance = None\<rparr>) \<and>
    (\<exists>m' resp. HandlePreAccept S now m req = (m', Ret resp) \<and> pa_Accepted resp \<and>
      pa_MaxBallot resp = MaxBallot req)"
proof -
  obtain m' err where pre: "preAcceptInstance S now m req False = (m', err)" by fastforce
  obtain j where j: "instances m' iid = Some j"
    using preAcceptInstance_quiet(2) [OF assms(1) ballots_fit_False, where S = S and now = now and inst = req]
      pre assms(3) by auto
  have "MaxBallot j = MaxBallot req" and "err \<noteq> None \<longrightarrow> is_InvalidStatusUpdateError (the err)"
    using preAcceptInstance_new [OF assms(1) _ assms(4) pre] assms(2,3) j by auto
  moreover have "instances m (InstanceID req) = None" using assms(2,3) by simp
  ultimately show ?thesis
    using assms(2,3) j
    by (auto simp: HandlePreAccept_def HandlePrepare_def getInstance_def imap_Get_def pre Let_def
        Instance_Copy_alt split: option.splits)
qed

theorem unknown_prepare_not_remembered_witness:
  "HandlePrepare ex_manager 9 (InstanceID ex_instance) =
     (ex_manager, Ret \<lparr>p_Accepted = True, p_Instance = None\<rparr>) \<and>
   (\<exists>m' resp. HandlePreAccept ex_store zero_Time ex_manager (ex_instance\<lparr>MaxBallot := 1\<rparr>) = (m', Ret resp) \<and>
      pa_Accepted resp \<and> pa_MaxBallot resp = 1)"
  using unknown_prepare_not_remembered [of ex_manager "InstanceID ex_instance" "ex_instance\<lparr>MaxBallot := 1\<rparr>"
      ex_store 9 zero_Time] ex_manager_facts by simp

lemma status_top:
  "s \<le> INSTANCE_EXECUTED \<Longrightarrow> s > INSTANCE_COMMITTED \<longleftrightarrow> s = INSTANCE_EXECUTED"
  by (auto simp: status_defs word_le_nat_alt word_less_nat_alt word_unat_eq_iff)

lemma ReportAcknowledged_ok:
  assumes "st_InterferingKeys S (Command i) \<noteq> []"
  shows "snd (mgr_ReportAcknowledged S m i) = None"
proof -
  obtain k ks where "interferingKeys S i = k # ks"
    using assms by (metis interferingKeys_def neq_Nil_conv)
  then show ?thesis
    using dm_ReportAcknowledged_upd [of "depsMngr m" k ks i] by (auto simp: mgr_ReportAcknowledged_def)
qed

text \<open>
  A commit always wins over an instance that is not executed yet.  It makes the
  instance committed with the dependencies and the no-op flag of the message, whatever the
  ballots are and even if the instance had been committed with other dependencies before;
  an executed instance is left alone.
\<close>

theorem commit_overwrites:
  assumes "mgr_inv m" and "instances m (InstanceID req) = Some i"
    and "st_InterferingKeys S (Command i) \<noteq> []"
  shows "\<exists>m' j. HandleCommit S m req = (m', Ret ()) \<and> instances m' (InstanceID req) = Some j \<and>
    (if Status i = INSTANCE_EXECUTED then j = i
     else Status j = INSTANCE_COMMITTED \<and> Dependencies j = Dependencies req \<and> Noop j = Noop req \<and>
       MaxBallot j = max (MaxBallot i) (MaxBallot req))"
proof -
  obtain j err where com: "commit i req False = (j, err)" by fastforce
  note get = getOrSetInstance_existing [OF assms(2), of S]
  have adv: "advances i j" by (rule commit_advances [OF com]) (simp add: no_wrap_def)
  have iid: "InstanceID j = InstanceID req"
    using advances_id [OF adv] mgr_invD(1) [OF assms(1,2)] by simp
  have keys: "snd (mgr_ReportAcknowledged S (put_instance m j) j) = None"
    by (rule ReportAcknowledged_ok) (use assms(3) adv in \<open>simp add: advances_def instance_le_def\<close>)
  have "Status i > INSTANCE_COMMITTED \<longleftrightarrow> Status i = INSTANCE_EXECUTED"
    by (rule status_top [OF mgr_invD(2) [OF assms(1,2)]])
  moreover obtain m' where "mgr_ReportAcknowledged S (put_instance m j) j = (m', None)"
      "instances m' = (instances m)(InstanceID j \<mapsto> j)"
    using keys instances_mgr_deps(2) [of S "put_instance m j" j] by (metis prod.collapse put_instance_fields(1))
  ultimately show ?thesis
    using com iid assms(2)
    by (cases "Status i > INSTANCE_COMMITTED")
      (auto simp: HandleCommit_def commitInstance_def get commit_def Let_def setDeps_def)
qed

theorem commit_overwrites_witness:
  "\<exists>m' j. HandleCommit ex_store ex_manager1 (ex_instance\<lparr>Dependencies := [], MaxBallot := 0\<rparr>) = (m', Ret ()) \<and>
     instances m' (InstanceID ex_instance) = Some j \<and> Dependencies j = [] \<and> Status j = INSTANCE_COMMITTED"
proof -
  have "instances ex_manager1 (InstanceID ex_instance) = Some ex_instance" by (simp add: ex_manager1_def)
  moreover have "Status ex_instance \<noteq> INSTANCE_EXECUTED" by (simp add: ex_instance_def status_defs)
  ultimately show ?thesis
    using commit_overwrites [OF ex_manager1_inv, of "ex_instance\<lparr>Dependencies := [], MaxBallot := 0\<rparr>"
        ex_instance ex_store] by (auto simp: ex_manager_facts)
qed

lemma set_missing_instances:
  "set (missing_instances m ids) = {Instance_Copy j | j d. d \<in> set ids \<and> instances m d = Some j}"
proof -
  have "set (fold (\<lambda>iid l. case imap_Get (instances m) iid of None \<Rightarrow> l | Some inst \<Rightarrow> l @ [Instance_Copy inst]) ids l) =
      set l \<union> {Instance_Copy j | j d. d \<in> set ids \<and> instances m d = Some j}" for l
    by (induction ids arbitrary: l) (auto simp: imap_Get_def split: option.splits)
  then show ?thesis by (simp add: missing_instances_def)
qed

text \<open>
  What an accepting preaccept reply says.  It carries a copy of the instance the replica
  stored, flags whether the replica's dependencies are those of the leader, and sends along
  exactly the known instances among the dependencies the leader lacks.
\<close>

theorem preaccept_reply:
  assumes "mgr_inv m" and "HandlePreAccept S now m req = (m', Ret r)" and "pa_Accepted r"
  shows "\<exists>i. instances m' (InstanceID req) = Some i \<and> pa_Instance r = Instance_Copy i \<and>
    pa_MaxBallot r = MaxBallot i \<and>
    (DependencyMatch i \<longleftrightarrow> set (Dependencies i) = set (Dependencies req)) \<and>
    set (pa_MissingInstances r) =
      {Instance_Copy j | j d. d \<in> set (Dependencies i) - set (Dependencies req) \<and> instances m' d = Some j}"
proof -
  obtain m1 err where pre: "preAcceptInstance S now m req False = (m1, err)" by fastforce
  obtain j where j: "instances m1 (InstanceID req) = Some j"
    using preAcceptInstance_quiet(2) [OF assms(1) ballots_fit_False, where S = S and now = now and inst = req]
      pre by auto
  let ?i = "j\<lparr>DependencyMatch := idset_Equal (NewInstanceIDSet (Dependencies req)) (NewInstanceIDSet (Dependencies j))\<rparr>"
  have iid: "InstanceID j = InstanceID req"
    using mgr_invD(1) [OF quietD(1) [OF preAcceptInstance_quiet(1) [OF assms(1) ballots_fit_False,
      where S = S and now = now and inst = req] assms(1)]] pre j by auto
  have r: "m' = put_instance m1 ?i \<and> pa_Instance r = Instance_Copy ?i \<and>
      pa_MaxBallot r = MaxBallot (Instance_Copy ?i) \<and>
      pa_MissingInstances r = missing_instances m' (idset_Difference (NewInstanceIDSet (Dependencies j))
        (NewInstanceIDSet (Dependencies req)))"
    using assms(2,3) j
    by (auto simp: HandlePreAccept_def imap_Get_def pre Let_def split: option.splits if_splits)
  then show ?thesis
    using iid by (intro exI [of _ ?i])
      (auto simp: set_missing_instances idset_Equal_iff Instance_Copy_alt)
qed

theorem preaccept_reply_witness:
  "\<exists>m' r. HandlePreAccept ex_store zero_Time ex_manager ex_instance = (m', Ret r) \<and> pa_Accepted r \<and>
     (\<exists>i. instances m' (InstanceID ex_instance) = Some i \<and> pa_Instance r = Instance_Copy i)"
proof -
  obtain m' r where "HandlePreAccept ex_store zero_Time ex_manager ex_instance = (m', Ret r)" "pa_Accepted r"
    by (auto simp: HandlePreAccept_def preAcceptInstance_def getOrSetInstance_def imap_GetOrSet_def
        imap_Get_def ex_manager_facts Let_def initialize_def preaccept_def ex_instance_def
        status_defs mgr_AddDependency_def split_beta)
  then show ?thesis using preaccept_reply [OF ex_manager_facts(1)] by blast
qed

end
