(* ===== verification/Phases.thy ===== *)
theory Phases
  imports ManagerInv
begin

text \<open>
  The phases that a leader runs (\<^verbatim>\<open>managerPreAcceptPhase\<close>, \<^verbatim>\<open>managerAcceptPhase\<close>,
  \<^verbatim>\<open>managerCommitPhase\<close> of \<^verbatim>\<open>consensus/manager_preaccept.go\<close>,
  \<^verbatim>\<open>manager_accept.go\<close> and \<^verbatim>\<open>manager_commit.go\<close>).

  A phase sends requests and then waits.  What happens while it waits is a schedule, a list
  of events: a response arrives, a request fails, the timer fires, the commit event of the
  instance is broadcast, a lock is granted, or another goroutine of the replica changes the
  manager.  Between two waits a goroutine is not interrupted.  A phase takes the manager and the
  schedule to an outcome, the manager and the rest of the schedule; a phase that still waits
  at the end of the schedule has no result.
\<close>

named_theorems safe_intros \<open>phases that keep the invariant\<close>

section \<open>Schedules and processes\<close>

datatype ('s, 'v) event =
    Recv consensus_msg
  | SendError
  | Timeout
  | CommitEvent
  | Locked
  | Env "('s, 'v) Manager \<Rightarrow> ('s, 'v) Manager"

type_synonym ('s, 'v) schedule = "('s, 'v) event list"

type_synonym ('s, 'v, 'a) proc =
  "('s, 'v) Manager \<Rightarrow> ('s, 'v) schedule \<Rightarrow> ('a outcome \<times> ('s, 'v) Manager \<times> ('s, 'v) schedule) option"

definition preturn :: "'a \<Rightarrow> ('s, 'v, 'a) proc" where
  "preturn a m es = Some (Ret a, m, es)"

definition pfail :: "error \<Rightarrow> ('s, 'v, 'a) proc" where
  "pfail e m es = Some (Err e, m, es)"

definition pbind :: "('s, 'v, 'a) proc \<Rightarrow> ('a \<Rightarrow> ('s, 'v, 'b) proc) \<Rightarrow> ('s, 'v, 'b) proc" where
  "pbind p f m es =
     (case p m es of
        None \<Rightarrow> None
      | Some (Ret a, m, es) \<Rightarrow> f a m es
      | Some (Err e, m, es) \<Rightarrow> Some (Err e, m, es)
      | Some (Panic x, m, es) \<Rightarrow> Some (Panic x, m, es))"

definition pcatch :: "('s, 'v, 'a) proc \<Rightarrow> (error \<Rightarrow> ('s, 'v, 'a) proc) \<Rightarrow> ('s, 'v, 'a) proc" where
  "pcatch p h m es =
     (case p m es of Some (Err e, m, es) \<Rightarrow> h e m es | r \<Rightarrow> r)"

text \<open>Reading the manager, a step of the manager, and a step that may panic.\<close>

definition pget :: "(('s, 'v) Manager \<Rightarrow> 'a) \<Rightarrow> ('s, 'v, 'a) proc" where
  "pget f m es = Some (Ret (f m), m, es)"

definition pstep :: "(('s, 'v) Manager \<Rightarrow> ('s, 'v) Manager \<times> error option) \<Rightarrow> ('s, 'v, unit) proc" where
  "pstep f m es =
     (case f m of (m, None) \<Rightarrow> Some (Ret (), m, es) | (m, Some e) \<Rightarrow> Some (Err e, m, es))"

definition pout :: "(('s, 'v) Manager \<Rightarrow> ('s, 'v) Manager \<times> 'a outcome) \<Rightarrow> ('s, 'v, 'a) proc" where
  "pout f m es = (case f m of (m, r) \<Rightarrow> Some (r, m, es))"

text \<open>A pointer to an instance of the map, and writing through it.\<close>

definition pderef :: "InstanceID \<Rightarrow> ('s, 'v, Instance) proc" where
  "pderef iid m es =
     (case imap_Get (instances m) iid of
        None \<Rightarrow> Some (Panic ''nil pointer dereference'', m, es)
      | Some i \<Rightarrow> Some (Ret i, m, es))"

definition pput :: "Instance \<Rightarrow> ('s, 'v, unit) proc" where
  "pput i m es = Some (Ret (), put_instance m i, es)"

definition psend :: "Node list \<Rightarrow> consensus_msg \<Rightarrow> ('s, 'v, unit) proc" where
  "psend replicas msg m es =
     Some (Ret (), m\<lparr>outbox := outbox m @ map (\<lambda>n. (node_id n, msg)) replicas\<rparr>, es)"

text \<open>\<open>clock\<close> is the time at a point of the schedule.\<close>

type_synonym ('s, 'v) clock = "('s, 'v) schedule \<Rightarrow> Time"

definition pnow :: "('s, 'v) clock \<Rightarrow> ('s, 'v, Time) proc" where
  "pnow clock m es = Some (Ret (clock es), m, es)"

section \<open>Waiting for a quorum\<close>

text \<open>
  The node itself counts as a response.  \<open>replicas\<close> does not contain the node itself.
\<close>

definition quorumSize :: "nat \<Rightarrow> nat" where
  "quorumSize replicas = replicas div 2 + 1"

text \<open>
  The receive loop.  \<open>sel\<close> is the type assertion of \<^verbatim>\<open>sendMsg\<close>: other responses are
  logged and dropped, as are errors.
\<close>

fun await :: "(consensus_msg \<Rightarrow> 'r option) \<Rightarrow> string \<Rightarrow> nat \<Rightarrow> nat \<Rightarrow> 'r list \<Rightarrow> ('s, 'v, 'r list) proc" where
  "await sel msg quorum numReceived responses m [] =
     (if numReceived < quorum then None else Some (Ret responses, m, []))"
| "await sel msg quorum numReceived responses m (e # es) =
     (if numReceived < quorum then
        (case e of
           Recv r \<Rightarrow>
             (case sel r of
                Some response \<Rightarrow> await sel msg quorum (numReceived + 1) (responses @ [response]) m es
              | None \<Rightarrow> await sel msg quorum numReceived responses m es)
         | Timeout \<Rightarrow> Some (Err (TimeoutError msg), m, es)
         | Env f \<Rightarrow> await sel msg quorum numReceived responses (f m) es
         | _ \<Rightarrow> await sel msg quorum numReceived responses m es)
      else Some (Ret responses, m, e # es))"

fun sel_PreAcceptResponse :: "consensus_msg \<Rightarrow> PreAcceptResponse option" where
  "sel_PreAcceptResponse (PreAcceptResp r) = Some r"
| "sel_PreAcceptResponse _ = None"

fun sel_AcceptResponse :: "consensus_msg \<Rightarrow> AcceptResponse option" where
  "sel_AcceptResponse (AcceptResp r) = Some r"
| "sel_AcceptResponse _ = None"

section \<open>The preaccept phase\<close>

definition sendPreAccept ::
    "InstanceID \<Rightarrow> Node list \<Rightarrow> ('s, 'v, PreAcceptResponse list) proc" where
  "sendPreAccept iid replicas =
     pbind (pderef iid) (\<lambda>instance.
     pbind (psend replicas (PreAcceptRequest (Instance_Copy instance))) (\<lambda>_.
     pbind (await sel_PreAcceptResponse ''Timeout while awaiting pre accept responses''
              (quorumSize (length replicas)) 1 []) (\<lambda>responses.
       let accepted = fold (\<lambda>r accepted. accepted \<and> pa_Accepted r) responses True
       in if \<not> accepted
          then pbind (pderef iid) (\<lambda>instance.
               pbind (pstep (\<lambda>m. (updateInstanceBallotFromResponses m instance (map pa_MaxBallot responses), None))) (\<lambda>_.
               pfail (BallotError ''Ballot number rejected'')))
          else preturn responses)))"

fun merge_loop :: "InstanceID \<Rightarrow> PreAcceptResponse list \<Rightarrow> bool \<Rightarrow> ('s, 'v, bool \<times> error option) proc" where
  "merge_loop iid [] changes = preturn (changes, None)"
| "merge_loop iid (response # responses) changes =
     pbind (pderef iid) (\<lambda>instance.
       case mergeAttributes instance (Dependencies (pa_Instance response)) of
         (instance, Inl err) \<Rightarrow> pbind (pput instance) (\<lambda>_. preturn (changes, Some err))
       | (instance, Inr mergeChanges) \<Rightarrow>
           pbind (pput instance) (\<lambda>_. merge_loop iid responses (changes \<or> mergeChanges)))"

definition mergePreAcceptAttributes ::
    "InstanceID \<Rightarrow> PreAcceptResponse list \<Rightarrow> ('s, 'v, bool \<times> error option) proc" where
  "mergePreAcceptAttributes iid responses = merge_loop iid responses False"

fun add_missing_loop :: "('s, 'v) Store \<Rightarrow> PreAcceptResponse list \<Rightarrow> ('s, 'v, unit) proc" where
  "add_missing_loop S [] = preturn ()"
| "add_missing_loop S (response # responses) =
     pbind (if length (pa_MissingInstances response) > 0
            then pout (\<lambda>m. addMissingInstancesUnsafe S m (pa_MissingInstances response))
            else preturn ()) (\<lambda>_. add_missing_loop S responses)"

text \<open>An error that the instance has a higher status already is passed over.\<close>

definition skip_invalid_status :: "('s, 'v, unit) proc \<Rightarrow> ('s, 'v, unit) proc" where
  "skip_invalid_status p =
     pcatch p (\<lambda>err. if \<not> is_InvalidStatusUpdateError err then pfail err else preturn ())"

definition managerPreAcceptPhase ::
    "('s, 'v) Store \<Rightarrow> ('s, 'v) clock \<Rightarrow> Instance \<Rightarrow> ('s, 'v, bool \<times> error option) proc" where
  "managerPreAcceptPhase S clock inst =
     pcatch
       (pbind (pget (\<lambda>m. getInstanceReplicas m inst)) (\<lambda>replicas.
        pbind (pnow clock) (\<lambda>now.
        pbind (skip_invalid_status (pstep (\<lambda>m. preAcceptInstance S now m inst True))) (\<lambda>_.
        pbind (sendPreAccept (InstanceID inst) replicas) (\<lambda>paResponses.
        pbind (add_missing_loop S paResponses) (\<lambda>_.
        mergePreAcceptAttributes (InstanceID inst) paResponses))))))
       (\<lambda>err. preturn (False, Some err))"

section \<open>The accept phase\<close>

definition sendAccept :: "InstanceID \<Rightarrow> Node list \<Rightarrow> ('s, 'v, unit) proc" where
  "sendAccept iid replicas =
     pbind (pderef iid) (\<lambda>instance.
     pbind (psend replicas (AcceptRequest (Instance_Copy instance) [])) (\<lambda>_.
     pbind (await sel_AcceptResponse ''Timeout while awaiting accept responses''
              (quorumSize (length replicas)) 1 []) (\<lambda>responses.
       let accepted = fold (\<lambda>r accepted. accepted \<and> a_Accepted r) responses True
       in if \<not> accepted
          then pbind (pderef iid) (\<lambda>instance.
               pbind (pstep (\<lambda>m. (updateInstanceBallotFromResponses m instance (map a_MaxBallot responses), None))) (\<lambda>_.
               pfail (BallotError ''Ballot number rejected'')))
          else preturn ())))"

definition managerAcceptPhase ::
    "('s, 'v) Store \<Rightarrow> ('s, 'v) clock \<Rightarrow> Instance \<Rightarrow> ('s, 'v, unit) proc" where
  "managerAcceptPhase S clock inst =
     pbind (pget (\<lambda>m. getInstanceReplicas m inst)) (\<lambda>replicas.
     pbind (pnow clock) (\<lambda>now.
     pbind (skip_invalid_status (pstep (\<lambda>m. acceptInstance S now m inst True))) (\<lambda>_.
     sendAccept (InstanceID inst) replicas)))"

section \<open>The commit phase\<close>

definition sendCommit :: "InstanceID \<Rightarrow> Node list \<Rightarrow> ('s, 'v, unit) proc" where
  "sendCommit iid replicas =
     pbind (pderef iid) (\<lambda>instance. psend replicas (CommitRequest (Instance_Copy instance)))"

definition managerCommitPhase :: "('s, 'v) Store \<Rightarrow> Instance \<Rightarrow> ('s, 'v, unit) proc" where
  "managerCommitPhase S inst =
     pbind (pget (\<lambda>m. getInstanceReplicas m inst)) (\<lambda>replicas.
     pbind (skip_invalid_status (pstep (\<lambda>m. commitInstance S m inst True))) (\<lambda>_.
     sendCommit (InstanceID inst) replicas))"

section \<open>Growth\<close>

text \<open>
  A leader increments ballots, and a ballot at its maximum wraps around, so for the phases the
  order on managers leaves ballots out.
\<close>

definition instance_grows :: "Instance \<Rightarrow> Instance \<Rightarrow> bool" where
  "instance_grows i j \<longleftrightarrow> instance_le (i\<lparr>MaxBallot := 0\<rparr>) (j\<lparr>MaxBallot := 0\<rparr>)"

definition step_ok :: "('s, 'v) Manager \<Rightarrow> ('s, 'v) Manager \<Rightarrow> bool" where
  "step_ok m m' \<longleftrightarrow>
     (mgr_inv m \<longrightarrow> mgr_inv m' \<and>
        (\<forall>iid i. instances m iid = Some i \<longrightarrow> (\<exists>j. instances m' iid = Some j \<and> instance_grows i j)) \<and>
        prefix (executed m) (executed m') \<and> prefix (outbox m) (outbox m') \<and>
        topology m' = topology m \<and> nodeID m' = nodeID m)"

lemma instance_grows_trans: "instance_grows i j \<Longrightarrow> instance_grows j k \<Longrightarrow> instance_grows i k"
  unfolding instance_grows_def by (rule instance_le_trans)

lemma instance_le_grows: "instance_le i j \<Longrightarrow> instance_grows i j"
  by (simp add: instance_grows_def instance_le_def)

lemma instance_grows_fields:
  "instance_grows i j \<Longrightarrow> InstanceID j = InstanceID i \<and> Command j = Command i \<and> Status i \<le> Status j \<and>
     ReadOnly j = ReadOnly i \<and> ResultListeners j = ResultListeners i"
  by (simp add: instance_grows_def instance_le_def)

lemma step_okD:
  assumes "step_ok m m'" and "mgr_inv m"
  shows "mgr_inv m'" and "instances m iid = Some i \<Longrightarrow> \<exists>j. instances m' iid = Some j \<and> instance_grows i j"
    and "prefix (executed m) (executed m')" and "prefix (outbox m) (outbox m')" and "topology m' = topology m" and "nodeID m' = nodeID m"
  using assms by (auto simp: step_ok_def)

lemma step_ok_refl [simp]: "step_ok m m"
  by (auto simp: step_ok_def instance_grows_def)

lemma step_ok_trans:
  assumes "step_ok m m'" and "step_ok m' m''"
  shows "step_ok m m''"
  unfolding step_ok_def
proof (intro impI conjI allI)
  assume inv: "mgr_inv m"
  note 1 = step_okD [OF assms(1) inv] and 2 = step_okD [OF assms(2) step_okD(1) [OF assms(1) inv]]
  show "mgr_inv m''" "topology m'' = topology m" "nodeID m'' = nodeID m" using 1 2 by simp_all
  show "prefix (executed m) (executed m'')" using 1(3) 2(3) by (rule prefix_order.trans)
  show "prefix (outbox m) (outbox m'')" using 1(4) 2(4) by (rule prefix_order.trans)
  show "\<exists>j. instances m'' iid = Some j \<and> instance_grows i j" if "instances m iid = Some i" for iid i
    using 1(2) [OF that] 2(2) instance_grows_trans by blast
qed

lemma quiet_step_ok: "quiet m m' \<Longrightarrow> step_ok m m'"
  unfolding quiet_def step_ok_def mgr_le_def using instance_le_grows by fastforce

text \<open>Changing one instance, its ballot at will.\<close>

definition moves :: "Instance \<Rightarrow> Instance \<Rightarrow> bool" where
  "moves i j \<longleftrightarrow> advances (i\<lparr>MaxBallot := 0\<rparr>) (j\<lparr>MaxBallot := 0\<rparr>)"

lemma advances_moves: "advances i j \<Longrightarrow> moves i j"
  by (simp add: moves_def advances_def instance_le_def)

lemma moves_refl [simp]: "moves i i"
  by (simp add: moves_def)

lemma moves_id: "moves i j \<Longrightarrow> InstanceID j = InstanceID i"
  using advances_id unfolding moves_def by fastforce

lemma ex_upd: "(\<exists>i. (f(x \<mapsto> a)) k = Some i \<and> P i) \<longleftrightarrow> (if k = x then P a else (\<exists>i. f k = Some i \<and> P i))"
  by simp

lemma all_upd:
  "(\<forall>k i. (f(x \<mapsto> a)) k = Some i \<longrightarrow> P k i) \<longleftrightarrow> P x a \<and> (\<forall>k i. k \<noteq> x \<longrightarrow> f k = Some i \<longrightarrow> P k i)"
  by auto

lemma mgr_inv_put_ballot: "mgr_inv (put_instance m (j\<lparr>MaxBallot := b\<rparr>)) \<longleftrightarrow> mgr_inv (put_instance m j)"
proof -
  have "{k. \<exists>i. instances (put_instance m (j\<lparr>MaxBallot := b\<rparr>)) k = Some i \<and> Status i = INSTANCE_EXECUTED} =
      {k. \<exists>i. instances (put_instance m j) k = Some i \<and> Status i = INSTANCE_EXECUTED}"
    unfolding put_instance_fields ex_upd by simp
  then show ?thesis unfolding mgr_inv_def put_instance_fields all_upd by simp
qed

lemma step_ok_ballot: "step_ok (put_instance m (j\<lparr>MaxBallot := b\<rparr>)) (put_instance m j)"
  unfolding step_ok_def mgr_inv_put_ballot put_instance_fields all_upd
  by (simp add: instance_grows_def)

lemma step_ok_move:
  assumes "instances m (InstanceID i) = Some i" and "moves i j"
  shows "step_ok m (put_instance m j)"
proof -
  have id: "InstanceID j = InstanceID i" using moves_id assms(2) by blast
  let ?k = "j\<lparr>MaxBallot := MaxBallot i\<rparr>"
  have "advances i ?k" using assms(2) by (simp add: moves_def advances_def instance_le_def)
  then have q: "quiet m (put_instance m ?k)" by (rule quiet_advance [OF assms(1)])
  have "step_ok (put_instance m ?k) (put_instance m j)"
    by (rule step_ok_ballot)
  then show ?thesis using step_ok_trans quiet_step_ok [OF q] by blast
qed

lemma bump_moves: "moves i (j\<lparr>MaxBallot := b\<rparr>) \<longleftrightarrow> moves i j"
  by (simp add: moves_def)

lemma moves_bumpBallot [simp]: "moves i (bumpBallot incr j) \<longleftrightarrow> moves i j"
  by (simp add: bumpBallot_def bump_moves)

text \<open>The state changes of an instance, with or without an increment.\<close>

lemma preaccept_moves:
  assumes "preaccept f now d i inst incr = (j, d', err)"
  shows "moves i j"
proof -
  obtain j' where "preaccept f now d i inst False = (j', d', err)" "j = j' \<or> j = bumpBallot incr j'"
    using assms by (auto simp: preaccept_def Let_def bumpBallot_def split: if_splits prod.splits sum.splits)
  then show ?thesis
    using advances_moves [OF preaccept_advances [of f now d i inst False]] by (auto simp: no_wrap_def)
qed

lemma accept_moves:
  assumes "accept now i inst incr = (j, err)"
  shows "moves i j"
proof -
  obtain j' where "accept now i inst False = (j', err)" "j = j' \<or> j = bumpBallot incr j'"
    using assms by (auto simp: accept_def Let_def bumpBallot_def split: if_splits)
  then show ?thesis
    using advances_moves [OF accept_advances [of now i inst False]] by (auto simp: no_wrap_def)
qed

lemma commit_moves:
  assumes "commit i inst incr = (j, err)"
  shows "moves i j"
proof -
  obtain j' where "commit i inst False = (j', err)" "j = j' \<or> j = bumpBallot incr j'"
    using assms by (auto simp: commit_def Let_def bumpBallot_def split: if_splits)
  then show ?thesis
    using advances_moves [OF commit_advances [of i inst False]] by (auto simp: no_wrap_def)
qed

text \<open>Getting hold of an instance, moving it, and writing it back.\<close>

lemma step_okI: "(mgr_inv m \<Longrightarrow> step_ok m m') \<Longrightarrow> step_ok m m'"
  by (auto simp: step_ok_def)

lemma getOrSet_move:
  assumes inv: "mgr_inv m" and get: "getOrSetInstance S m inst = (m', i, existed)" and mv: "moves i j"
  shows "step_ok m (put_instance m' j)" and "instances (put_instance m' j) (InstanceID inst) = Some j"
proof -
  have *: "quiet m m'" "instances m' = (instances m)(InstanceID inst \<mapsto> i)"
    using getOrSetInstance_spec [of S m inst] get by auto
  have "mgr_inv m'" using quietD(1) [OF *(1) inv] .
  then have iid: "InstanceID i = InstanceID inst" using mgr_invD(1) *(2) by (metis fun_upd_same)
  then have "instances m' (InstanceID i) = Some i" using *(2) by simp
  from step_ok_move [OF this mv] show "step_ok m (put_instance m' j)"
    using step_ok_trans quiet_step_ok [OF *(1)] by blast
  show "instances (put_instance m' j) (InstanceID inst) = Some j"
    using moves_id [OF mv] iid by simp
qed

lemma step_ok_deps: "(dm_wf (depsMngr m) \<Longrightarrow> dm_wf d) \<Longrightarrow> step_ok m (m\<lparr>depsMngr := d\<rparr>)"
  by (rule quiet_step_ok [OF quiet_deps])

lemma preAcceptInstance_step:
  assumes inv: "mgr_inv m"
  shows "step_ok m (fst (preAcceptInstance S now m inst incr))"
    and "\<exists>j. instances (fst (preAcceptInstance S now m inst incr)) (InstanceID inst) = Some j"
proof -
  obtain m' i e where get: "getOrSetInstance S m inst = (m', i, e)" by (metis prod_cases3)
  obtain j d err where pre: "preaccept (getInstanceDeps S) now (depsMngr m') i inst incr = (j, d, err)"
    by (metis prod_cases3)
  note mv = getOrSet_move [OF inv get preaccept_moves [OF pre]]
  have d: "dm_wf d" if "dm_wf (depsMngr m')"
    using preaccept_deps [OF pre] dm_wf_ops(1) [OF that] that by (auto simp: getInstanceDeps_def)
  have eq: "fst (preAcceptInstance S now m inst incr) = (put_instance m' j)\<lparr>depsMngr := d\<rparr>"
    by (simp add: preAcceptInstance_def get pre put_instance_def)
  show "step_ok m (fst (preAcceptInstance S now m inst incr))"
    unfolding eq using d by (intro step_ok_trans [OF mv(1)] step_ok_deps) simp
  show "\<exists>j. instances (fst (preAcceptInstance S now m inst incr)) (InstanceID inst) = Some j"
    using mv(2) unfolding eq by simp
qed

lemma acceptInstance_step:
  assumes inv: "mgr_inv m"
  shows "step_ok m (fst (acceptInstance S now m inst incr))"
    and "\<exists>j. instances (fst (acceptInstance S now m inst incr)) (InstanceID inst) = Some j \<and> Status j \<ge> INSTANCE_ACCEPTED"
proof -
  obtain m' i e where get: "getOrSetInstance S m inst = (m', i, e)" by (metis prod_cases3)
  obtain j err where acc: "accept now i inst incr = (j, err)" by fastforce
  note mv = getOrSet_move [OF inv get accept_moves [OF acc]]
  have j: "Status j \<ge> INSTANCE_ACCEPTED"
    using acc by (auto simp: accept_def Let_def split: if_splits)
  show "step_ok m (fst (acceptInstance S now m inst incr))"
    using mv(1) step_ok_trans [OF mv(1) quiet_step_ok [OF quiet_ReportAcknowledged]]
    by (auto simp: acceptInstance_def get acc split: option.split)
  show "\<exists>j. instances (fst (acceptInstance S now m inst incr)) (InstanceID inst) = Some j \<and> Status j \<ge> INSTANCE_ACCEPTED"
    using mv(2) j by (auto simp: acceptInstance_def get acc split: option.split)
qed

lemma commitInstance_step:
  assumes inv: "mgr_inv m"
  shows "step_ok m (fst (commitInstance S m inst incr))"
    and "\<exists>j. instances (fst (commitInstance S m inst incr)) (InstanceID inst) = Some j \<and> Status j \<ge> INSTANCE_COMMITTED"
proof -
  obtain m' i e where get: "getOrSetInstance S m inst = (m', i, e)" by (metis prod_cases3)
  obtain j err where com: "commit i inst incr = (j, err)" by fastforce
  note mv = getOrSet_move [OF inv get commit_moves [OF com]]
  have j: "Status j \<ge> INSTANCE_COMMITTED"
    using com by (auto simp: commit_def Let_def split: if_splits)
  show "step_ok m (fst (commitInstance S m inst incr))"
    using mv(1) step_ok_trans [OF mv(1) quiet_step_ok [OF quiet_ReportAcknowledged]]
    by (auto simp: commitInstance_def get com split: option.split)
  show "\<exists>j. instances (fst (commitInstance S m inst incr)) (InstanceID inst) = Some j \<and> Status j \<ge> INSTANCE_COMMITTED"
    using mv(2) j by (auto simp: commitInstance_def get com split: option.split)
qed

section \<open>Processes keep the invariant\<close>

text \<open>
  The other goroutines keep the invariant.  A process keeps it if each of its runs does, and
  leaves a suffix of the schedule; \<open>ensures p Q\<close> says in addition what holds at the end of a
  run without error.
\<close>

definition sched_ok :: "('s, 'v) schedule \<Rightarrow> bool" where
  "sched_ok es \<longleftrightarrow> (\<forall>f. Env f \<in> set es \<longrightarrow> (\<forall>m. step_ok m (f m)))"

definition safe :: "('s, 'v, 'a) proc \<Rightarrow> bool" where
  "safe p \<longleftrightarrow> (\<forall>m es r m' es'. sched_ok es \<longrightarrow> p m es = Some (r, m', es') \<longrightarrow>
     step_ok m m' \<and> (\<exists>used. es = used @ es'))"

lemma sched_ok_append: "sched_ok (es @ es') \<longleftrightarrow> sched_ok es \<and> sched_ok es'"
  by (auto simp: sched_ok_def)

lemma safeD:
  assumes "safe p" and "sched_ok es" and "p m es = Some (r, m', es')"
  shows "step_ok m m'" and "sched_ok es'" and "\<exists>used. es = used @ es'"
proof -
  have "step_ok m m' \<and> (\<exists>used. es = used @ es')" using assms unfolding safe_def by blast
  then show "step_ok m m'" and "\<exists>used. es = used @ es'" by blast+
  then show "sched_ok es'" using assms(2) sched_ok_append by blast
qed

lemma safeI:
  "(\<And>m es r m' es'. sched_ok es \<Longrightarrow> p m es = Some (r, m', es') \<Longrightarrow> step_ok m m' \<and> (\<exists>used. es = used @ es')) \<Longrightarrow> safe p"
  unfolding safe_def by blast

lemma safe_basic [safe_intros]:
  "safe (preturn a)" "safe (pfail e)" "safe (pget f)" "safe (pderef iid)" "safe (pnow clock)"
  by (auto intro!: safeI simp: preturn_def pfail_def pget_def pderef_def pnow_def split: option.splits)

lemma safe_bind [safe_intros]:
  assumes "safe p" and "\<And>a. safe (f a)"
  shows "safe (pbind p f)"
proof (rule safeI)
  fix m es r m' es'
  assume ok: "sched_ok es" and run: "pbind p f m es = Some (r, m', es')"
  obtain r1 m1 es1 where p: "p m es = Some (r1, m1, es1)"
    using run by (cases "p m es") (auto simp: pbind_def)
  note 1 = safeD [OF assms(1) ok p]
  show "step_ok m m' \<and> (\<exists>used. es = used @ es')"
  proof (cases r1)
    case (Ret a)
    then have "f a m1 es1 = Some (r, m', es')" using run p by (simp add: pbind_def)
    note 2 = safeD [OF assms(2) 1(2) this]
    from 1(3) 2(3) have "\<exists>used. es = used @ es'" by (metis append.assoc)
    then show ?thesis using step_ok_trans [OF 1(1) 2(1)] by blast
  qed (use run p 1 in \<open>auto simp: pbind_def\<close>)
qed

lemma safe_catch [safe_intros]:
  assumes "safe p" and "\<And>e. safe (h e)"
  shows "safe (pcatch p h)"
proof (rule safeI)
  fix m es r m' es'
  assume ok: "sched_ok es" and run: "pcatch p h m es = Some (r, m', es')"
  obtain r1 m1 es1 where p: "p m es = Some (r1, m1, es1)"
    using run by (cases "p m es") (auto simp: pcatch_def)
  note 1 = safeD [OF assms(1) ok p]
  show "step_ok m m' \<and> (\<exists>used. es = used @ es')"
  proof (cases r1)
    case (Err e)
    then have "h e m1 es1 = Some (r, m', es')" using run p by (simp add: pcatch_def)
    note 2 = safeD [OF assms(2) 1(2) this]
    from 1(3) 2(3) have "\<exists>used. es = used @ es'" by (metis append.assoc)
    then show ?thesis using step_ok_trans [OF 1(1) 2(1)] by blast
  qed (use run p 1 in \<open>auto simp: pcatch_def\<close>)
qed

lemma safe_step:
  assumes "\<And>m. mgr_inv m \<Longrightarrow> step_ok m (fst (f m))"
  shows "safe (pstep f)"
proof (rule safeI)
  fix m es r m' es'
  assume "pstep f m es = Some (r, m', es')"
  then have "m' = fst (f m) \<and> es' = es" by (auto simp: pstep_def split: prod.splits option.splits)
  then show "step_ok m m' \<and> (\<exists>used. es = used @ es')" using step_okI assms by auto
qed

lemma safe_out:
  assumes "\<And>m. mgr_inv m \<Longrightarrow> step_ok m (fst (f m))"
  shows "safe (pout f)"
proof (rule safeI)
  fix m es r m' es'
  assume "pout f m es = Some (r, m', es')"
  then have "m' = fst (f m) \<and> es' = es" by (auto simp: pout_def split: prod.splits)
  then show "step_ok m m' \<and> (\<exists>used. es = used @ es')" using step_okI assms by auto
qed

lemma step_ok_outbox [simp]: "step_ok m (m\<lparr>outbox := outbox m @ b\<rparr>)"
  by (auto simp: step_ok_def mgr_inv_def instance_grows_def)

lemma safe_send [safe_intros]: "safe (psend replicas msg)"
  by (rule safeI) (auto simp: psend_def)

lemma safe_steps [safe_intros]:
  "safe (pstep (\<lambda>m. preAcceptInstance S now m inst incr))"
  "safe (pstep (\<lambda>m. acceptInstance S now m inst incr))"
  "safe (pstep (\<lambda>m. commitInstance S m inst incr))"
  "safe (pout (\<lambda>m. addMissingInstancesUnsafe S m insts))"
  by (intro safe_step safe_out preAcceptInstance_step acceptInstance_step commitInstance_step
      quiet_step_ok [OF addMissing_quiet], assumption)+

lemma safe_update [safe_intros]:
  assumes "\<And>i. moves i (F i)" and "\<And>i. safe (q i)"
  shows "safe (pbind (pderef iid) (\<lambda>i. pbind (pput (F i)) (\<lambda>_. q i)))"
proof (rule safeI)
  fix m es r m' es'
  assume ok: "sched_ok es" and run: "pbind (pderef iid) (\<lambda>i. pbind (pput (F i)) (\<lambda>_. q i)) m es = Some (r, m', es')"
  show "step_ok m m' \<and> (\<exists>used. es = used @ es')"
  proof (cases "instances m iid")
    case (Some i)
    then have "q i (put_instance m (F i)) es = Some (r, m', es')"
      using run by (simp add: pbind_def pderef_def imap_Get_def pput_def)
    note q = safeD [OF assms(2) ok this]
    have "step_ok m (put_instance m (F i))"
    proof (rule step_okI)
      assume "mgr_inv m"
      then have "instances m (InstanceID i) = Some i" using mgr_invD(1) Some by blast
      then show "step_ok m (put_instance m (F i))" using step_ok_move assms(1) by blast
    qed
    then show ?thesis using q step_ok_trans by blast
  qed (use run in \<open>auto simp: pbind_def pderef_def imap_Get_def\<close>)
qed

lemma safe_await [safe_intros]: "safe (await sel msg quorum numReceived responses)"
proof (rule safeI)
  fix m :: "('s, 'v) Manager" and es r m' es'
  assume "sched_ok es" and "await sel msg quorum numReceived responses m es = Some (r, m', es')"
  then show "step_ok m m' \<and> (\<exists>used. es = used @ es')"
  proof (induction sel msg quorum numReceived responses m es rule: await.induct)
    case (2 sel msg quorum n rs m e es)
    have ok: "sched_ok es" using "2.prems"(1) sched_ok_append [of "[e]" es] by simp
    show ?case
    proof (cases "n < quorum")
      case True
      have more: "\<exists>used. e # es = used @ es'" if "\<exists>used. es = used @ es'" using that by (metis append_Cons)
      show ?thesis
      proof (cases e)
        case (Recv x)
        then show ?thesis
          using 2 ok True more by (cases "sel x") auto
      next
        case (Env f)
        then have "step_ok m (f m)" using "2.prems"(1) by (simp add: sched_ok_def)
        moreover have "step_ok (f m) m' \<and> (\<exists>used. es = used @ es')"
          using "2.IH" "2.prems"(2) ok True Env by simp
        ultimately show ?thesis using more step_ok_trans by blast
      qed (use 2 ok True more in auto)
    qed (use "2.prems"(2) in auto)
  qed (auto split: if_splits)
qed

lemma mergeAttributes_moves: "moves i (fst (mergeAttributes i deps))"
proof (cases "Status i = INSTANCE_PREACCEPTED")
  case True
  then obtain deps' where "fst (mergeAttributes i deps) = i\<lparr>Dependencies := deps'\<rparr>"
    using mergeAttributes_spec [OF True, of deps] by auto
  then show ?thesis using True by (simp add: moves_def advances_def instance_le_def status_defs)
qed (simp add: mergeAttributes_def)

lemma safe_ballots [safe_intros]:
  assumes "\<And>i. safe (q i)"
  shows "safe (pbind (pderef iid) (\<lambda>i.
    pbind (pstep (\<lambda>m. (updateInstanceBallotFromResponses m i ballots, None))) (\<lambda>_. q i)))"
proof -
  have eq: "pstep (\<lambda>m. (updateInstanceBallotFromResponses m i ballots, None)) = (pput (fst (updateBallot i
      (fold (\<lambda>ballot maxBallot. if ballot > maxBallot then ballot else maxBallot) ballots 0))) :: ('a, 'b, unit) proc)" for i
    by (intro ext) (simp add: pstep_def pput_def updateInstanceBallotFromResponses_def Let_def)
  show ?thesis
    unfolding eq by (intro safe_update advances_moves updateBallot_advances assms)
qed

section \<open>The phases keep the invariant\<close>

lemma safe_skip [safe_intros]: "safe p \<Longrightarrow> safe (skip_invalid_status p)"
  by (auto simp: skip_invalid_status_def intro!: safe_catch safe_basic)

lemma safe_sendPreAccept [safe_intros]: "safe (sendPreAccept iid replicas)"
  unfolding sendPreAccept_def Let_def by (intro safe_intros) (auto intro!: safe_intros)

lemma case_merge:
  "(case x of (j, Inl err) \<Rightarrow> pbind (pput j) (\<lambda>_. f err) | (j, Inr c) \<Rightarrow> pbind (pput j) (\<lambda>_. g c)) =
     pbind (pput (fst x)) (\<lambda>_. case snd x of Inl err \<Rightarrow> f err | Inr c \<Rightarrow> g c)"
  by (cases x; cases "snd x") simp_all

lemma safe_merge_loop [safe_intros]: "safe (merge_loop iid responses changes)"
proof (induction responses arbitrary: changes)
  case (Cons r rs)
  then show ?case
    unfolding merge_loop.simps case_merge
    by (intro safe_update mergeAttributes_moves) (auto intro!: safe_basic split: sum.split)
qed (simp add: safe_intros)

lemma safe_add_missing_loop [safe_intros]: "safe (add_missing_loop S responses)"
  by (induction responses) (auto intro!: safe_intros)

lemma safe_managerPreAcceptPhase [safe_intros]: "safe (managerPreAcceptPhase S clock inst)"
  unfolding managerPreAcceptPhase_def mergePreAcceptAttributes_def by (intro safe_intros)

lemma safe_sendAccept [safe_intros]: "safe (sendAccept iid replicas)"
  unfolding sendAccept_def Let_def by (intro safe_intros) (auto intro!: safe_intros)

lemma safe_managerAcceptPhase [safe_intros]: "safe (managerAcceptPhase S clock inst)"
  unfolding managerAcceptPhase_def by (intro safe_intros)

lemma safe_managerCommitPhase [safe_intros]: "safe (managerCommitPhase S inst)"
  unfolding managerCommitPhase_def sendCommit_def by (intro safe_intros)

section \<open>Quorums\<close>

lemma pbind_Ret:
  assumes "pbind p f m es = Some (Ret b, m', es')"
  obtains a m1 es1 where "p m es = Some (Ret a, m1, es1)" and "f a m1 es1 = Some (Ret b, m', es')"
  using assms by (auto simp: pbind_def split: option.splits prod.splits outcome.splits)

lemma skip_invalid_status_Ret:
  assumes "skip_invalid_status (pstep f) m es = Some (Ret x, m', es')"
  shows "m' = fst (f m)" and "es' = es"
    and "snd (f m) = None \<or> (\<exists>e. snd (f m) = Some e \<and> is_InvalidStatusUpdateError e)"
  using assms
  by (auto simp: skip_invalid_status_def pcatch_def pstep_def pfail_def preturn_def
      split: prod.splits option.splits if_splits)

text \<open>The responses among the events.\<close>

fun received :: "(consensus_msg \<Rightarrow> 'r option) \<Rightarrow> ('s, 'v) schedule \<Rightarrow> 'r list" where
  "received sel [] = []"
| "received sel (Recv r # es) = (case sel r of Some x \<Rightarrow> x # received sel es | None \<Rightarrow> received sel es)"
| "received sel (e # es) = received sel es"

lemma await_Ret:
  assumes "await sel msg quorum n rs m es = Some (Ret rs', m', es')" and "n \<le> quorum"
  shows "\<exists>used. es = used @ es' \<and> Timeout \<notin> set used \<and> rs' = rs @ received sel used \<and>
    n + length (received sel used) = quorum \<and> (used = [] \<or> received sel [last used] \<noteq> [])"
  using assms
proof (induction es arbitrary: n rs m)
  case (Cons e es)
  show ?case
  proof (cases "n < quorum")
    case True
    have skip: ?thesis
      if run: "await sel msg quorum n rs m1 es = Some (Ret rs', m', es')" "received sel [e] = []" "e \<noteq> Timeout" for m1
    proof -
      obtain used where "es = used @ es'" "Timeout \<notin> set used" "rs' = rs @ received sel used"
        "n + length (received sel used) = quorum" "used = [] \<or> received sel [last used] \<noteq> []"
        using Cons.IH [OF run(1) Cons.prems(2)] by blast
      moreover from this have "used \<noteq> []" using True by auto
      ultimately show ?thesis using run(2,3)
        by (intro exI [of _ "e # used"]) (cases e; auto split: option.splits)
    qed
    show ?thesis
    proof (cases "\<exists>x y. e = Recv x \<and> sel x = Some y")
      case True
      then obtain x y where e: "e = Recv x" "sel x = Some y" by blast
      then have "await sel msg quorum (n + 1) (rs @ [y]) m es = Some (Ret rs', m', es')"
        using Cons.prems(1) \<open>n < quorum\<close> by simp
      then obtain used where "es = used @ es'" "Timeout \<notin> set used" "rs' = (rs @ [y]) @ received sel used"
        "n + 1 + length (received sel used) = quorum" "used = [] \<or> received sel [last used] \<noteq> []"
        using Cons.IH [of "n + 1" "rs @ [y]" m] \<open>n < quorum\<close> by auto
      then show ?thesis using e by (intro exI [of _ "e # used"]) auto
    next
      case False
      then have "received sel [e] = []" by (cases e) (auto split: option.splits)
      then show ?thesis
        using skip Cons.prems(1) \<open>n < quorum\<close> False by (cases e) (auto split: option.splits)
    qed
  qed (use Cons.prems in \<open>auto intro!: exI [of _ "[]"]\<close>)
qed (auto split: if_splits)

lemma fold_and: "fold (\<lambda>r acc. acc \<and> P r) rs b \<longleftrightarrow> b \<and> (\<forall>r \<in> set rs. P r)"
  by (induction rs arbitrary: b) auto

lemma send_await:
  assumes inv: "mgr_inv m" and ok: "sched_ok es" and q: "1 \<le> quorum"
    and run: "pbind (psend replicas msg) (\<lambda>_. pbind (await sel t quorum 1 []) f) m es = Some (Ret b, m', es')"
  obtains used m1 es1 where "es = used @ es1" and "Timeout \<notin> set used"
    and "1 + length (received sel used) = quorum" and "used = [] \<or> received sel [last used] \<noteq> []"
    and "f (received sel used) m1 es1 = Some (Ret b, m', es')"
    and "step_ok m m1" and "sched_ok es1"
    and "prefix (outbox m @ map (\<lambda>n. (node_id n, msg)) replicas) (outbox m1)"
proof -
  let ?m = "m\<lparr>outbox := outbox m @ map (\<lambda>n. (node_id n, msg)) replicas\<rparr>"
  have "pbind (await sel t quorum 1 []) f ?m es = Some (Ret b, m', es')"
    using run by (simp add: pbind_def psend_def)
  then obtain rs m1 es1 where aw: "await sel t quorum 1 [] ?m es = Some (Ret rs, m1, es1)"
    and f: "f rs m1 es1 = Some (Ret b, m', es')" by (rule pbind_Ret)
  have "mgr_inv ?m" using step_okD(1) [OF step_ok_outbox inv] .
  note s = safeD [OF safe_await ok aw]
  have "prefix (outbox ?m) (outbox m1)" using step_okD(4) [OF s(1) \<open>mgr_inv ?m\<close>] .
  moreover have "step_ok m m1" using step_ok_trans [OF step_ok_outbox s(1)] .
  ultimately show ?thesis using that await_Ret [OF aw q] f s(2) by auto
qed

lemma sendAccept_Ret:
  assumes inv: "mgr_inv m" and ok: "sched_ok es" and run: "sendAccept iid replicas m es = Some (Ret (), m', es')"
  obtains i used where "instances m iid = Some i" and "es = used @ es'" and "Timeout \<notin> set used"
    and "1 + length (received sel_AcceptResponse used) = quorumSize (length replicas)"
    and "used = [] \<or> received sel_AcceptResponse [last used] \<noteq> []"
    and "\<forall>r \<in> set (received sel_AcceptResponse used). a_Accepted r" and "step_ok m m'"
    and "prefix (outbox m @ map (\<lambda>n. (node_id n, AcceptRequest (Instance_Copy i) [])) replicas) (outbox m')"
proof -
  obtain i where i: "instances m iid = Some i"
    using run by (cases "instances m iid") (auto simp: sendAccept_def pbind_def pderef_def imap_Get_def)
  let ?f = "\<lambda>responses. let accepted = fold (\<lambda>r accepted. accepted \<and> a_Accepted r) responses True
       in if \<not> accepted
          then pbind (pderef iid) (\<lambda>instance.
               pbind (pstep (\<lambda>m. (updateInstanceBallotFromResponses m instance (map a_MaxBallot responses), None))) (\<lambda>_.
               pfail (BallotError ''Ballot number rejected'')))
          else preturn ()"
  have run': "pbind (psend replicas (AcceptRequest (Instance_Copy i) [])) (\<lambda>_.
      pbind (await sel_AcceptResponse ''Timeout while awaiting accept responses'' (quorumSize (length replicas)) 1 []) ?f) m es =
      Some (Ret (), m', es')"
    using run i by (simp add: sendAccept_def pbind_def [of "pderef iid"] pderef_def imap_Get_def)
  show thesis
  proof (rule send_await [OF inv ok _ run'])
    show "1 \<le> quorumSize (length replicas)" by (simp add: quorumSize_def)
    fix used m1 es1
    assume f: "?f (received sel_AcceptResponse used) m1 es1 = Some (Ret (), m', es')"
      and *: "es = used @ es1" "Timeout \<notin> set used"
        "1 + length (received sel_AcceptResponse used) = quorumSize (length replicas)"
        "used = [] \<or> received sel_AcceptResponse [last used] \<noteq> []" "step_ok m m1" "sched_ok es1"
        "prefix (outbox m @ map (\<lambda>n. (node_id n, AcceptRequest (Instance_Copy i) [])) replicas) (outbox m1)"
    have "(\<forall>r \<in> set (received sel_AcceptResponse used). a_Accepted r) \<and> m1 = m' \<and> es1 = es'"
      using f by (auto simp: Let_def fold_and preturn_def pfail_def pbind_def pderef_def pstep_def imap_Get_def
          split: if_splits option.splits)
    then show thesis using that [OF i] * by blast
  qed
qed

lemma accept_phase_steps:
  assumes "managerAcceptPhase S clock inst m es = Some (Ret (), m', es')"
  obtains x m1 es1 where
    "skip_invalid_status (pstep (\<lambda>m. acceptInstance S (clock es) m inst True)) m es = Some (Ret x, m1, es1)"
    and "sendAccept (InstanceID inst) (getInstanceReplicas m inst) m1 es1 = Some (Ret (), m', es')"
  using assms unfolding managerAcceptPhase_def
  by (auto simp: pbind_def [of "pget _"] pbind_def [of "pnow _"] pget_def pnow_def elim!: pbind_Ret)

text \<open>
  The accept phase needs a quorum.  When the phase succeeds, the replica sent its
  current instance, which has been accepted, to every other replica of the key and then
  received, before the timer fired, as many accepting responses as the quorum needs besides
  the node itself.
\<close>

theorem accept_needs_quorum:
  assumes "mgr_inv m" and "sched_ok es" and "managerAcceptPhase S clock inst m es = Some (Ret (), m', es')"
  shows "\<exists>used i. es = used @ es' \<and> Timeout \<notin> set used \<and>
    1 + length (received sel_AcceptResponse used) = quorumSize (length (getInstanceReplicas m inst)) \<and>
    (\<forall>r \<in> set (received sel_AcceptResponse used). a_Accepted r) \<and>
    Status i \<ge> INSTANCE_ACCEPTED \<and>
    (\<forall>n \<in> set (getInstanceReplicas m inst). (node_id n, AcceptRequest (Instance_Copy i) []) \<in> set (outbox m')) \<and>
    (\<exists>j. instances m' (InstanceID inst) = Some j \<and> Status j \<ge> INSTANCE_ACCEPTED)"
proof -
  let ?m1 = "fst (acceptInstance S (clock es) m inst True)"
  obtain x m1 es1 where
    skip: "skip_invalid_status (pstep (\<lambda>m. acceptInstance S (clock es) m inst True)) m es = Some (Ret x, m1, es1)"
    and send: "sendAccept (InstanceID inst) (getInstanceReplicas m inst) m1 es1 = Some (Ret (), m', es')"
    using assms(3) by (rule accept_phase_steps)
  have m1: "m1 = ?m1" "es1 = es" using skip_invalid_status_Ret [OF skip] by simp_all
  have inv1: "mgr_inv m1" using step_okD(1) [OF acceptInstance_step(1) assms(1)] m1(1) assms(1) by blast
  have "sched_ok es1" using assms(2) m1(2) by simp
  then obtain i used where
    *: "instances m1 (InstanceID inst) = Some i" "es1 = used @ es'" "Timeout \<notin> set used"
      "1 + length (received sel_AcceptResponse used) = quorumSize (length (getInstanceReplicas m inst))"
      "used = [] \<or> received sel_AcceptResponse [last used] \<noteq> []"
      "\<forall>r \<in> set (received sel_AcceptResponse used). a_Accepted r" "step_ok m1 m'"
      "prefix (outbox m1 @ map (\<lambda>n. (node_id n, AcceptRequest (Instance_Copy i) [])) (getInstanceReplicas m inst)) (outbox m')"
    by (rule sendAccept_Ret [OF inv1 _ send])
  have i: "Status i \<ge> INSTANCE_ACCEPTED"
    using acceptInstance_step(2) [OF assms(1), of S "clock es" inst True] *(1) m1(1) by auto
  obtain j where j: "instances m' (InstanceID inst) = Some j" "instance_grows i j"
    using step_okD(2) [OF *(7) inv1 *(1)] by blast
  then have "Status j \<ge> INSTANCE_ACCEPTED" using instance_grows_fields [OF j(2)] i by auto
  moreover have "(node_id n, AcceptRequest (Instance_Copy i) []) \<in> set (outbox m')"
    if "n \<in> set (getInstanceReplicas m inst)" for n
    using set_mono_prefix [OF *(8)] that by auto
  ultimately show ?thesis using *(2-4,6) i j(1) m1(2) by blast
qed

text \<open>A replica with two peers, and its schedules.\<close>

definition ex_leader :: "'s \<Rightarrow> ('s, 'v) Manager" where
  "ex_leader s = NewManager (add_nodes (NewTopology \<lparr>b0 = 0, b1 = 1\<rparr> ''DC1'' string_bytes 3)
     [ex_node 1, ex_node 2, ex_node 3]) s"

definition ex_clock :: "('s, 'v) clock" where
  "ex_clock es = zero_Time"

definition ex_accepted :: "('s, 'v) event" where
  "ex_accepted = Recv (AcceptResp \<lparr>a_Accepted = True, a_MaxBallot = 0\<rparr>)"

lemma ex_leader_inv: "mgr_inv (ex_leader s)"
  unfolding ex_leader_def by (rule mgr_inv_New)

lemma sched_ok_simps [simp]:
  "sched_ok []" "sched_ok (Recv r # es) = sched_ok es" "sched_ok (Timeout # es) = sched_ok es"
  "sched_ok (SendError # es) = sched_ok es" "sched_ok (CommitEvent # es) = sched_ok es"
  "sched_ok (Locked # es) = sched_ok es"
  by (auto simp: sched_ok_def)

text \<open>A schedule that ends with the response that completes the quorum is consumed entirely.\<close>

lemma received_Cons: "received sel (e # es) = received sel [e] @ received sel es"
  by (cases e) (auto split: option.split)

lemma received_last: "es \<noteq> [] \<Longrightarrow> received sel [last es] \<noteq> [] \<Longrightarrow> received sel es \<noteq> []"
proof (induction es)
  case (Cons e es)
  then show ?case unfolding received_Cons [of sel e es] by (cases "es = []") auto
qed simp

lemma await_succeeds:
  assumes "Timeout \<notin> set used" and "n + length (received sel used) = quorum"
    and "used = [] \<or> received sel [last used] \<noteq> []"
  shows "\<exists>m'. await sel t quorum n rs m (used @ rest) = Some (Ret (rs @ received sel used), m', rest)"
  using assms
proof (induction used arbitrary: n rs m)
  case Nil
  then show ?case by (cases rest) auto
next
  case (Cons e used)
  have last: "used = [] \<or> received sel [last used] \<noteq> []" using Cons.prems(3) by auto
  have "received sel (e # used) \<noteq> []" using Cons.prems(3) received_last by blast
  then have "0 < length (received sel (e # used))" by blast
  then have n: "n < quorum" using Cons.prems(2) by linarith
  show ?case
  proof (cases "\<exists>x y. e = Recv x \<and> sel x = Some y")
    case True
    then obtain x y where "e = Recv x" "sel x = Some y" by blast
    then show ?thesis using Cons.IH [of "n + 1" "rs @ [y]" m] Cons.prems last n by simp
  next
    case False
    then have "received sel (e # used) = received sel used" by (cases e) (auto split: option.splits)
    then show ?thesis using Cons.IH [of n rs] Cons.prems last n False by (cases e) (auto split: option.splits)
  qed
qed

lemma acceptInstance_err:
  assumes "mgr_inv m" and "st_InterferingKeys S (Command inst) \<noteq> []"
    and "\<forall>i. instances m (InstanceID inst) = Some i \<longrightarrow> Command i = Command inst"
  shows "snd (acceptInstance S now m inst incr) = None \<or>
    (\<exists>e. snd (acceptInstance S now m inst incr) = Some e \<and> is_InvalidStatusUpdateError e)"
proof -
  obtain m' i e where get: "getOrSetInstance S m inst = (m', i, e)" by (metis prod_cases3)
  obtain j err where acc: "accept now i inst incr = (j, err)" by fastforce
  have "Command i = Command inst"
    using getOrSetInstance_spec [of S m inst] get assms(3) by (auto split: if_splits)
  then have "Command j = Command inst"
    using accept_moves [OF acc] by (simp add: moves_def advances_def instance_le_def)
  then have "snd (mgr_ReportAcknowledged S (put_instance m' j) j) = None"
    using ReportAcknowledged_ok assms(2) by metis
  moreover have "err = None \<or> (\<exists>e. err = Some e \<and> is_InvalidStatusUpdateError e)"
    using acc by (auto simp: accept_def Let_def split: if_splits)
  ultimately show ?thesis by (auto simp: acceptInstance_def get acc split: option.split)
qed

lemma skip_invalid_status_succeeds:
  assumes "snd (f m) = None \<or> (\<exists>e. snd (f m) = Some e \<and> is_InvalidStatusUpdateError e)"
  shows "skip_invalid_status (pstep f) m es = Some (Ret (), fst (f m), es)"
  using assms by (auto simp: skip_invalid_status_def pcatch_def pstep_def preturn_def split: prod.splits)

lemma accept_phase_succeeds:
  assumes "mgr_inv m" and "st_InterferingKeys S (Command inst) \<noteq> []"
    and "\<forall>i. instances m (InstanceID inst) = Some i \<longrightarrow> Command i = Command inst"
    and "Timeout \<notin> set used" and "used = [] \<or> received sel_AcceptResponse [last used] \<noteq> []"
    and "1 + length (received sel_AcceptResponse used) = quorumSize (length (getInstanceReplicas m inst))"
    and "\<forall>r \<in> set (received sel_AcceptResponse used). a_Accepted r"
  shows "\<exists>m'. managerAcceptPhase S clock inst m (used @ rest) = Some (Ret (), m', rest)"
proof -
  let ?f = "\<lambda>m. acceptInstance S (clock (used @ rest)) m inst True"
  let ?m1 = "fst (?f m)" and ?reps = "getInstanceReplicas m inst"
  obtain i where i: "instances ?m1 (InstanceID inst) = Some i"
    using acceptInstance_step(2) [OF assms(1)] by blast
  let ?m2 = "?m1\<lparr>outbox := outbox ?m1 @ map (\<lambda>n. (node_id n, AcceptRequest (Instance_Copy i) [])) ?reps\<rparr>"
  obtain m' where aw: "await sel_AcceptResponse ''Timeout while awaiting accept responses'' (quorumSize (length ?reps)) 1 []
      ?m2 (used @ rest) = Some (Ret (received sel_AcceptResponse used), m', rest)"
    using await_succeeds [OF assms(4,6,5), of _ "[]" ?m2 rest] by auto
  have "sendAccept (InstanceID inst) ?reps ?m1 (used @ rest) = Some (Ret (), m', rest)"
    using i aw assms(7)
    by (simp add: sendAccept_def pbind_def pderef_def imap_Get_def psend_def Let_def fold_and preturn_def)
  moreover have "skip_invalid_status (pstep ?f) m (used @ rest) = Some (Ret (), ?m1, used @ rest)"
    by (rule skip_invalid_status_succeeds, rule acceptInstance_err [OF assms(1-3)])
  ultimately have "managerAcceptPhase S clock inst m (used @ rest) = Some (Ret (), m', rest)"
    by (simp add: managerAcceptPhase_def pbind_def pget_def pnow_def)
  then show ?thesis by blast
qed

lemma ex_leader_replicas:
  "length (getInstanceReplicas (ex_leader s :: ('s, 'v) Manager) ex_instance) = 2"
proof -
  have "getInstanceReplicas (ex_leader s :: ('s, 'v) Manager) ex_instance =
      getInstanceReplicas (ex_leader () :: (unit, unit) Manager) ex_instance"
    by (simp add: getInstanceReplicas_def ex_leader_def NewManager_def)
  moreover have "length (getInstanceReplicas (ex_leader () :: (unit, unit) Manager) ex_instance) = 2"
    by code_simp
  ultimately show ?thesis by simp
qed

lemma ex_leader_empty [simp]: "instances (ex_leader s) iid = None"
  by (simp add: ex_leader_def NewManager_def NewInstanceMap_def)

theorem accept_needs_quorum_witness:
  "\<exists>m' (used :: (unit, unit) schedule).
     managerAcceptPhase ex_store ex_clock ex_instance (ex_leader ()) [SendError, ex_accepted, Timeout] =
       Some (Ret (), m', [Timeout]) \<and>
     [SendError, ex_accepted, Timeout] = used @ [Timeout] \<and>
     1 + length (received sel_AcceptResponse used) = quorumSize (length (getInstanceReplicas (ex_leader () :: (unit, unit) Manager) ex_instance))"
proof -
  obtain m' where run: "managerAcceptPhase ex_store ex_clock ex_instance (ex_leader ())
      [SendError, ex_accepted, Timeout] = Some (Ret (), m', [Timeout])"
    using accept_phase_succeeds [of "ex_leader ()" ex_store ex_instance "[SendError, ex_accepted]" ex_clock "[Timeout]"]
    by (auto simp: ex_leader_inv ex_manager_facts ex_accepted_def ex_leader_replicas quorumSize_def)
  have "sched_ok [SendError, ex_accepted, Timeout :: (unit, unit) event]" by (simp add: ex_accepted_def)
  from accept_needs_quorum [OF ex_leader_inv this run] run show ?thesis by blast
qed

text \<open>
  C21: when the accept phase succeeds.  It does so exactly when, before the timer fires, the
  responses that complete the quorum arrive and all of them accept, whatever other
  goroutines do meanwhile; it returns with the last of them.
\<close>

theorem accept_phase_iff:
  assumes "mgr_inv m" and "sched_ok es" and "st_InterferingKeys S (Command inst) \<noteq> []"
    and "\<forall>i. instances m (InstanceID inst) = Some i \<longrightarrow> Command i = Command inst"
  shows "(\<exists>m'. managerAcceptPhase S clock inst m es = Some (Ret (), m', rest)) \<longleftrightarrow>
    (\<exists>used. es = used @ rest \<and> Timeout \<notin> set used \<and> (used = [] \<or> received sel_AcceptResponse [last used] \<noteq> []) \<and>
       1 + length (received sel_AcceptResponse used) = quorumSize (length (getInstanceReplicas m inst)) \<and>
       (\<forall>r \<in> set (received sel_AcceptResponse used). a_Accepted r))"
proof
  assume "\<exists>m'. managerAcceptPhase S clock inst m es = Some (Ret (), m', rest)"
  then obtain m' where run: "managerAcceptPhase S clock inst m es = Some (Ret (), m', rest)" ..
  obtain x m1 es1 where
    skip: "skip_invalid_status (pstep (\<lambda>m. acceptInstance S (clock es) m inst True)) m es = Some (Ret x, m1, es1)"
    and send: "sendAccept (InstanceID inst) (getInstanceReplicas m inst) m1 es1 = Some (Ret (), m', rest)"
    using run by (rule accept_phase_steps)
  have m1: "m1 = fst (acceptInstance S (clock es) m inst True)" "es1 = es"
    using skip_invalid_status_Ret [OF skip] by simp_all
  have inv1: "mgr_inv m1" using step_okD(1) [OF acceptInstance_step(1) assms(1)] m1(1) assms(1) by blast
  have "sched_ok es1" using assms(2) m1(2) by simp
  then obtain i used where "instances m1 (InstanceID inst) = Some i" "es1 = used @ rest" "Timeout \<notin> set used"
      "1 + length (received sel_AcceptResponse used) = quorumSize (length (getInstanceReplicas m inst))"
      "used = [] \<or> received sel_AcceptResponse [last used] \<noteq> []"
      "\<forall>r \<in> set (received sel_AcceptResponse used). a_Accepted r" "step_ok m1 m'"
      "prefix (outbox m1 @ map (\<lambda>n. (node_id n, AcceptRequest (Instance_Copy i) [])) (getInstanceReplicas m inst)) (outbox m')"
    by (rule sendAccept_Ret [OF inv1 _ send])
  then show "\<exists>used. es = used @ rest \<and> Timeout \<notin> set used \<and>
      (used = [] \<or> received sel_AcceptResponse [last used] \<noteq> []) \<and>
      1 + length (received sel_AcceptResponse used) = quorumSize (length (getInstanceReplicas m inst)) \<and>
      (\<forall>r \<in> set (received sel_AcceptResponse used). a_Accepted r)"
    using m1(2) by (intro exI [of _ used]) simp
qed (use accept_phase_succeeds [OF assms(1,3,4)] in blast)

theorem accept_phase_iff_witness:
  "(\<exists>m'. managerAcceptPhase ex_store ex_clock ex_instance (ex_leader ()) [ex_accepted] = Some (Ret (), m', [])) \<and>
   \<not> (\<exists>m'. managerAcceptPhase ex_store ex_clock ex_instance (ex_leader ()) [Timeout, ex_accepted] = Some (Ret (), m', []))"
proof -
  note iff = accept_phase_iff [OF ex_leader_inv [of "()"], where S = ex_store and inst = ex_instance and clock = ex_clock and rest = "[]"]
  have "sched_ok [ex_accepted :: (unit, unit) event]" "sched_ok [Timeout, ex_accepted :: (unit, unit) event]"
    by (simp_all add: ex_accepted_def)
  with iff show ?thesis
    by (simp add: ex_manager_facts ex_leader_replicas quorumSize_def) (simp add: ex_accepted_def)
qed

text \<open>
  What an accepting reply to an accept request means.  The replica has the instance
  at least accepted, and if it is not committed yet it has the dependencies of the request
  and a ballot that is not lower.
\<close>

theorem accept_reply:
  assumes "mgr_inv m" and "HandleAccept S now m request missing = (m', Ret r)" and "a_Accepted r"
  shows "\<exists>j. instances m' (InstanceID request) = Some j \<and> Status j \<ge> INSTANCE_ACCEPTED \<and>
    (Status j = INSTANCE_ACCEPTED \<longrightarrow> Dependencies j = Dependencies request \<and> MaxBallot j \<ge> MaxBallot request \<and>
       Noop j = Noop request)"
proof -
  obtain m1 err m2 where acc: "acceptInstance S now m1 request False = (m2, err)" and m': "m' = m2"
    and inv1: "mgr_inv m1"
  proof -
    let ?p = "if length missing > 0 then addMissingInstancesUnsafe S m missing else (m, Ret ())"
    obtain m1 o1 where p: "?p = (m1, o1)" by fastforce
    have "mgr_inv m1"
      using quietD(1) [OF addMissing_quiet [OF assms(1)], of S missing] p assms(1) by (auto split: if_splits)
    moreover obtain m2 err where "acceptInstance S now m1 request False = (m2, err)" by fastforce
    moreover from this have "m' = m2"
      using assms(2,3) unfolding HandleAccept_def p
      by (auto simp: Let_def imap_Get_def split: outcome.splits option.splits if_splits)
    ultimately show thesis using that by blast
  qed
  obtain m3 i e where get: "getOrSetInstance S m1 request = (m3, i, e)" by (metis prod_cases3)
  obtain j err' where j: "accept now i request False = (j, err')" by fastforce
  note mv = getOrSet_move [OF inv1 get accept_moves [OF j]]
  have "instances (fst (acceptInstance S now m1 request False)) (InstanceID request) = Some j"
    using mv(2) by (auto simp: acceptInstance_def get j split: option.split)
  then have "instances m' (InstanceID request) = Some j" by (simp add: acc m')
  moreover have "Status j \<ge> INSTANCE_ACCEPTED \<and> (Status j = INSTANCE_ACCEPTED \<longrightarrow>
      Dependencies j = Dependencies request \<and> MaxBallot j \<ge> MaxBallot request \<and> Noop j = Noop request)"
    using j by (auto simp: accept_def Let_def setDeps_def split: if_splits)
  ultimately show ?thesis by blast
qed

theorem accept_reply_witness:
  "\<exists>m' r. HandleAccept ex_store zero_Time ex_manager ex_instance [] = (m', Ret r) \<and> a_Accepted r \<and>
     (\<exists>j. instances m' (InstanceID ex_instance) = Some j \<and> Status j \<ge> INSTANCE_ACCEPTED)"
proof -
  obtain m' where "HandleAccept ex_store zero_Time ex_manager ex_instance [] =
      (m', Ret \<lparr>a_Accepted = True, a_MaxBallot = 0\<rparr>)"
    using acceptInstance_err [OF ex_manager_facts(1), of ex_store ex_instance zero_Time False]
    by (cases "acceptInstance ex_store zero_Time ex_manager ex_instance False")
      (auto simp: HandleAccept_def imap_Get_def ex_manager_facts Let_def)
  with accept_reply [OF ex_manager_facts(1), of ex_store zero_Time ex_instance "[]" m'] show ?thesis by auto
qed

text \<open>
  C32: quorums of an odd number of nodes intersect.  Two sets of nodes, each as large as the
  quorum that a leader waits for, itself included, have a node in common when the number of
  nodes is odd.  With an even number they need not: there are two disjoint quorums, each
  half of the nodes.
\<close>

theorem quorums_intersect:
  assumes "finite nodes" and "nodes \<noteq> {}"
  shows "(\<forall>Q Q'. Q \<subseteq> nodes \<longrightarrow> Q' \<subseteq> nodes \<longrightarrow> card Q = quorumSize (card nodes - 1) \<longrightarrow>
      card Q' = quorumSize (card nodes - 1) \<longrightarrow> Q \<inter> Q' \<noteq> {}) \<longleftrightarrow> odd (card nodes)"
proof
  assume odd: "odd (card nodes)"
  show "\<forall>Q Q'. Q \<subseteq> nodes \<longrightarrow> Q' \<subseteq> nodes \<longrightarrow> card Q = quorumSize (card nodes - 1) \<longrightarrow>
      card Q' = quorumSize (card nodes - 1) \<longrightarrow> Q \<inter> Q' \<noteq> {}"
  proof (intro allI impI notI)
    fix Q Q' assume Q: "Q \<subseteq> nodes" "Q' \<subseteq> nodes" "card Q = quorumSize (card nodes - 1)"
      "card Q' = quorumSize (card nodes - 1)" "Q \<inter> Q' = {}"
    have "finite Q" "finite Q'" using finite_subset [OF _ assms(1)] Q(1,2) by simp_all
    then have "card Q + card Q' = card (Q \<union> Q')" using card_Un_disjoint [OF _ _ Q(5)] by simp
    also have "\<dots> \<le> card nodes" using card_mono [OF assms(1), of "Q \<union> Q'"] Q(1,2) by simp
    finally have le: "card Q + card Q' \<le> card nodes" .
    obtain k where "card nodes = 2 * k + 1" using odd by (rule oddE)
    then show False using le Q(3,4) by (simp add: quorumSize_def)
  qed
next
  assume all: "\<forall>Q Q'. Q \<subseteq> nodes \<longrightarrow> Q' \<subseteq> nodes \<longrightarrow> card Q = quorumSize (card nodes - 1) \<longrightarrow>
      card Q' = quorumSize (card nodes - 1) \<longrightarrow> Q \<inter> Q' \<noteq> {}"
  show "odd (card nodes)"
  proof (rule ccontr)
    assume "\<not> odd (card nodes)"
    then obtain k where k: "card nodes = 2 * k" by (auto elim: evenE)
    then have "0 < k" using card_gt_0_iff [of nodes] assms by simp
    then have q: "quorumSize (card nodes - 1) = k" using k by (auto simp: quorumSize_def)
    obtain Q where Q: "Q \<subseteq> nodes" "card Q = k"
      using obtain_subset_with_card_n [of k nodes] k by auto
    then have "card (nodes - Q) = k"
      using card_Diff_subset [of Q nodes] finite_subset [OF Q(1) assms(1)] k by simp
    moreover have "Q \<inter> (nodes - Q) = {}" "nodes - Q \<subseteq> nodes" by blast+
    ultimately show False using all [rule_format, of Q "nodes - Q"] Q q by simp
  qed
qed

theorem quorums_intersect_witness:
  "card {1, 2 :: nat} = quorumSize (card {1, 2, 3 :: nat} - 1) \<and>
   card {2, 3 :: nat} = quorumSize (card {1, 2, 3 :: nat} - 1) \<and> {1, 2} \<inter> {2, 3 :: nat} \<noteq> {}"
proof -
  have q: "card {1, 2 :: nat} = quorumSize (card {1, 2, 3 :: nat} - 1)"
    "card {2, 3 :: nat} = quorumSize (card {1, 2, 3 :: nat} - 1)"
    by (simp_all add: quorumSize_def)
  have odd: "odd (card {1, 2, 3 :: nat})" by simp
  have "\<forall>Q Q'. Q \<subseteq> {1, 2, 3 :: nat} \<longrightarrow> Q' \<subseteq> {1, 2, 3} \<longrightarrow> card Q = quorumSize (card {1, 2, 3 :: nat} - 1) \<longrightarrow>
      card Q' = quorumSize (card {1, 2, 3 :: nat} - 1) \<longrightarrow> Q \<inter> Q' \<noteq> {}"
    by (rule iffD2 [OF quorums_intersect odd]) simp_all
  from this [THEN spec, THEN spec, THEN mp, THEN mp, THEN mp, THEN mp, OF _ _ q]
  have "{1, 2} \<inter> {2, 3 :: nat} \<noteq> {}" by simp
  with q show ?thesis by blast
qed

text \<open>
  A leader with a single peer needs nobody.  With two replicas of the key the accept
  phase succeeds at once, on the empty schedule, without any response, although the two
  nodes can then accept different attributes.
\<close>

theorem two_replicas_accept_alone:
  assumes "mgr_inv m" and "st_InterferingKeys S (Command inst) \<noteq> []"
    and "\<forall>i. instances m (InstanceID inst) = Some i \<longrightarrow> Command i = Command inst"
    and "length (getInstanceReplicas m inst) = 1"
  shows "\<exists>m'. managerAcceptPhase S clock inst m [] = Some (Ret (), m', [])"
  using accept_phase_succeeds [OF assms(1-3), of "[]" clock "[]"] assms(4) by (simp add: quorumSize_def)

definition ex_pair :: "'s \<Rightarrow> ('s, 'v) Manager" where
  "ex_pair s = NewManager (add_nodes (NewTopology \<lparr>b0 = 0, b1 = 1\<rparr> ''DC1'' string_bytes 2)
     [ex_node 1, ex_node 2]) s"

theorem two_replicas_accept_alone_witness:
  "\<exists>m'. managerAcceptPhase ex_store ex_clock ex_instance (ex_pair ()) [] = Some (Ret (), m', [])"
proof (rule two_replicas_accept_alone)
  show "mgr_inv (ex_pair () :: (unit, unit) Manager)" unfolding ex_pair_def by (rule mgr_inv_New)
  show "length (getInstanceReplicas (ex_pair () :: (unit, unit) Manager) ex_instance) = 1" by code_simp
qed (simp_all add: ex_manager_facts ex_pair_def NewManager_def NewInstanceMap_def)

section \<open>Merging the attributes\<close>

lemma addMissing_known:
  "mgr_inv m \<Longrightarrow> instances m k = Some i \<Longrightarrow> instances (fst (addMissingInstancesUnsafe S m insts)) k = Some i"
proof (induction insts arbitrary: m)
  case (Cons inst insts)
  obtain m1 j e where get: "getOrSetInstance S m inst = (m1, j, e)" by (metis prod_cases3)
  have q: "quiet m m1" and j: "instances m1 = (instances m)(InstanceID inst \<mapsto> j)"
    "if e then instances m (InstanceID inst) = Some j \<and> m1 = m
      else instances m (InstanceID inst) = None \<and> j = initialize inst"
    using getOrSetInstance_spec [of S m inst] get by auto
  note inv1 = quietD(1) [OF q Cons.prems(1)]
  have k1: "instances m1 k = Some i" using j Cons.prems(2) by (auto split: if_splits)
  show ?case
  proof (cases e)
    case True
    then show ?thesis using Cons.IH [OF inv1 k1] by (simp add: get)
  next
    case False
    let ?j = "if Status j \<in> {INSTANCE_COMMITTED, INSTANCE_EXECUTED} then j\<lparr>Status := INSTANCE_COMMITTED\<rparr> else j"
    let ?m2 = "put_instance m1 ?j"
    have id: "InstanceID ?j = InstanceID inst" using j(2) False by simp
    have "?j = j" using j(2) False by (auto simp: initialize_def status_defs)
    then have "quiet m ?m2" using quiet_getOrSet_put(1) [OF Cons.prems(1) get advances_refl] by simp
    from quietD(1) [OF quiet_trans [OF this quiet_AddDependency] Cons.prems(1)]
    have inv3: "mgr_inv (fst (mgr_AddDependency S ?m2 ?j))" .
    have "k \<noteq> InstanceID inst" using j(2) False Cons.prems(2) by auto
    then have k3: "instances (fst (mgr_AddDependency S ?m2 ?j)) k = Some i" using k1 id by simp
    obtain m3 err where add: "mgr_AddDependency S ?m2 ?j = (m3, err)" by fastforce
    show ?thesis
      using Cons.IH [of m3] inv3 k3 k1 False by (simp add: get Let_def add split: option.split del: insert_iff)
  qed
qed simp

lemma add_missing_loop_known:
  assumes "mgr_inv m" and "instances m k = Some i" and "add_missing_loop S rs m es = Some (Ret (), m', es')"
  shows "mgr_inv m' \<and> instances m' k = Some i \<and> es' = es \<and> step_ok m m' \<and> outbox m' = outbox m"
  using assms
proof (induction rs arbitrary: m)
  case (Cons r rs)
  let ?m1 = "if length (pa_MissingInstances r) > 0 then fst (addMissingInstancesUnsafe S m (pa_MissingInstances r)) else m"
  have q: "quiet m ?m1" using addMissing_quiet [OF Cons.prems(1)] by simp
  have "add_missing_loop S rs ?m1 es = Some (Ret (), m', es')"
    using Cons.prems(3) by (auto simp: pbind_def pout_def preturn_def split: outcome.splits prod.splits if_splits)
  from Cons.IH [OF quietD(1) [OF q Cons.prems(1)] _ this] Cons.prems(2)
  have *: "mgr_inv m' \<and> instances m' k = Some i \<and> es' = es \<and> step_ok ?m1 m' \<and> outbox m' = outbox ?m1"
    using addMissing_known [OF Cons.prems(1,2)] by simp
  then show ?case using step_ok_trans [OF quiet_step_ok [OF q]] quietD(8) [OF q] by auto
qed (simp add: preturn_def)

lemma await_length:
  "await sel t quorum n rs m es = Some (r, m', es') \<Longrightarrow> length es' \<le> length es"
proof (induction es arbitrary: n rs m)
  case (Cons e es)
  show ?case
  proof (cases "n < quorum")
    case True
    then show ?thesis
      using Cons by (cases e) (auto split: option.splits intro: le_SucI)
  qed (use Cons.prems in auto)
qed (auto split: if_splits)

lemma await_no_env:
  assumes "await sel t quorum n rs m (used @ rest) = Some (r, m', rest)" and "\<forall>f. Env f \<notin> set used"
  shows "m' = m"
  using assms
proof (induction used arbitrary: n rs m)
  case Nil
  show ?case
  proof (cases "n < quorum \<and> rest \<noteq> []")
    case True
    then obtain e es where "rest = e # es" by (cases rest) auto
    then show ?thesis
      using Nil.prems(1) True by (cases e) (auto split: option.splits dest!: await_length)
  qed (use Nil.prems(1) in \<open>cases rest; auto split: if_splits\<close>)
next
  case (Cons e used)
  then show ?case
    by (cases e) (auto split: if_splits option.splits dest: await_length)
qed

lemma merge_loop_spec:
  assumes "instances m iid = Some i" and "InstanceID i = iid" and "Status i = INSTANCE_PREACCEPTED"
  shows "\<exists>deps. merge_loop iid rs changes m es = Some (Ret
      (changes \<or> (\<exists>r \<in> set rs. set (Dependencies (pa_Instance r)) \<noteq> set (Dependencies i)), None),
      put_instance m (i\<lparr>Dependencies := deps\<rparr>), es) \<and>
    set deps = set (Dependencies i) \<union> (\<Union>r \<in> set rs. set (Dependencies (pa_Instance r)))"
  using assms
proof (induction rs arbitrary: m i changes)
  case Nil
  have "put_instance m (i\<lparr>Dependencies := Dependencies i\<rparr>) = m"
    using Nil by (simp add: put_instance_def imap_Add_def fun_upd_idem)
  then show ?case by (intro exI [of _ "Dependencies i"]) (simp add: preturn_def)
next
  case (Cons r rs)
  let ?R = "set (Dependencies (pa_Instance r))" and ?D = "set (Dependencies i)"
  obtain deps' where merge: "mergeAttributes i (Dependencies (pa_Instance r)) =
      (i\<lparr>Dependencies := deps'\<rparr>, Inr (?R \<noteq> ?D))" "set deps' = ?D \<union> ?R"
    using mergeAttributes_spec [OF Cons.prems(3)] by blast
  let ?i = "i\<lparr>Dependencies := deps'\<rparr>" and ?m = "put_instance m (i\<lparr>Dependencies := deps'\<rparr>)"
  obtain deps where IH: "merge_loop iid rs (changes \<or> ?R \<noteq> ?D) ?m es = Some (Ret
      ((changes \<or> ?R \<noteq> ?D) \<or> (\<exists>r \<in> set rs. set (Dependencies (pa_Instance r)) \<noteq> set deps'), None),
      put_instance ?m (i\<lparr>Dependencies := deps\<rparr>), es)"
    "set deps = set deps' \<union> (\<Union>r \<in> set rs. set (Dependencies (pa_Instance r)))"
    using Cons.IH [of ?m ?i "changes \<or> ?R \<noteq> ?D"] Cons.prems by auto
  have "put_instance ?m (i\<lparr>Dependencies := deps\<rparr>) = put_instance m (i\<lparr>Dependencies := deps\<rparr>)"
    by (simp add: put_instance_def imap_Add_def)
  moreover have "merge_loop iid (r # rs) changes m es = merge_loop iid rs (changes \<or> ?R \<noteq> ?D) ?m es"
    using Cons.prems(1) by (simp add: pbind_def pderef_def imap_Get_def merge(1) pput_def)
  moreover have "((changes \<or> ?R \<noteq> ?D) \<or> (\<exists>r \<in> set rs. set (Dependencies (pa_Instance r)) \<noteq> set deps')) =
      (changes \<or> (\<exists>r \<in> set (r # rs). set (Dependencies (pa_Instance r)) \<noteq> ?D))"
    using merge(2) by auto
  ultimately show ?case using IH merge(2) by (intro exI [of _ deps]) auto
qed

lemma merge_loop_None:
  assumes "instances m iid = Some i" and "merge_loop iid rs changes m es = Some (Ret (c, None), m', es')" and "rs \<noteq> []"
  shows "Status i = INSTANCE_PREACCEPTED"
proof (rule ccontr)
  assume "Status i \<noteq> INSTANCE_PREACCEPTED"
  then show False using assms
    by (cases rs) (auto simp: pbind_def pderef_def imap_Get_def mergeAttributes_def pput_def preturn_def)
qed

lemma sendPreAccept_Ret:
  assumes inv: "mgr_inv m" and ok: "sched_ok es" and run: "sendPreAccept iid replicas m es = Some (Ret rs, m', es')"
  obtains i used where "instances m iid = Some i" and "es = used @ es'" and "Timeout \<notin> set used"
    and "1 + length rs = quorumSize (length replicas)" and "rs = received sel_PreAcceptResponse used"
    and "\<forall>r \<in> set rs. pa_Accepted r" and "step_ok m m'"
    and "prefix (outbox m @ map (\<lambda>n. (node_id n, PreAcceptRequest (Instance_Copy i))) replicas) (outbox m')"
    and "(\<forall>f. Env f \<notin> set used) \<longrightarrow> instances m' = instances m"
proof -
  obtain i where i: "instances m iid = Some i"
    using run by (cases "instances m iid") (auto simp: sendPreAccept_def pbind_def pderef_def imap_Get_def)
  let ?m = "m\<lparr>outbox := outbox m @ map (\<lambda>n. (node_id n, PreAcceptRequest (Instance_Copy i))) replicas\<rparr>"
  obtain rs1 m1 es1 where aw: "await sel_PreAcceptResponse ''Timeout while awaiting pre accept responses''
      (quorumSize (length replicas)) 1 [] ?m es = Some (Ret rs1, m1, es1)"
    and rs: "rs1 = rs \<and> (\<forall>r \<in> set rs. pa_Accepted r) \<and> m1 = m' \<and> es1 = es'"
  proof -
    let ?f = "\<lambda>responses. let accepted = fold (\<lambda>r accepted. accepted \<and> pa_Accepted r) responses True
       in if \<not> accepted
          then pbind (pderef iid) (\<lambda>instance.
               pbind (pstep (\<lambda>m. (updateInstanceBallotFromResponses m instance (map pa_MaxBallot responses), None))) (\<lambda>_.
               pfail (BallotError ''Ballot number rejected'')))
          else preturn responses"
    have "pbind (await sel_PreAcceptResponse ''Timeout while awaiting pre accept responses''
        (quorumSize (length replicas)) 1 []) ?f ?m es = Some (Ret rs, m', es')"
      using run i by (simp add: sendPreAccept_def pbind_def [of "pderef iid"] pbind_def [of "psend _ _"] psend_def pderef_def imap_Get_def)
    then show thesis
    proof (rule pbind_Ret)
      fix rs1 m1 es1
      assume aw: "await sel_PreAcceptResponse ''Timeout while awaiting pre accept responses''
        (quorumSize (length replicas)) 1 [] ?m es = Some (Ret rs1, m1, es1)"
        and f: "?f rs1 m1 es1 = Some (Ret rs, m', es')"
      have "rs1 = rs \<and> (\<forall>r \<in> set rs. pa_Accepted r) \<and> m1 = m' \<and> es1 = es'"
        using f by (auto simp: Let_def fold_and preturn_def pfail_def pbind_def pderef_def pstep_def imap_Get_def
            split: if_splits option.splits)
      with aw show thesis by (rule that)
    qed
  qed
  have inv1: "mgr_inv ?m" using step_okD(1) [OF step_ok_outbox inv] .
  note s = safeD [OF safe_await ok aw]
  obtain used where used: "es = used @ es1" "Timeout \<notin> set used" "rs1 = received sel_PreAcceptResponse used"
    "1 + length (received sel_PreAcceptResponse used) = quorumSize (length replicas)"
    using await_Ret [OF aw] by (auto simp: quorumSize_def)
  have "instances m' = instances m" if "\<forall>f. Env f \<notin> set used"
    using await_no_env [OF aw [unfolded used(1)] that] rs by simp
  moreover have "prefix (outbox ?m) (outbox m')" using step_okD(4) [OF s(1) inv1] rs by simp
  moreover have "step_ok m m'" using step_ok_trans [OF step_ok_outbox s(1)] rs by simp
  ultimately show thesis using that i used rs by simp
qed

lemma preaccept_phase_steps:
  assumes "managerPreAcceptPhase S clock inst m es = Some (Ret (acceptRequired, None), m', es')"
  obtains x m1 es1 rs m2 es2 y m3 es3 where
    "skip_invalid_status (pstep (\<lambda>m. preAcceptInstance S (clock es) m inst True)) m es = Some (Ret x, m1, es1)"
    and "sendPreAccept (InstanceID inst) (getInstanceReplicas m inst) m1 es1 = Some (Ret rs, m2, es2)"
    and "add_missing_loop S rs m2 es2 = Some (Ret y, m3, es3)"
    and "merge_loop (InstanceID inst) rs False m3 es3 = Some (Ret (acceptRequired, None), m', es')"
proof -
  let ?iid = "InstanceID inst"
  let ?p = "pbind (skip_invalid_status (pstep (\<lambda>m. preAcceptInstance S (clock es) m inst True))) (\<lambda>_.
      pbind (sendPreAccept ?iid (getInstanceReplicas m inst)) (\<lambda>paResponses.
      pbind (add_missing_loop S paResponses) (\<lambda>_. mergePreAcceptAttributes ?iid paResponses)))"
  have "?p m es = Some (Ret (acceptRequired, None), m', es')"
    using assms unfolding managerPreAcceptPhase_def pcatch_def
    by (auto simp: pbind_def [of "pget _"] pbind_def [of "pnow _"] pget_def pnow_def preturn_def
        split: option.splits prod.splits outcome.splits)
  then show thesis using that unfolding mergePreAcceptAttributes_def by (elim pbind_Ret)
qed

lemma merge_loop_result:
  assumes "instances m iid = Some j" and "InstanceID j = iid"
    and "merge_loop iid rs False m es = Some (Ret (acceptRequired, None), m', es')"
  obtains deps where "set deps = set (Dependencies j) \<union> (\<Union>r \<in> set rs. set (Dependencies (pa_Instance r)))"
    and "acceptRequired = (\<exists>r \<in> set rs. set (Dependencies (pa_Instance r)) \<noteq> set (Dependencies j))"
    and "m' = put_instance m (j\<lparr>Dependencies := deps\<rparr>)" and "es' = es"
proof (cases "rs = []")
  case True
  have "put_instance m j = m" using assms(1,2) by (simp add: put_instance_def imap_Add_def fun_upd_idem)
  then show thesis using True assms(3) that [of "Dependencies j"] by (simp add: preturn_def)
next
  case False
  from merge_loop_spec [OF assms(1,2) merge_loop_None [OF assms(1,3) False], of rs False es] assms(3) that
  show thesis by auto
qed

text \<open>
  C20: the preaccept phase merges what the replicas know.  When it succeeds, a quorum has
  accepted in time.  The instance has its own dependencies joined with those of every
  response, and an accept phase is required exactly if a response differs from the
  dependencies the leader had.  Unless another goroutine interfered, those are the
  dependencies that were sent to the replicas.
\<close>

theorem preaccept_phase_merges:
  assumes "mgr_inv m" and "sched_ok es"
    and "managerPreAcceptPhase S clock inst m es = Some (Ret (acceptRequired, None), m', es')"
  shows "\<exists>used rs i deps. es = used @ es' \<and> Timeout \<notin> set used \<and> rs = received sel_PreAcceptResponse used \<and>
    1 + length rs = quorumSize (length (getInstanceReplicas m inst)) \<and> (\<forall>r \<in> set rs. pa_Accepted r) \<and>
    instances m' (InstanceID inst) = Some i \<and>
    set (Dependencies i) = deps \<union> (\<Union>r \<in> set rs. set (Dependencies (pa_Instance r))) \<and>
    (acceptRequired \<longleftrightarrow> (\<exists>r \<in> set rs. set (Dependencies (pa_Instance r)) \<noteq> deps)) \<and>
    ((\<forall>f. Env f \<notin> set used) \<longrightarrow> (\<exists>sent. set (Dependencies sent) = deps \<and>
       (\<forall>n \<in> set (getInstanceReplicas m inst). (node_id n, PreAcceptRequest sent) \<in> set (outbox m'))))"
proof -
  let ?iid = "InstanceID inst" and ?reps = "getInstanceReplicas m inst"
  let ?f = "\<lambda>m. preAcceptInstance S (clock es) m inst True"
  obtain x m1 es1 rs m2 es2 y m3 es3 where
    skip: "skip_invalid_status (pstep ?f) m es = Some (Ret x, m1, es1)"
    and send: "sendPreAccept ?iid ?reps m1 es1 = Some (Ret rs, m2, es2)"
    and add: "add_missing_loop S rs m2 es2 = Some (Ret y, m3, es3)"
    and merge: "merge_loop ?iid rs False m3 es3 = Some (Ret (acceptRequired, None), m', es')"
    using assms(3) by (rule preaccept_phase_steps)
  have m1: "m1 = fst (?f m)" "es1 = es" using skip_invalid_status_Ret [OF skip] by simp_all
  have inv1: "mgr_inv m1" using step_okD(1) [OF preAcceptInstance_step(1) assms(1)] m1(1) assms(1) by blast
  have "sched_ok es1" using assms(2) m1(2) by simp
  then obtain i used where i: "instances m1 ?iid = Some i" and es: "es1 = used @ es2" "Timeout \<notin> set used"
    and rs: "1 + length rs = quorumSize (length ?reps)" "rs = received sel_PreAcceptResponse used"
      "\<forall>r \<in> set rs. pa_Accepted r"
    and st: "step_ok m1 m2" and out: "prefix (outbox m1 @ map (\<lambda>n. (node_id n, PreAcceptRequest (Instance_Copy i))) ?reps) (outbox m2)"
    and noenv: "(\<forall>f. Env f \<notin> set used) \<longrightarrow> instances m2 = instances m1"
    by (rule sendPreAccept_Ret [OF inv1 _ send])
  obtain j where j: "instances m2 ?iid = Some j" using step_okD(2) [OF st inv1 i] by blast
  note inv2 = step_okD(1) [OF st inv1]
  have m3: "mgr_inv m3" "instances m3 ?iid = Some j" "es3 = es2" "outbox m3 = outbox m2"
    using add_missing_loop_known [OF inv2 j] add by simp_all
  have jid: "InstanceID j = ?iid" using mgr_invD(1) [OF m3(1,2)] .
  obtain deps where deps: "set deps = set (Dependencies j) \<union> (\<Union>r \<in> set rs. set (Dependencies (pa_Instance r)))"
    "acceptRequired = (\<exists>r \<in> set rs. set (Dependencies (pa_Instance r)) \<noteq> set (Dependencies j))"
    "m' = put_instance m3 (j\<lparr>Dependencies := deps\<rparr>)" "es' = es3" by (rule merge_loop_result [OF m3(2) jid merge])
  have sent: "\<exists>sent. set (Dependencies sent) = set (Dependencies j) \<and>
      (\<forall>n \<in> set ?reps. (node_id n, PreAcceptRequest sent) \<in> set (outbox m'))" if "\<forall>f. Env f \<notin> set used"
  proof (intro exI [of _ "Instance_Copy i"] conjI ballI)
    show "set (Dependencies (Instance_Copy i)) = set (Dependencies j)"
      using noenv that i j by (simp add: Instance_Copy_alt)
    show "(node_id n, PreAcceptRequest (Instance_Copy i)) \<in> set (outbox m')" if "n \<in> set ?reps" for n
      using set_mono_prefix [OF out] that deps(3) m3(4) by auto
  qed
  have final: "instances m' ?iid = Some (j\<lparr>Dependencies := deps\<rparr>)" using deps(3) jid by simp
  show ?thesis
    by (rule exI [of _ used], rule exI [of _ rs], rule exI [of _ "j\<lparr>Dependencies := deps\<rparr>"],
        rule exI [of _ "set (Dependencies j)"])
      (use es rs final deps m1(2) m3(3) sent in simp)
qed

lemma preAcceptInstance_fresh:
  assumes "mgr_inv m" and "instances m (InstanceID inst) = None" and "Status inst \<le> INSTANCE_PREACCEPTED"
    and "st_InterferingKeys S (Command inst) \<noteq> []"
  shows "snd (preAcceptInstance S now m inst incr) = None"
    and "\<exists>i. instances (fst (preAcceptInstance S now m inst incr)) (InstanceID inst) = Some i \<and>
      Status i = INSTANCE_PREACCEPTED"
proof -
  obtain m' where get: "getOrSetInstance S m inst = (m', initialize inst, False)" and q: "quiet m m'"
    using getOrSetInstance_new [OF assms(2)] by blast
  have wf: "dm_wf (depsMngr m')" using quietD(1) [OF q assms(1)] by (simp add: mgr_inv_def)
  have st: "\<not> INSTANCE_PREACCEPTED < Status (initialize inst)"
    using assms(3) by (auto simp: initialize_def status_defs word_le_nat_alt word_less_nat_alt)
  let ?i = "(copyAttributes (initialize inst) inst)\<lparr>Status := INSTANCE_PREACCEPTED\<rparr>"
  obtain d deps where "getInstanceDeps S (depsMngr m') ?i = (d, Inr deps)"
    using getInstanceDeps_ok [OF wf, of S ?i] assms(4) by auto
  then show "snd (preAcceptInstance S now m inst incr) = None"
    and "\<exists>i. instances (fst (preAcceptInstance S now m inst incr)) (InstanceID inst) = Some i \<and>
      Status i = INSTANCE_PREACCEPTED"
    using st by (simp_all add: preAcceptInstance_def get preaccept_def Let_def setDeps_def)
qed

lemma add_missing_loop_none: "\<forall>r \<in> set rs. pa_MissingInstances r = [] \<Longrightarrow> add_missing_loop S rs m es = Some (Ret (), m, es)"
  by (induction rs) (simp_all add: preturn_def pbind_def)

lemma preaccept_phase_succeeds:
  assumes "mgr_inv m" and "instances m (InstanceID inst) = None" and "Status inst \<le> INSTANCE_PREACCEPTED"
    and "st_InterferingKeys S (Command inst) \<noteq> []"
    and "Timeout \<notin> set used" and "used = [] \<or> received sel_PreAcceptResponse [last used] \<noteq> []"
    and "1 + length (received sel_PreAcceptResponse used) = quorumSize (length (getInstanceReplicas m inst))"
    and "\<forall>r \<in> set (received sel_PreAcceptResponse used). pa_Accepted r \<and> pa_MissingInstances r = []"
    and "\<forall>f. Env f \<notin> set used"
  shows "\<exists>acceptRequired m'. managerPreAcceptPhase S clock inst m (used @ rest) = Some (Ret (acceptRequired, None), m', rest)"
proof -
  let ?f = "\<lambda>m. preAcceptInstance S (clock (used @ rest)) m inst True" and ?rs = "received sel_PreAcceptResponse used"
  let ?m1 = "fst (?f m)" and ?reps = "getInstanceReplicas m inst"
  note fresh = preAcceptInstance_fresh [OF assms(1-4), of "clock (used @ rest)" True]
  obtain i where i: "instances ?m1 (InstanceID inst) = Some i" "Status i = INSTANCE_PREACCEPTED"
    using fresh(2) by blast
  let ?m2 = "?m1\<lparr>outbox := outbox ?m1 @ map (\<lambda>n. (node_id n, PreAcceptRequest (Instance_Copy i))) ?reps\<rparr>"
  obtain m3 where aw: "await sel_PreAcceptResponse ''Timeout while awaiting pre accept responses'' (quorumSize (length ?reps)) 1 []
      ?m2 (used @ rest) = Some (Ret ?rs, m3, rest)"
    using await_succeeds [OF assms(5,7,6), of _ "[]" ?m2 rest] by auto
  have m3: "m3 = ?m2" using await_no_env [OF aw assms(9)] .
  have send: "sendPreAccept (InstanceID inst) ?reps ?m1 (used @ rest) = Some (Ret ?rs, ?m2, rest)"
    using i aw assms(8) m3
    by (simp add: sendPreAccept_def pbind_def pderef_def imap_Get_def psend_def Let_def fold_and preturn_def)
  have skip: "skip_invalid_status (pstep ?f) m (used @ rest) = Some (Ret (), ?m1, used @ rest)"
    by (rule skip_invalid_status_succeeds) (use fresh(1) in blast)
  have id: "InstanceID i = InstanceID inst"
    using mgr_invD(1) [OF step_okD(1) [OF preAcceptInstance_step(1) assms(1)] i(1)] assms(1) by blast
  obtain c m4 where merge: "merge_loop (InstanceID inst) ?rs False ?m2 rest = Some (Ret (c, None), m4, rest)"
    using merge_loop_spec [of ?m2 "InstanceID inst" i ?rs False rest] i id by auto
  have "managerPreAcceptPhase S clock inst m (used @ rest) = Some (Ret (c, None), m4, rest)"
    using send skip merge add_missing_loop_none [of ?rs S ?m2 rest] assms(8)
    by (simp add: managerPreAcceptPhase_def mergePreAcceptAttributes_def pcatch_def pbind_def pget_def pnow_def)
  then show ?thesis by blast
qed

text \<open>A fresh instance, and a response that knows another dependency.\<close>

definition ex_fresh :: Instance where
  "ex_fresh = ex_instance\<lparr>Status := 0, Dependencies := [], MaxBallot := 0\<rparr>"

definition ex_preaccepted :: "('s, 'v) event" where
  "ex_preaccepted = Recv (PreAcceptResp \<lparr>pa_Accepted = True, pa_MaxBallot = 1,
     pa_Instance = ex_fresh\<lparr>Dependencies := [\<lparr>b0 = 1, b1 = 1\<rparr>]\<rparr>, pa_MissingInstances = []\<rparr>)"

lemma ex_fresh_fields [simp]:
  "InstanceID ex_fresh = InstanceID ex_instance" "Command ex_fresh = Command ex_instance"
  "Status ex_fresh = 0" "Dependencies ex_fresh = []" "MaxBallot ex_fresh = 0"
  by (simp_all add: ex_fresh_def)

lemma ex_fresh_replicas [simp]: "getInstanceReplicas m ex_fresh = getInstanceReplicas m ex_instance"
  by (simp add: getInstanceReplicas_def)

theorem preaccept_phase_merges_witness:
  "\<exists>acceptRequired m' i. managerPreAcceptPhase ex_store ex_clock ex_fresh (ex_leader ()) [ex_preaccepted, Timeout] =
       Some (Ret (acceptRequired, None), m', [Timeout]) \<and>
     instances m' (InstanceID ex_instance) = Some i \<and> \<lparr>b0 = 1, b1 = 1\<rparr> \<in> set (Dependencies i)"
proof -
  let ?es = "[ex_preaccepted, Timeout] :: (unit, unit) schedule"
  obtain c m' where run: "managerPreAcceptPhase ex_store ex_clock ex_fresh (ex_leader ()) ?es =
      Some (Ret (c, None), m', [Timeout])"
    using preaccept_phase_succeeds [of "ex_leader ()" ex_fresh ex_store "[ex_preaccepted]" ex_clock "[Timeout]"]
    by (auto simp: ex_leader_inv ex_manager_facts ex_preaccepted_def ex_leader_replicas quorumSize_def)
  have "sched_ok ?es" by (simp add: ex_preaccepted_def)
  from preaccept_phase_merges [OF ex_leader_inv this run] obtain used rs i deps where
    *: "?es = used @ [Timeout]" "rs = received sel_PreAcceptResponse used"
      "instances m' (InstanceID ex_fresh) = Some i"
      "set (Dependencies i) = deps \<union> (\<Union>r \<in> set rs. set (Dependencies (pa_Instance r)))"
    by (elim exE conjE) (rule that)
  have "used = [ex_preaccepted]" using *(1) by (metis append1_eq_conv append_Cons append_Nil)
  then have "\<lparr>b0 = 1, b1 = 1\<rparr> \<in> set (Dependencies i)" using *(2,4) by (simp add: ex_preaccepted_def)
  then show ?thesis using run *(3) by auto
qed

end
