(* ===== verification/Prepare.thy ===== *)
theory Prepare
  imports Phases
begin

text \<open>
  The explicit prepare of \<^verbatim>\<open>consensus/manager_prepare.go\<close>: a replica that waits for an
  instance first asks the successors of its leader to finish it, then takes it over itself
  by a prepare round with a higher ballot, and continues from what the other replicas know.

  Processes and schedules are those of the phases.  The prepare lock of an instance is
  granted by an event.  The commit event of an instance is broadcast by
  \<^verbatim>\<open>commitInstance\<close> only, after the status has been set, so an event for an instance
  that is not committed does not occur and is passed over.
\<close>

section \<open>Waiting for one of several events\<close>

definition is_committed :: "('s, 'v) Manager \<Rightarrow> InstanceID \<Rightarrow> bool" where
  "is_committed m iid =
     (case instances m iid of None \<Rightarrow> False | Some i \<Rightarrow> getStatus i \<ge> INSTANCE_COMMITTED)"

fun select :: "InstanceID \<Rightarrow> (('s, 'v) event \<Rightarrow> 'a option) \<Rightarrow> ('s, 'v, 'a) proc" where
  "select iid pick m [] = None"
| "select iid pick m (e # es) =
     (case e of
        Env f \<Rightarrow> select iid pick (f m) es
      | CommitEvent \<Rightarrow>
          (case (if is_committed m iid then pick e else None) of
             Some a \<Rightarrow> Some (Ret a, m, es) | None \<Rightarrow> select iid pick m es)
      | _ \<Rightarrow> (case pick e of Some a \<Rightarrow> Some (Ret a, m, es) | None \<Rightarrow> select iid pick m es))"

fun on_lock :: "('s, 'v) event \<Rightarrow> unit option" where
  "on_lock Locked = Some ()"
| "on_lock _ = None"

text \<open>A timer or the commit event; \<^term>\<open>True\<close> stands for the commit event.\<close>

fun on_commit_or_timeout :: "('s, 'v) event \<Rightarrow> bool option" where
  "on_commit_or_timeout CommitEvent = Some True"
| "on_commit_or_timeout Timeout = Some False"
| "on_commit_or_timeout _ = None"

section \<open>Analysing the responses\<close>

definition analyzePrepareResponses :: "PrepareResponse list \<Rightarrow> Instance option" where
  "analyzePrepareResponses responses =
     (let (otherInstancesSeen, maxBallot) =
            fold (\<lambda>response (seen, maxBallot).
              case p_Instance response of
                None \<Rightarrow> (seen, maxBallot)
              | Some i \<Rightarrow> (True, if MaxBallot i > maxBallot then MaxBallot i else maxBallot))
              responses (False, 0)
      in if \<not> otherInstancesSeen then None
         else snd (fold (\<lambda>response (maxStatus, instance).
              case p_Instance response of
                None \<Rightarrow> (maxStatus, instance)
              | Some i \<Rightarrow>
                  if MaxBallot i < maxBallot then (maxStatus, instance)
                  else if Status i > maxStatus then (Status i, Some i)
                  else (maxStatus, instance))
              responses (0, None)))"

text \<open>
  The unfinished replacement of \<^verbatim>\<open>analyzePrepareResponses\<close>.  The largest ballot is computed and
  not used; the branches on the largest status are empty, and what follows them is a nil instance without an
  error.
\<close>

definition applyPrepareResponses :: "PrepareResponse list \<Rightarrow> Instance \<Rightarrow> error + Instance option" where
  "applyPrepareResponses responses localInstance =
     (let (maxBallot, maxStatus, nilInstances, otherInstances) =
            fold (\<lambda>response (maxBallot, maxStatus, nilInstances, otherInstances).
              case p_Instance response of
                Some i \<Rightarrow> (if MaxBallot i > maxBallot then MaxBallot i else maxBallot,
                  if Status i > maxStatus then Status i else maxStatus, nilInstances, True)
              | None \<Rightarrow> (maxBallot, maxStatus, True, otherInstances))
              responses (0, 0, False, False);
          referenceInstance = Instance_Copy localInstance
      in if \<not> otherInstances
         then if Status referenceInstance \<noteq> INSTANCE_PREACCEPTED
              then Inl (Errorf ''Instance %v is unknown by other nodes, but has a status of %v'')
              else Inr (Some (setNoop referenceInstance))
         else if maxStatus = INSTANCE_PREACCEPTED \<and> \<not> nilInstances then Inr None
         else if maxStatus = INSTANCE_PREACCEPTED then Inr None
         else Inr None)"

section \<open>Sending prepare requests\<close>

fun sel_PrepareResponse :: "consensus_msg \<Rightarrow> PrepareResponse option" where
  "sel_PrepareResponse (PrepareResp r) = Some r"
| "sel_PrepareResponse _ = None"

text \<open>The responses that are there already when the quorum is complete are taken as well.\<close>

fun drain :: "(consensus_msg \<Rightarrow> 'r option) \<Rightarrow> 'r list \<Rightarrow> ('s, 'v, 'r list) proc" where
  "drain sel responses m (Recv r # es) =
     (case sel r of
        Some response \<Rightarrow> drain sel (responses @ [response]) m es
      | None \<Rightarrow> Some (Ret responses, m, Recv r # es))"
| "drain sel responses m es = Some (Ret responses, m, es)"

definition managerSendPrepare :: "InstanceID \<Rightarrow> ('s, 'v, PrepareResponse list) proc" where
  "managerSendPrepare iid =
     pbind (pderef iid) (\<lambda>instance.
     pbind (pget (\<lambda>m. getInstanceReplicas m instance)) (\<lambda>replicas.
     pbind (pput (fst (incrementBallot instance))) (\<lambda>_.
     pbind (psend replicas (PrepareRequest (snd (incrementBallot instance)) (InstanceID instance))) (\<lambda>_.
     pbind (await sel_PrepareResponse ''Timeout while awaiting pre accept responses''
              (quorumSize (length replicas)) 1 []) (\<lambda>responses.
     drain sel_PrepareResponse responses)))))"

section \<open>Applying the responses\<close>

definition response_maxima :: "PrepareResponse list \<Rightarrow> bool \<times> 32 word \<times> InstanceStatus" where
  "response_maxima responses =
     fold (\<lambda>response (accepted, maxBallot, maxStatus).
       case p_Instance response of
         None \<Rightarrow> (accepted \<and> p_Accepted response, maxBallot, maxStatus)
       | Some i \<Rightarrow>
           (accepted \<and> p_Accepted response,
            if MaxBallot i > maxBallot then MaxBallot i else maxBallot,
            if Status i > maxStatus then Status i else maxStatus))
       responses (True, 0, 0)"

definition max_instance :: "PrepareResponse list \<Rightarrow> 32 word \<Rightarrow> InstanceStatus \<Rightarrow> Instance option" where
  "max_instance responses maxBallot maxStatus =
     fold (\<lambda>response maxInstance.
       case p_Instance response of
         None \<Rightarrow> maxInstance
       | Some rInstance \<Rightarrow>
           if MaxBallot rInstance = maxBallot \<and> Status rInstance = maxStatus then Some rInstance
           else maxInstance)
       responses None"

text \<open>Catching up with an instance of a higher status.\<close>

definition catch_up :: "('s, 'v) Store \<Rightarrow> ('s, 'v) clock \<Rightarrow> Instance \<Rightarrow> ('s, 'v, unit) proc" where
  "catch_up S clock inst =
     (if Status inst = INSTANCE_ACCEPTED
      then pbind (pnow clock) (\<lambda>now. pstep (\<lambda>m. acceptInstance S now m inst False))
      else if Status inst \<in> {INSTANCE_COMMITTED, INSTANCE_EXECUTED}
      then pstep (\<lambda>m. commitInstance S m inst False)
      else preturn ())"

definition managerPrepareCheckResponses ::
    "('s, 'v) Store \<Rightarrow> ('s, 'v) clock \<Rightarrow> InstanceID \<Rightarrow> PrepareResponse list \<Rightarrow> ('s, 'v, unit) proc" where
  "managerPrepareCheckResponses S clock iid responses =
     (case response_maxima responses of
        (accepted, maxBallot, maxStatus) \<Rightarrow>
          pbind (pderef iid) (\<lambda>instance.
          pbind (pput (fst (updateBallot instance maxBallot))) (\<lambda>_.
          if \<not> accepted
          then pbind (pderef iid) (\<lambda>instance.
               pbind (case max_instance responses maxBallot maxStatus of
                   None \<Rightarrow> preturn ()
                 | Some maxInstance \<Rightarrow>
                     if Status maxInstance > getStatus instance then catch_up S clock maxInstance
                     else preturn ()) (\<lambda>_.
               pfail (BallotError ''Prepare request(s) rejected'')))
          else preturn ())))"

text \<open>
  \<open>prepareInstance\<close> is the local instance, which is read when it is used, or a remote one.
\<close>

definition prepare_instance :: "InstanceID \<Rightarrow> Instance option \<Rightarrow> ('s, 'v, Instance) proc" where
  "prepare_instance iid prepareInstance =
     (case prepareInstance of None \<Rightarrow> pderef iid | Some remote \<Rightarrow> preturn remote)"

definition prepare_commit :: "('s, 'v) Store \<Rightarrow> InstanceID \<Rightarrow> Instance option \<Rightarrow> ('s, 'v, unit) proc" where
  "prepare_commit S iid prepareInstance =
     pbind (prepare_instance iid prepareInstance) (\<lambda>inst. managerCommitPhase S inst)"

definition prepare_accept ::
    "('s, 'v) Store \<Rightarrow> ('s, 'v) clock \<Rightarrow> InstanceID \<Rightarrow> bool \<Rightarrow> Instance option \<Rightarrow> ('s, 'v, unit) proc" where
  "prepare_accept S clock iid acceptRequired prepareInstance =
     (if acceptRequired
      then pbind (prepare_instance iid prepareInstance) (\<lambda>inst.
           pbind (managerAcceptPhase S clock inst) (\<lambda>_. prepare_commit S iid None))
      else prepare_commit S iid prepareInstance)"

definition prepare_preaccept ::
    "('s, 'v) Store \<Rightarrow> ('s, 'v) clock \<Rightarrow> InstanceID \<Rightarrow> Instance option \<Rightarrow> ('s, 'v, unit) proc" where
  "prepare_preaccept S clock iid prepareInstance =
     pbind (prepare_instance iid prepareInstance) (\<lambda>inst.
     pbind (managerPreAcceptPhase S clock inst) (\<lambda>(acceptRequired, err).
       case err of Some e \<Rightarrow> pfail e | None \<Rightarrow> prepare_accept S clock iid acceptRequired None))"

definition choose_instance ::
    "InstanceID \<Rightarrow> PrepareResponse list \<Rightarrow> ('s, 'v, Instance option \<times> InstanceStatus) proc" where
  "choose_instance iid responses =
     pbind (pderef iid) (\<lambda>instance.
       case analyzePrepareResponses responses of
         Some remoteInstance \<Rightarrow>
           if Status instance > Status remoteInstance then preturn (None, Status instance)
           else preturn (Some remoteInstance, Status remoteInstance)
       | None \<Rightarrow>
           if Status instance \<le> INSTANCE_PREACCEPTED
           then pbind (pput (setNoop instance)) (\<lambda>_. preturn (None, INSTANCE_PREACCEPTED))
           else preturn (None, INSTANCE_PREACCEPTED))"

definition managerPrepareApply ::
    "('s, 'v) Store \<Rightarrow> ('s, 'v) clock \<Rightarrow> InstanceID \<Rightarrow> PrepareResponse list \<Rightarrow> ('s, 'v, unit) proc" where
  "managerPrepareApply S clock iid responses =
     pbind (managerPrepareCheckResponses S clock iid responses) (\<lambda>_.
     pbind (choose_instance iid responses) (\<lambda>(prepareInstance, status).
       if status = INSTANCE_PREACCEPTED then prepare_preaccept S clock iid prepareInstance
       else if status = INSTANCE_ACCEPTED then prepare_accept S clock iid True prepareInstance
       else if status \<in> {INSTANCE_COMMITTED, INSTANCE_EXECUTED} then prepare_commit S iid prepareInstance
       else pfail (Errorf ''Unknown instance status: %v'')))"

definition managerPreparePhase ::
    "('s, 'v) Store \<Rightarrow> ('s, 'v) clock \<Rightarrow> InstanceID \<Rightarrow> ('s, 'v, unit) proc" where
  "managerPreparePhase S clock iid =
     pbind (pderef iid) (\<lambda>instance.
       if getStatus instance \<ge> INSTANCE_COMMITTED then preturn ()
       else pbind (managerSendPrepare iid) (\<lambda>responses. managerPrepareApply S clock iid responses))"

section \<open>Deferring to the successors\<close>

datatype successor_event =
    Response "Instance option"
  | Failed
  | Committed
  | TimedOut

fun on_successor :: "('s, 'v) event \<Rightarrow> successor_event option" where
  "on_successor (Recv (PrepareSuccessorResponse i)) = Some (Response i)"
| "on_successor SendError = Some Failed"
| "on_successor CommitEvent = Some Committed"
| "on_successor Timeout = Some TimedOut"
| "on_successor _ = None"

definition psend_id :: "NodeId \<Rightarrow> consensus_msg \<Rightarrow> ('s, 'v, unit) proc" where
  "psend_id nid msg m es = Some (Ret (), m\<lparr>outbox := outbox m @ [(nid, msg)]\<rparr>, es)"

text \<open>
  A response with a higher status: the code accepts or commits the local instance, not the
  one of the response.
\<close>

definition handle_successor ::
    "('s, 'v) Store \<Rightarrow> ('s, 'v) clock \<Rightarrow> InstanceID \<Rightarrow> Instance \<Rightarrow> ('s, 'v, bool \<times> error option) proc" where
  "handle_successor S clock iid response =
     pbind (pderef iid) (\<lambda>instance.
       if Status response > getStatus instance
       then pcatch
         (if Status response = INSTANCE_ACCEPTED
          then pbind (pnow clock) (\<lambda>now.
               pbind (pstep (\<lambda>m. acceptInstance S now m instance False)) (\<lambda>_. preturn (False, None)))
          else if Status response \<in> {INSTANCE_COMMITTED, INSTANCE_EXECUTED}
          then pbind (pstep (\<lambda>m. commitInstance S m instance False)) (\<lambda>_. preturn (True, None))
          else preturn (False, None))
         (\<lambda>err. preturn (False, Some err))
       else preturn (False, None))"

fun successor_loop ::
    "('s, 'v) Store \<Rightarrow> ('s, 'v) clock \<Rightarrow> InstanceID \<Rightarrow> NodeId \<Rightarrow> NodeId list \<Rightarrow> NodeId list \<Rightarrow>
     ('s, 'v, bool \<times> error option) proc" where
  "successor_loop S clock iid localID replicas [] = preturn (True, None)"
| "successor_loop S clock iid localID replicas (nid # nids) =
     (if nid = localID then preturn (True, None)
      else if nid \<in> set replicas
      then pbind (psend_id nid (PrepareSuccessorRequest iid)) (\<lambda>_.
           pbind (select iid on_successor) (\<lambda>e.
             case e of
               Response None \<Rightarrow> successor_loop S clock iid localID replicas nids
             | Response (Some response) \<Rightarrow> handle_successor S clock iid response
             | Failed \<Rightarrow> successor_loop S clock iid localID replicas nids
             | Committed \<Rightarrow> preturn (True, None)
             | TimedOut \<Rightarrow> successor_loop S clock iid localID replicas nids))
      else successor_loop S clock iid localID replicas nids)"

definition managerDeferToSuccessor ::
    "('s, 'v) Store \<Rightarrow> ('s, 'v) clock \<Rightarrow> InstanceID \<Rightarrow> ('s, 'v, bool \<times> error option) proc" where
  "managerDeferToSuccessor S clock iid =
     pbind (pderef iid) (\<lambda>instance.
     pbind (pget (\<lambda>m. getInstanceReplicas m instance)) (\<lambda>replicas.
     pbind (pget GetLocalID) (\<lambda>localID.
     successor_loop S clock iid localID (map node_id replicas) (getSuccessors instance))))"

section \<open>Preparing an instance\<close>

definition prepareShouldProceed :: "('s, 'v) clock \<Rightarrow> InstanceID \<Rightarrow> ('s, 'v, bool) proc" where
  "prepareShouldProceed clock iid =
     pbind (pderef iid) (\<lambda>instance.
       if getStatus instance \<ge> INSTANCE_COMMITTED then preturn False
       else pbind (pnow clock) (\<lambda>now.
         if Time_After now (commitTimeout instance) then preturn True
         else pbind (select iid on_commit_or_timeout) (\<lambda>committed.
              if committed then preturn False
              else pbind (pderef iid) (\<lambda>instance. preturn (\<not> getStatus instance \<ge> INSTANCE_COMMITTED)))))"

text \<open>
  The loop that contacts the successors again and again: \<^term>\<open>True\<close> to go on with the prepare
  phase, \<^term>\<open>False\<close> if the instance was committed.  Each round takes an event, so the length
  of the schedule bounds the rounds.
\<close>

fun defer_loop :: "('s, 'v) Store \<Rightarrow> ('s, 'v) clock \<Rightarrow> InstanceID \<Rightarrow> nat \<Rightarrow> ('s, 'v, bool) proc" where
  "defer_loop S clock iid 0 = (\<lambda>m es. None)"
| "defer_loop S clock iid (Suc n) =
     pbind (managerDeferToSuccessor S clock iid) (\<lambda>(deferred, err).
     pbind (pderef iid) (\<lambda>inst.
       if (\<not> deferred \<or> err \<noteq> None) \<and> getStatus inst < INSTANCE_COMMITTED
       then case err of
           Some e \<Rightarrow> pfail e
         | None \<Rightarrow>
             pbind (select iid on_commit_or_timeout) (\<lambda>committed.
               if committed then preturn False else defer_loop S clock iid n)
       else preturn True))"

definition managerPrepareInstance ::
    "('s, 'v) Store \<Rightarrow> ('s, 'v) clock \<Rightarrow> InstanceID \<Rightarrow> ('s, 'v, unit) proc" where
  "managerPrepareInstance S clock iid =
     pbind (pderef iid) (\<lambda>inst.
     pbind (pstep (\<lambda>m. (fst (getOrSetInstance S m inst), None))) (\<lambda>_.
     pbind (select iid on_lock) (\<lambda>_.
     pbind (prepareShouldProceed clock iid) (\<lambda>proceed.
       if \<not> proceed then preturn ()
       else
         pbind (\<lambda>m es. defer_loop S clock iid (Suc (length es)) m es) (\<lambda>go_on.
           if \<not> go_on then preturn ()
           else
             pbind (prepareShouldProceed clock iid) (\<lambda>proceed.
               if \<not> proceed then preturn () else managerPreparePhase S clock iid))))))"

section \<open>Requests to a successor\<close>

definition BALLOT_FAILURE_RETRIES :: nat where
  "BALLOT_FAILURE_RETRIES = 4"

fun is_BallotError :: "error \<Rightarrow> bool" where
  "is_BallotError (BallotError _) = True"
| "is_BallotError _ = False"

text \<open>
  The goroutine that \<^verbatim>\<open>HandlePrepareSuccessor\<close> starts.  An error that is not a
  ballot error is logged and the next attempt starts at once.
\<close>

fun successor_prepare :: "('s, 'v) Store \<Rightarrow> ('s, 'v) clock \<Rightarrow> InstanceID \<Rightarrow> nat \<Rightarrow> ('s, 'v, unit) proc" where
  "successor_prepare S clock iid 0 = preturn ()"
| "successor_prepare S clock iid (Suc n) =
     pbind (pderef iid) (\<lambda>instance.
     pcatch (managerPrepareInstance S clock iid) (\<lambda>err.
       if is_BallotError err
       then pbind (select iid on_commit_or_timeout) (\<lambda>committed.
            if committed then preturn () else successor_prepare S clock iid n)
       else successor_prepare S clock iid n))"

definition HandlePrepareSuccessor_go ::
    "('s, 'v) Store \<Rightarrow> ('s, 'v) clock \<Rightarrow> InstanceID \<Rightarrow> ('s, 'v, unit) proc" where
  "HandlePrepareSuccessor_go S clock iid =
     pbind (pderef iid) (\<lambda>instance.
       if getStatus instance < INSTANCE_COMMITTED
       then successor_prepare S clock iid BALLOT_FAILURE_RETRIES else preturn ())"

lemma status_not_le [simp]:
  "\<not> INSTANCE_ACCEPTED \<le> INSTANCE_PREACCEPTED" "\<not> INSTANCE_COMMITTED \<le> INSTANCE_ACCEPTED"
  "\<not> INSTANCE_COMMITTED \<le> INSTANCE_PREACCEPTED"
  by (simp_all add: not_le)

section \<open>Preparing keeps the invariant\<close>

text \<open>A process that is only run where the manager satisfies a condition.\<close>

definition safe_if :: "(('s, 'v) Manager \<Rightarrow> bool) \<Rightarrow> ('s, 'v, 'a) proc \<Rightarrow> bool" where
  "safe_if P p \<longleftrightarrow> (\<forall>m es r m' es'. P m \<longrightarrow> sched_ok es \<longrightarrow> p m es = Some (r, m', es') \<longrightarrow>
     step_ok m m' \<and> (\<exists>used. es = used @ es'))"

lemma safe_ifD:
  assumes "safe_if P p" and "P m" and "sched_ok es" and "p m es = Some (r, m', es')"
  shows "step_ok m m'" and "sched_ok es'" and "\<exists>used. es = used @ es'"
proof -
  have "step_ok m m' \<and> (\<exists>used. es = used @ es')" using assms unfolding safe_if_def by blast
  then show "step_ok m m'" and "\<exists>used. es = used @ es'" by blast+
  then show "sched_ok es'" using assms(3) sched_ok_append by blast
qed

lemma safe_ifI:
  "(\<And>m es r m' es'. P m \<Longrightarrow> sched_ok es \<Longrightarrow> p m es = Some (r, m', es') \<Longrightarrow> step_ok m m' \<and> (\<exists>used. es = used @ es')) \<Longrightarrow>
     safe_if P p"
  unfolding safe_if_def by blast

lemma safe_if_weaken: "safe p \<Longrightarrow> safe_if P p"
  unfolding safe_def safe_if_def by blast

lemma safe_if_bind:
  assumes "safe_if P p" and "\<And>a. safe (f a)"
  shows "safe_if P (pbind p f)"
proof (rule safe_ifI)
  fix m es r m' es'
  assume P: "P m" and ok: "sched_ok es" and run: "pbind p f m es = Some (r, m', es')"
  obtain r1 m1 es1 where p: "p m es = Some (r1, m1, es1)"
    using run by (cases "p m es") (auto simp: pbind_def)
  note 1 = safe_ifD [OF assms(1) P ok p]
  show "step_ok m m' \<and> (\<exists>used. es = used @ es')"
  proof (cases r1)
    case (Ret a)
    then have "f a m1 es1 = Some (r, m', es')" using run p by (simp add: pbind_def)
    note 2 = safeD [OF assms(2) 1(2) this]
    from 1(3) 2(3) have "\<exists>used. es = used @ es'" by (metis append.assoc)
    then show ?thesis using step_ok_trans [OF 1(1) 2(1)] by blast
  qed (use run p 1 in \<open>auto simp: pbind_def\<close>)
qed

lemma safe_if_get: "(\<And>a. safe_if P (f a)) \<Longrightarrow> safe_if P (pbind (pget g) f)"
  unfolding safe_if_def pbind_def pget_def by simp

lemma safe_deref:
  assumes "\<And>i. safe_if (\<lambda>m. instances m iid = Some i) (f i)"
  shows "safe (pbind (pderef iid) f)"
proof (rule safeI)
  fix m es r m' es'
  assume ok: "sched_ok es" and run: "pbind (pderef iid) f m es = Some (r, m', es')"
  show "step_ok m m' \<and> (\<exists>used. es = used @ es')"
  proof (cases "instances m iid")
    case (Some i)
    then have "f i m es = Some (r, m', es')" using run by (simp add: pbind_def pderef_def imap_Get_def)
    from safe_ifD [OF assms Some ok this] show ?thesis by blast
  qed (use run in \<open>auto simp: pbind_def pderef_def imap_Get_def\<close>)
qed

lemma safe_if_put:
  assumes "moves i j"
  shows "safe_if (\<lambda>m. instances m iid = Some i) (pput j)"
proof (rule safe_ifI)
  fix m es r m' es'
  assume i: "instances m iid = Some i" and run: "pput j m es = Some (r, m', es')"
  have "step_ok m (put_instance m j)"
  proof (rule step_okI)
    assume "mgr_inv m"
    then have "instances m (InstanceID i) = Some i" using mgr_invD(1) i by blast
    then show "step_ok m (put_instance m j)" using step_ok_move assms by blast
  qed
  then show "step_ok m m' \<and> (\<exists>used. es = used @ es')" using run by (auto simp: pput_def)
qed

lemma safe_select [safe_intros]: "safe (select iid pick)"
proof (rule safeI)
  fix m es r m' es'
  assume "sched_ok es" and "select iid pick m es = Some (r, m', es')"
  then show "step_ok m m' \<and> (\<exists>used. es = used @ es')"
  proof (induction es arbitrary: m)
    case (Cons e es)
    have ok: "sched_ok es" using Cons.prems(1) sched_ok_append [of "[e]" es] by simp
    have more: "\<exists>used. e # es = used @ es'" if "\<exists>used. es = used @ es'" using that by (metis append_Cons)
    have now: "\<exists>used. e # es = used @ es" by (rule exI [of _ "[e]"]) simp
    show ?case
    proof (cases "\<exists>f. e = Env f")
      case True
      then obtain f where e: "e = Env f" ..
      then have "step_ok m (f m)" using Cons.prems(1) by (simp add: sched_ok_def)
      moreover have "step_ok (f m) m' \<and> (\<exists>used. es = used @ es')"
        using Cons.IH [OF ok] Cons.prems(2) e by simp
      ultimately show ?thesis using more step_ok_trans by blast
    next
      case False
      then have "select iid pick m es = Some (r, m', es') \<or> m' = m \<and> es' = es"
        using Cons.prems(2) by (cases e) (auto split: option.splits if_splits)
      then show ?thesis using Cons.IH [OF ok] more now by auto
    qed
  qed simp
qed

lemma safe_drain [safe_intros]: "safe (drain sel responses)"
proof (rule safeI)
  fix m :: "('s, 'v) Manager" and es r m' es'
  assume "drain sel responses m es = Some (r, m', es')"
  then show "step_ok m m' \<and> (\<exists>used. es = used @ es')"
  proof (induction sel responses m es rule: drain.induct)
    case (1 sel rs m x es)
    then show ?case
      by (cases "sel x") (auto intro: exI [of _ "_ # _"])
  qed auto
qed

lemma moves_incrementBallot [simp]: "moves i (fst (incrementBallot i))"
  by (simp add: incrementBallot_def Let_def bump_moves)

lemma moves_updateBallot [simp]: "moves i (fst (updateBallot i b))"
  by (intro advances_moves updateBallot_advances)

lemma moves_setNoop:
  assumes "Status i \<le> INSTANCE_PREACCEPTED"
  shows "moves i (setNoop i)"
proof -
  have "Status i \<noteq> INSTANCE_EXECUTED" using leD [OF assms] status_order(5) by auto
  then show ?thesis by (simp add: moves_def advances_def instance_le_def setNoop_def)
qed

lemma safe_managerSendPrepare [safe_intros]: "safe (managerSendPrepare iid)"
  unfolding managerSendPrepare_def
  by (intro safe_deref safe_if_get safe_if_bind safe_if_put moves_incrementBallot safe_intros)

lemma safe_catch_up [safe_intros]: "safe (catch_up S clock inst)"
  unfolding catch_up_def by (auto intro!: safe_intros)

lemma safe_CheckResponses [safe_intros]: "safe (managerPrepareCheckResponses S clock iid responses)"
  unfolding managerPrepareCheckResponses_def split_beta
  by (intro safe_deref safe_if_bind safe_if_put moves_updateBallot)
    (auto intro!: safe_intros split: option.split)

lemma safe_prepare_instance [safe_intros]: "safe (prepare_instance iid prepareInstance)"
  unfolding prepare_instance_def by (auto intro: safe_intros split: option.split)

lemma safe_prepare_steps [safe_intros]:
  "safe (prepare_commit S iid inst)" "safe (prepare_accept S clock iid req inst)" "safe (prepare_preaccept S clock iid inst)"
  unfolding prepare_commit_def prepare_accept_def prepare_preaccept_def
  by (auto intro!: safe_intros split: option.split)

lemma safe_choose_instance [safe_intros]: "safe (choose_instance iid responses)"
  unfolding choose_instance_def
  by (rule safe_deref)
    (auto intro!: safe_if_weaken [OF safe_basic(1)] safe_if_bind safe_if_put moves_setNoop safe_intros split: option.split)

lemma safe_managerPrepareApply [safe_intros]: "safe (managerPrepareApply S clock iid responses)"
  unfolding managerPrepareApply_def by (auto intro!: safe_intros)

lemma safe_managerPreparePhase [safe_intros]: "safe (managerPreparePhase S clock iid)"
  unfolding managerPreparePhase_def by (auto intro!: safe_intros)

lemma safe_send_id [safe_intros]: "safe (psend_id nid msg)"
  by (rule safeI) (auto simp: psend_id_def)

lemma safe_handle_successor [safe_intros]: "safe (handle_successor S clock iid response)"
  unfolding handle_successor_def by (auto intro!: safe_intros)

lemma safe_successor_loop [safe_intros]: "safe (successor_loop S clock iid localID replicas nids)"
  by (induction nids) (auto intro!: safe_intros split: successor_event.split option.split)

lemma safe_managerDeferToSuccessor [safe_intros]: "safe (managerDeferToSuccessor S clock iid)"
  unfolding managerDeferToSuccessor_def by (intro safe_intros)

lemma safe_prepareShouldProceed [safe_intros]: "safe (prepareShouldProceed clock iid)"
  unfolding prepareShouldProceed_def by (auto intro!: safe_intros)

lemma safe_defer_loop [safe_intros]: "safe (defer_loop S clock iid n)"
proof (induction n)
  case 0
  show ?case by (rule safeI) simp
next
  case (Suc n)
  then show ?case by (auto intro!: safe_intros split: option.split)
qed

lemma safe_defer_fuel [safe_intros]: "safe (\<lambda>m es. defer_loop S clock iid (Suc (length es)) m es)"
  using safe_defer_loop unfolding safe_def by blast

lemma safe_getOrSet [safe_intros]: "safe (pstep (\<lambda>m. (fst (getOrSetInstance S m inst), None)))"
proof (rule safe_step)
  fix m
  obtain m' i e where "getOrSetInstance S m inst = (m', i, e)" "quiet m m'"
    using getOrSetInstance_spec by blast
  then show "step_ok m (fst (fst (getOrSetInstance S m inst), None))" by (simp add: quiet_step_ok)
qed

lemma safe_managerPrepareInstance [safe_intros]: "safe (managerPrepareInstance S clock iid)"
  unfolding managerPrepareInstance_def by (intro safe_intros) (auto intro!: safe_intros simp del: defer_loop.simps)

lemma safe_successor_prepare [safe_intros]: "safe (successor_prepare S clock iid n)"
  by (induction n) (auto intro!: safe_intros)

lemma safe_HandlePrepareSuccessor_go [safe_intros]: "safe (HandlePrepareSuccessor_go S clock iid)"
  unfolding HandlePrepareSuccessor_go_def by (auto intro!: safe_intros)

section \<open>What a prepare achieves\<close>

text \<open>
  Partial correctness of processes.  The schedules are those in which a response to a
  prepare request for an instance carries this instance, as
  \<^verbatim>\<open>HandlePrepare\<close> sends it.
\<close>

named_theorems hoare_rules \<open>rules of partial correctness\<close>

definition sched_for :: "InstanceID \<Rightarrow> ('s, 'v) schedule \<Rightarrow> bool" where
  "sched_for iid es \<longleftrightarrow> sched_ok es \<and>
     (\<forall>r i. Recv (PrepareResp r) \<in> set es \<longrightarrow> p_Instance r = Some i \<longrightarrow> InstanceID i = iid)"

definition hoare ::
    "InstanceID \<Rightarrow> (('s, 'v) Manager \<Rightarrow> bool) \<Rightarrow> ('s, 'v, 'a) proc \<Rightarrow> ('a \<Rightarrow> ('s, 'v) Manager \<Rightarrow> bool) \<Rightarrow> bool" where
  "hoare iid P p Q \<longleftrightarrow> (\<forall>m es a m' es'. mgr_inv m \<longrightarrow> P m \<longrightarrow> sched_for iid es \<longrightarrow>
     p m es = Some (Ret a, m', es') \<longrightarrow> Q a m')"

lemma hoareI:
  "(\<And>m es a m' es'. mgr_inv m \<Longrightarrow> P m \<Longrightarrow> sched_for iid es \<Longrightarrow> p m es = Some (Ret a, m', es') \<Longrightarrow> Q a m') \<Longrightarrow>
     hoare iid P p Q"
  unfolding hoare_def by blast

lemma hoareD:
  "hoare iid P p Q \<Longrightarrow> mgr_inv m \<Longrightarrow> P m \<Longrightarrow> sched_for iid es \<Longrightarrow> p m es = Some (Ret a, m', es') \<Longrightarrow> Q a m'"
  unfolding hoare_def by blast

lemma hoare_bind [hoare_rules]:
  assumes "safe p" and "hoare iid P p R" and "\<And>a. hoare iid (R a) (f a) Q"
  shows "hoare iid P (pbind p f) Q"
proof (rule hoareI)
  fix m es b m' es'
  assume m: "mgr_inv m" "P m" and es: "sched_for iid es" and run: "pbind p f m es = Some (Ret b, m', es')"
  obtain a m1 es1 where p: "p m es = Some (Ret a, m1, es1)" and f: "f a m1 es1 = Some (Ret b, m', es')"
    using run by (rule pbind_Ret)
  have ok: "sched_ok es" using es by (simp add: sched_for_def)
  note s = safeD [OF assms(1) ok p]
  have "set es1 \<subseteq> set es" using s(3) by auto
  then have "sched_for iid es1" using es s(2) unfolding sched_for_def by blast
  with hoareD [OF assms(3) step_okD(1) [OF s(1) m(1)] _ _ f] hoareD [OF assms(2) m es p] show "Q b m'" by blast
qed

lemma hoare_conseq: "hoare iid P p Q \<Longrightarrow> (\<And>m. P' m \<Longrightarrow> P m) \<Longrightarrow> (\<And>a m. Q a m \<Longrightarrow> Q' a m) \<Longrightarrow> hoare iid P' p Q'"
  unfolding hoare_def by blast

lemma hoare_true: "hoare iid P p (\<lambda>_ _. True)"
  by (simp add: hoare_def)

lemma hoare_seq: "safe p \<Longrightarrow> (\<And>a. hoare iid (\<lambda>_. True) (f a) Q) \<Longrightarrow> hoare iid P (pbind p f) Q"
  by (rule hoare_bind [where R = "\<lambda>_ _. True"]) (simp_all add: hoare_true)

lemma hoare_return [hoare_rules]: "(\<And>m. P m \<Longrightarrow> Q a m) \<Longrightarrow> hoare iid P (preturn a) Q"
  by (simp add: hoare_def preturn_def)

lemma hoare_fail [hoare_rules]: "hoare iid P (pfail e) Q"
  by (simp add: hoare_def pfail_def)

lemma hoare_deref: "hoare iid P (pderef k) (\<lambda>i m. P m \<and> instances m k = Some i \<and> InstanceID i = k)"
  using mgr_invD(1) by (auto simp: hoare_def pderef_def imap_Get_def split: option.splits)

lemma hoare_if [hoare_rules]: "(b \<Longrightarrow> hoare iid P p Q) \<Longrightarrow> (\<not> b \<Longrightarrow> hoare iid P q Q) \<Longrightarrow> hoare iid P (if b then p else q) Q"
  by simp

lemma is_committed_step:
  assumes "step_ok m m'" and "mgr_inv m" and "is_committed m iid"
  shows "is_committed m' iid"
proof -
  obtain i where i: "instances m iid = Some i" "INSTANCE_COMMITTED \<le> Status i"
    using assms(3) by (auto simp: is_committed_def getStatus_def split: option.splits)
  then obtain j where "instances m' iid = Some j" "instance_grows i j"
    using step_okD(2) [OF assms(1,2)] by blast
  with i(2) instance_grows_fields [of i j] show ?thesis by (auto simp: is_committed_def getStatus_def)
qed

lemma select_commit:
  "select iid on_commit_or_timeout m es = Some (Ret c, m', es') \<Longrightarrow> c \<Longrightarrow> is_committed m' iid"
proof (induction es arbitrary: m)
  case (Cons e es)
  then show ?case by (cases e) (auto split: option.splits if_splits)
qed simp

lemma hoare_select: "hoare iid P (select k on_commit_or_timeout) (\<lambda>c m. c \<longrightarrow> is_committed m k)"
  using select_commit by (auto simp: hoare_def)

lemma hoare_ShouldProceed: "hoare iid P (prepareShouldProceed clock k) (\<lambda>c m. \<not> c \<longrightarrow> is_committed m k)"
  unfolding prepareShouldProceed_def
  by (intro hoare_bind [OF _ hoare_deref] hoare_if hoare_bind [OF _ hoare_select] hoare_seq [OF safe_basic(5)] hoare_return safe_intros)
    (auto simp: is_committed_def getStatus_def)

lemma hoare_defer_loop: "hoare iid P (defer_loop S clock k n) (\<lambda>c m. \<not> c \<longrightarrow> is_committed m k)"
proof (induction n arbitrary: P)
  case (Suc n)
  show ?case
    by (auto intro!: hoare_seq hoare_bind [OF _ hoare_select] hoare_conseq [OF Suc.IH] hoare_rules safe_intros
        split: option.split)
qed (simp add: hoare_def)

lemma hoare_commit_phase: "hoare iid P (managerCommitPhase S inst) (\<lambda>_ m. is_committed m (InstanceID inst))"
proof (rule hoareI)
  fix m :: "('a, 'b) Manager" and es a m' es'
  assume inv: "mgr_inv m" and run: "managerCommitPhase S inst m es = Some (Ret a, m', es')" and es: "sched_for iid es"
  let ?f = "\<lambda>m. commitInstance S m inst True"
  obtain x m1 es1 where skip: "skip_invalid_status (pstep ?f) m es = Some (Ret x, m1, es1)"
    and send: "sendCommit (InstanceID inst) (getInstanceReplicas m inst) m1 es1 = Some (Ret a, m', es')"
    using run unfolding managerCommitPhase_def
    by (auto simp: pbind_def [of "pget _"] pget_def elim!: pbind_Ret)
  have m1: "m1 = fst (?f m)" using skip_invalid_status_Ret [OF skip] by simp
  note c = commitInstance_step [OF inv, of S inst True]
  have "is_committed m1 (InstanceID inst)" using c(2) m1 by (auto simp: is_committed_def getStatus_def)
  moreover have "instances m' = instances m1"
    using send by (auto simp: sendCommit_def pbind_def pderef_def psend_def split: option.splits)
  ultimately show "is_committed m' (InstanceID inst)" by (simp add: is_committed_def)
qed

text \<open>A remote instance that a prepare continues with is the instance that is prepared.\<close>

definition names :: "InstanceID \<Rightarrow> Instance option \<Rightarrow> bool" where
  "names iid remote \<longleftrightarrow> (\<forall>i. remote = Some i \<longrightarrow> InstanceID i = iid)"

lemma names_None [simp]: "names iid None"
  by (simp add: names_def)

lemma hoare_prepare_instance:
  "names iid remote \<Longrightarrow> hoare iid P (prepare_instance iid remote) (\<lambda>i _. InstanceID i = iid)"
  unfolding prepare_instance_def
  by (cases remote) (auto simp: names_def intro: hoare_return hoare_conseq [OF hoare_deref])

lemma hoare_committed:
  "InstanceID i = iid \<Longrightarrow> hoare iid P (managerCommitPhase S i) (\<lambda>_ m. is_committed m iid)"
  using hoare_commit_phase [of iid P S i] by simp

lemma hoare_pure: "(b \<Longrightarrow> hoare iid (\<lambda>_. True) p Q) \<Longrightarrow> hoare iid (\<lambda>_. b) p Q"
  by (auto simp: hoare_def)

lemma hoare_prepare_commit:
  assumes "names iid remote"
  shows "hoare iid P (prepare_commit S iid remote) (\<lambda>_ m. is_committed m iid)"
  unfolding prepare_commit_def
  by (rule hoare_bind [OF _ hoare_prepare_instance [OF assms] hoare_pure [OF hoare_committed]]) (rule safe_intros)

lemma hoare_prepare_accept:
  assumes "names iid remote"
  shows "hoare iid P (prepare_accept S clock iid req remote) (\<lambda>_ m. is_committed m iid)"
  unfolding prepare_accept_def
  by (intro hoare_if hoare_seq hoare_prepare_commit names_None assms safe_intros)

lemma hoare_prepare_preaccept:
  assumes "names iid remote"
  shows "hoare iid P (prepare_preaccept S clock iid remote) (\<lambda>_ m. is_committed m iid)"
  unfolding prepare_preaccept_def
  by (intro hoare_seq safe_intros) (auto intro!: hoare_prepare_accept hoare_fail split: option.split)

text \<open>The instances of the responses, and the two passes over them.\<close>

definition response_instances :: "PrepareResponse list \<Rightarrow> Instance set" where
  "response_instances responses = {i. \<exists>r \<in> set responses. p_Instance r = Some i}"

lemma response_instances_simps [simp]:
  "response_instances [] = {}"
  "response_instances (r # rs) = set_option (p_Instance r) \<union> response_instances rs"
  by (auto simp: response_instances_def)

lemma analyze_ballots:
  "fold (\<lambda>response (seen, maxBallot).
     case p_Instance response of
       None \<Rightarrow> (seen, maxBallot)
     | Some i \<Rightarrow> (True, if MaxBallot i > maxBallot then MaxBallot i else maxBallot)) rs (seen, b) = (seen', b') \<Longrightarrow>
   (seen' \<longleftrightarrow> seen \<or> response_instances rs \<noteq> {}) \<and> b \<le> b' \<and> (\<forall>i \<in> response_instances rs. MaxBallot i \<le> b') \<and>
   (b' = b \<or> (\<exists>i \<in> response_instances rs. b' = MaxBallot i))"
proof (induction rs arbitrary: seen b)
  case (Cons r rs)
  show ?case
  proof (cases "p_Instance r")
    case None
    then show ?thesis using Cons by simp
  next
    case (Some i)
    let ?b = "if MaxBallot i > b then MaxBallot i else b"
    have "(seen' \<longleftrightarrow> True \<or> response_instances rs \<noteq> {}) \<and> ?b \<le> b' \<and> (\<forall>i \<in> response_instances rs. MaxBallot i \<le> b') \<and>
        (b' = ?b \<or> (\<exists>i \<in> response_instances rs. b' = MaxBallot i))"
      using Cons.prems Some by (intro Cons.IH) simp
    with Some show ?thesis by (auto split: if_splits)
  qed
qed simp

lemma analyze_statuses:
  "fold (\<lambda>response (maxStatus, instance).
     case p_Instance response of
       None \<Rightarrow> (maxStatus, instance)
     | Some i \<Rightarrow>
         if MaxBallot i < b then (maxStatus, instance)
         else if Status i > maxStatus then (Status i, Some i)
         else (maxStatus, instance)) rs (s, x) = (s', x') \<Longrightarrow>
   s \<le> s' \<and> (\<forall>i \<in> response_instances rs. b \<le> MaxBallot i \<longrightarrow> Status i \<le> s') \<and>
   (s' = s \<and> x' = x \<or> (\<exists>i \<in> response_instances rs. b \<le> MaxBallot i \<and> s < s' \<and> s' = Status i \<and> x' = Some i))"
proof (induction rs arbitrary: s x)
  case (Cons r rs)
  show ?case
  proof (cases "\<exists>i. p_Instance r = Some i \<and> \<not> MaxBallot i < b \<and> Status i > s")
    case True
    then obtain i where i: "p_Instance r = Some i" "\<not> MaxBallot i < b" "Status i > s" by blast
    have "Status i \<le> s' \<and> (\<forall>i \<in> response_instances rs. b \<le> MaxBallot i \<longrightarrow> Status i \<le> s') \<and>
        (s' = Status i \<and> x' = Some i \<or>
          (\<exists>j \<in> response_instances rs. b \<le> MaxBallot j \<and> Status i < s' \<and> s' = Status j \<and> x' = Some j))"
      using Cons.prems i by (intro Cons.IH) simp
    with i show ?thesis by (auto intro: less_trans)
  next
    case False
    have "s \<le> s' \<and> (\<forall>i \<in> response_instances rs. b \<le> MaxBallot i \<longrightarrow> Status i \<le> s') \<and>
        (s' = s \<and> x' = x \<or> (\<exists>i \<in> response_instances rs. b \<le> MaxBallot i \<and> s < s' \<and> s' = Status i \<and> x' = Some i))"
      using Cons.prems False by (intro Cons.IH) (auto split: option.splits if_splits)
    with False show ?thesis by (auto simp: not_less)
  qed
qed simp

lemma analyze_spec:
  "case analyzePrepareResponses rs of
     Some i \<Rightarrow> i \<in> response_instances rs \<and> Status i > 0 \<and>
       (\<forall>j \<in> response_instances rs. MaxBallot j \<le> MaxBallot i \<and> (MaxBallot j = MaxBallot i \<longrightarrow> Status j \<le> Status i))
   | None \<Rightarrow> \<forall>j \<in> response_instances rs. (\<forall>k \<in> response_instances rs. MaxBallot k \<le> MaxBallot j) \<longrightarrow> Status j = 0"
proof -
  let ?I = "response_instances rs"
  obtain seen b where 1: "fold (\<lambda>response (seen, maxBallot).
     case p_Instance response of
       None \<Rightarrow> (seen, maxBallot)
     | Some i \<Rightarrow> (True, if MaxBallot i > maxBallot then MaxBallot i else maxBallot)) rs (False, 0) = (seen, b)"
    by fastforce
  obtain s x where 2: "fold (\<lambda>response (maxStatus, instance).
     case p_Instance response of
       None \<Rightarrow> (maxStatus, instance)
     | Some i \<Rightarrow>
         if MaxBallot i < b then (maxStatus, instance)
         else if Status i > maxStatus then (Status i, Some i)
         else (maxStatus, instance)) rs (0, None) = (s, x)" by fastforce
  have eq: "analyzePrepareResponses rs = (if seen then x else None)"
    by (simp add: analyzePrepareResponses_def 1 2)
  note b = analyze_ballots [OF 1] and s = analyze_statuses [OF 2]
  have top: "MaxBallot j = b" if "j \<in> ?I" "b \<le> MaxBallot j" for j using b that by auto
  show ?thesis
  proof (cases "seen \<and> x \<noteq> None")
    case True
    then obtain i where i: "i \<in> ?I" "b \<le> MaxBallot i" "0 < s" "s = Status i" "x = Some i" using s by auto
    with True b s top [OF i(1,2)] show ?thesis by (auto simp: eq)
  next
    case False
    have "Status j = 0" if j: "j \<in> ?I" "\<forall>k \<in> ?I. MaxBallot k \<le> MaxBallot j" for j
    proof -
      have "seen" using b j(1) by auto
      then have "s = 0" using s False by auto
      moreover have "b \<le> MaxBallot j" using b j by auto
      ultimately show ?thesis using s j(1) by auto
    qed
    then show ?thesis using False by (auto simp: eq)
  qed
qed

lemma analyze_member: "analyzePrepareResponses rs = Some i \<Longrightarrow> i \<in> response_instances rs"
  using analyze_spec [of rs] by simp

definition responses_for :: "InstanceID \<Rightarrow> PrepareResponse list \<Rightarrow> bool" where
  "responses_for iid responses \<longleftrightarrow> (\<forall>r \<in> set responses. names iid (p_Instance r))"

lemma hoare_choose_instance:
  assumes "responses_for iid responses"
  shows "hoare iid P (choose_instance iid responses) (\<lambda>x _. names iid (fst x))"
proof -
  have "names iid (analyzePrepareResponses responses)"
    using analyze_member assms unfolding names_def responses_for_def response_instances_def by blast
  then show ?thesis
    unfolding choose_instance_def
    by (intro hoare_bind [OF safe_basic(4) hoare_deref], cases "analyzePrepareResponses responses")
      (auto simp: hoare_def preturn_def pput_def pbind_def)
qed

lemma hoare_PrepareApply:
  assumes "responses_for iid responses"
  shows "hoare iid P (managerPrepareApply S clock iid responses) (\<lambda>_ m. is_committed m iid)"
  unfolding managerPrepareApply_def
proof (rule hoare_seq [OF safe_CheckResponses],
    rule hoare_bind [OF safe_choose_instance hoare_choose_instance [OF assms]], rule hoare_pure)
  fix x :: "Instance option \<times> InstanceStatus"
  assume "names iid (fst x)"
  then show "hoare iid (\<lambda>_. True) (case x of (prepareInstance, status) \<Rightarrow>
       if status = INSTANCE_PREACCEPTED then prepare_preaccept S clock iid prepareInstance
       else if status = INSTANCE_ACCEPTED then prepare_accept S clock iid True prepareInstance
       else if status \<in> {INSTANCE_COMMITTED, INSTANCE_EXECUTED} then prepare_commit S iid prepareInstance
       else pfail (Errorf ''Unknown instance status: %v'')) (\<lambda>_ m. is_committed m iid)"
    unfolding split_beta
    by (intro hoare_if hoare_prepare_preaccept hoare_prepare_accept hoare_prepare_commit hoare_fail)
qed

lemma drain_Ret:
  assumes "drain sel rs m es = Some (Ret rs', m', es')"
  shows "\<exists>used. es = used @ es' \<and> rs' = rs @ received sel used \<and> m' = m"
  using assms
proof (induction sel rs m es rule: drain.induct)
  case (1 sel rs m x es)
  show ?case
  proof (cases "sel x")
    case (Some y)
    then obtain used where "es = used @ es'" "rs' = (rs @ [y]) @ received sel used" "m' = m" using 1 by auto
    then show ?thesis using Some by (intro exI [of _ "Recv x # used"]) simp
  qed (use 1 in auto)
qed auto

lemma received_append: "received sel (es @ es') = received sel es @ received sel es'"
proof (induction es)
  case (Cons e es)
  then show ?case by (cases e) (auto split: option.split)
qed simp

lemma set_received: "r \<in> set (received sel es) \<longleftrightarrow> (\<exists>x. Recv x \<in> set es \<and> sel x = Some r)"
proof (induction es)
  case (Cons e es)
  then show ?case by (cases e) (auto split: option.splits)
qed simp

lemma sel_PrepareResponse_Some: "sel_PrepareResponse x = Some r \<longleftrightarrow> x = PrepareResp r"
  by (cases x) auto

text \<open>The responses of a prepare round.\<close>

lemma sendPrepare_Ret:
  assumes "managerSendPrepare iid m es = Some (Ret rs, m', es')"
  obtains i used where "instances m iid = Some i" and "es = used @ es'" and "rs = received sel_PrepareResponse used"
    and "quorumSize (length (getInstanceReplicas m i)) \<le> 1 + length rs"
proof -
  obtain i where i: "instances m iid = Some i"
    using assms by (cases "instances m iid") (auto simp: managerSendPrepare_def pbind_def pderef_def imap_Get_def)
  let ?q = "quorumSize (length (getInstanceReplicas m i))"
  obtain m0 where "pbind (await sel_PrepareResponse ''Timeout while awaiting pre accept responses'' ?q 1 [])
      (drain sel_PrepareResponse) m0 es = Some (Ret rs, m', es')"
    using assms i by (auto simp: managerSendPrepare_def pbind_def pderef_def imap_Get_def pget_def pput_def psend_def)
  then obtain rs1 m1 es1 where aw: "await sel_PrepareResponse ''Timeout while awaiting pre accept responses'' ?q 1 [] m0 es =
      Some (Ret rs1, m1, es1)" and dr: "drain sel_PrepareResponse rs1 m1 es1 = Some (Ret rs, m', es')"
    by (rule pbind_Ret)
  obtain u1 where 1: "es = u1 @ es1" "rs1 = received sel_PrepareResponse u1" "1 + length rs1 = ?q"
    using await_Ret [OF aw] by (auto simp: quorumSize_def)
  obtain u2 where 2: "es1 = u2 @ es'" "rs = rs1 @ received sel_PrepareResponse u2" using drain_Ret [OF dr] by blast
  show thesis
    by (rule that [OF i, of "u1 @ u2"]) (use 1 2 in \<open>simp_all add: received_append\<close>)
qed

lemma hoare_SendPrepare: "hoare iid P (managerSendPrepare iid) (\<lambda>rs _. responses_for iid rs)"
proof (rule hoareI)
  fix m :: "('a, 'b) Manager" and es rs m' es'
  assume es: "sched_for iid es" and run: "managerSendPrepare iid m es = Some (Ret rs, m', es')"
  obtain i used where *: "es = used @ es'" "rs = received sel_PrepareResponse used"
    using sendPrepare_Ret [OF run] by metis
  show "responses_for iid rs"
    unfolding responses_for_def names_def
  proof (intro ballI allI impI)
    fix r i assume "r \<in> set rs" and i: "p_Instance r = Some i"
    then have "Recv (PrepareResp r) \<in> set es" using * by (auto simp: set_received sel_PrepareResponse_Some)
    then show "InstanceID i = iid" using es i unfolding sched_for_def by blast
  qed
qed

lemma hoare_PreparePhase: "hoare iid P (managerPreparePhase S clock iid) (\<lambda>_ m. is_committed m iid)"
  unfolding managerPreparePhase_def
proof (rule hoare_bind [OF safe_basic(4) hoare_deref], rule hoare_if)
  fix i :: Instance
  assume "INSTANCE_COMMITTED \<le> getStatus i"
  then show "hoare iid (\<lambda>m. P m \<and> instances m iid = Some i \<and> InstanceID i = iid) (preturn ()) (\<lambda>_ m. is_committed m iid)"
    by (intro hoare_return) (simp add: is_committed_def)
next
  fix i :: Instance
  show "hoare iid (\<lambda>m. P m \<and> instances m iid = Some i \<and> InstanceID i = iid)
      (pbind (managerSendPrepare iid) (managerPrepareApply S clock iid)) (\<lambda>_ m. is_committed m iid)"
    by (rule hoare_bind [OF safe_managerSendPrepare hoare_SendPrepare], rule hoare_pure, rule hoare_PrepareApply)
qed


section \<open>What a prepare continues with\<close>

lemma response_maxima_accepted: "fst (response_maxima rs) \<longleftrightarrow> (\<forall>r \<in> set rs. p_Accepted r)"
proof -
  have "fst (fold (\<lambda>response (accepted, maxBallot, maxStatus).
       case p_Instance response of
         None \<Rightarrow> (accepted \<and> p_Accepted response, maxBallot, maxStatus)
       | Some i \<Rightarrow>
           (accepted \<and> p_Accepted response,
            if MaxBallot i > maxBallot then MaxBallot i else maxBallot,
            if Status i > maxStatus then Status i else maxStatus)) rs (b, x)) \<longleftrightarrow> b \<and> (\<forall>r \<in> set rs. p_Accepted r)" for b x
    by (induction rs arbitrary: b x) (auto split: option.split prod.split)
  then show ?thesis by (simp add: response_maxima_def)
qed

lemma CheckResponses_accepted:
  assumes "instances m iid = Some i" and "InstanceID i = iid" and "\<forall>r \<in> set rs. p_Accepted r"
  shows "\<exists>b. managerPrepareCheckResponses S clock iid rs m es = Some (Ret (), put_instance m (i\<lparr>MaxBallot := b\<rparr>), es)"
proof -
  obtain b s where max: "response_maxima rs = (True, b, s)"
    using response_maxima_accepted [of rs] assms(3) by (cases "response_maxima rs") auto
  let ?b = "if b > MaxBallot i then b else MaxBallot i"
  have upd: "fst (updateBallot i b) = i\<lparr>MaxBallot := ?b\<rparr>" by (simp add: updateBallot_def)
  show ?thesis
    unfolding managerPrepareCheckResponses_def max
    by (rule exI [of _ ?b]) (simp add: pbind_def pderef_def imap_Get_def pput_def preturn_def upd assms(1))
qed

text \<open>The commit phase of an instance that the replica knows and has not executed.\<close>

lemma commitInstance_known:
  assumes "instances m (InstanceID inst) = Some i" and "Status i \<le> INSTANCE_COMMITTED" and "InstanceID i = InstanceID inst"
  shows "\<exists>j. instances (fst (commitInstance S m inst incr)) (InstanceID inst) = Some j \<and> Status j = INSTANCE_COMMITTED \<and>
    Dependencies j = Dependencies inst \<and> Noop j = Noop inst"
  using assms getOrSetInstance_existing [OF assms(1), of S]
  by (auto simp: commitInstance_def commit_def Let_def setDeps_def split: option.split)

lemma commit_phase_result:
  assumes "instances m (InstanceID inst) = Some i" and "Status i \<le> INSTANCE_COMMITTED" and "InstanceID i = InstanceID inst"
    and "managerCommitPhase S inst m es = Some (Ret (), m', es')"
  shows "\<exists>j. instances m' (InstanceID inst) = Some j \<and> Status j = INSTANCE_COMMITTED \<and> Dependencies j = Dependencies inst \<and>
    Noop j = Noop inst \<and> (\<forall>n \<in> set (getInstanceReplicas m inst). (node_id n, CommitRequest (Instance_Copy j)) \<in> set (outbox m'))"
proof -
  let ?f = "\<lambda>m. commitInstance S m inst True"
  obtain x m1 es1 where skip: "skip_invalid_status (pstep ?f) m es = Some (Ret x, m1, es1)"
    and send: "sendCommit (InstanceID inst) (getInstanceReplicas m inst) m1 es1 = Some (Ret (), m', es')"
    using assms(4) unfolding managerCommitPhase_def
    by (auto simp: pbind_def [of "pget _"] pget_def elim!: pbind_Ret)
  have m1: "m1 = fst (?f m)" using skip_invalid_status_Ret [OF skip] by simp
  obtain j where j: "instances m1 (InstanceID inst) = Some j" "Status j = INSTANCE_COMMITTED"
    "Dependencies j = Dependencies inst" "Noop j = Noop inst"
    using commitInstance_known [OF assms(1-3)] m1 by blast
  then have "m' = m1\<lparr>outbox := outbox m1 @ map (\<lambda>n. (node_id n, CommitRequest (Instance_Copy j))) (getInstanceReplicas m inst)\<rparr>"
    using send by (auto simp: sendCommit_def pbind_def pderef_def imap_Get_def psend_def)
  with j show ?thesis by (intro exI [of _ j]) auto
qed

lemma commit_phase_succeeds:
  assumes "mgr_inv m" and "instances m (InstanceID inst) = Some i" and "Status i \<le> INSTANCE_COMMITTED"
    and "st_InterferingKeys S (Command i) \<noteq> []"
  shows "\<exists>m'. managerCommitPhase S inst m es = Some (Ret (), m', es)"
proof -
  let ?f = "\<lambda>m. commitInstance S m inst True"
  have "snd (?f m) = None"
  proof -
    have "snd (commit i inst True) = None \<and> Command (fst (commit i inst True)) = Command i"
      using leD [OF assms(3)] by (simp add: commit_def Let_def setDeps_def)
    then obtain j where j: "commit i inst True = (j, None)" "Command j = Command i"
      by (cases "commit i inst True") auto
    then show ?thesis
      using ReportAcknowledged_ok [of S j "put_instance m j"] assms(4)
      by (simp add: commitInstance_def getOrSetInstance_existing [OF assms(2)])
  qed
  then have skip: "skip_invalid_status (pstep ?f) m es = Some (Ret (), fst (?f m), es)"
    by (intro skip_invalid_status_succeeds) blast
  obtain j where j: "instances (fst (?f m)) (InstanceID inst) = Some j"
    using commitInstance_step(2) [OF assms(1)] by blast
  show ?thesis
    by (simp add: managerCommitPhase_def pbind_def pget_def skip sendCommit_def pderef_def imap_Get_def j psend_def)
qed

lemma await_quiet:
  "await sel t quorum n rs m es = Some (r, m', es') \<Longrightarrow> \<forall>f. Env f \<notin> set es \<Longrightarrow> m' = m"
proof (induction es arbitrary: n rs m)
  case (Cons e es)
  then show ?case by (cases e) (auto split: if_splits option.splits)
qed (simp split: if_splits)

lemma acceptInstance_known:
  assumes "instances m (InstanceID inst) = Some i" and "Status i \<le> INSTANCE_ACCEPTED" and "InstanceID i = InstanceID inst"
  shows "\<exists>j. instances (fst (acceptInstance S now m inst incr)) (InstanceID inst) = Some j \<and> Status j = INSTANCE_ACCEPTED \<and>
    InstanceID j = InstanceID inst \<and> Command j = Command i \<and> Dependencies j = Dependencies inst \<and> Noop j = Noop inst"
  using assms getOrSetInstance_existing [OF assms(1), of S]
  by (auto simp: acceptInstance_def accept_def Let_def setDeps_def split: option.split)

lemma accept_phase_result:
  assumes "instances m (InstanceID inst) = Some i" and "Status i \<le> INSTANCE_ACCEPTED" and "InstanceID i = InstanceID inst"
    and "managerAcceptPhase S clock inst m es = Some (Ret (), m', es')" and "\<forall>f. Env f \<notin> set es"
  shows "\<exists>j. instances m' (InstanceID inst) = Some j \<and> Status j = INSTANCE_ACCEPTED \<and>
    InstanceID j = InstanceID inst \<and> Command j = Command i \<and> Dependencies j = Dependencies inst \<and> Noop j = Noop inst"
proof -
  let ?f = "\<lambda>m. acceptInstance S (clock es) m inst True"
  obtain x m1 es1 where skip: "skip_invalid_status (pstep ?f) m es = Some (Ret x, m1, es1)"
    and send: "sendAccept (InstanceID inst) (getInstanceReplicas m inst) m1 es1 = Some (Ret (), m', es')"
    using assms(4) by (rule accept_phase_steps)
  have m1: "m1 = fst (?f m)" "es1 = es" using skip_invalid_status_Ret [OF skip] by simp_all
  obtain j where j: "instances m1 (InstanceID inst) = Some j" "Status j = INSTANCE_ACCEPTED"
    "InstanceID j = InstanceID inst" "Command j = Command i" "Dependencies j = Dependencies inst" "Noop j = Noop inst"
    using acceptInstance_known [OF assms(1-3)] m1(1) by blast
  have "instances m' = instances m1"
    using send j(1) m1(2) assms(5)
    by (auto simp: sendAccept_def pbind_def pderef_def imap_Get_def psend_def Let_def preturn_def pfail_def pstep_def
        split: option.splits outcome.splits if_splits dest!: await_quiet)
  with j show ?thesis by auto
qed

lemma getInstanceReplicas_cong:
  "topology m' = topology m \<Longrightarrow> nodeID m' = nodeID m \<Longrightarrow> Command j = Command i \<Longrightarrow>
     getInstanceReplicas m' j = getInstanceReplicas m i"
  by (simp add: getInstanceReplicas_def)

lemma getInstanceReplicas_put [simp]: "getInstanceReplicas (put_instance m i) j = getInstanceReplicas m j"
  by (simp add: getInstanceReplicas_def)

text \<open>After the check of the responses and the choice of the instance to continue with.\<close>

lemma PrepareApply_remote:
  assumes "instances m iid = Some i" and "InstanceID i = iid" and "\<forall>r \<in> set responses. p_Accepted r"
    and "analyzePrepareResponses responses = Some remote" and "Status i \<le> Status remote"
  shows "\<exists>b. managerPrepareApply S clock iid responses m es =
    (if Status remote = INSTANCE_PREACCEPTED then prepare_preaccept S clock iid (Some remote)
     else if Status remote = INSTANCE_ACCEPTED then prepare_accept S clock iid True (Some remote)
     else if Status remote \<in> {INSTANCE_COMMITTED, INSTANCE_EXECUTED} then prepare_commit S iid (Some remote)
     else pfail (Errorf ''Unknown instance status: %v'')) (put_instance m (i\<lparr>MaxBallot := b\<rparr>)) es"
proof -
  obtain b where check: "managerPrepareCheckResponses S clock iid responses m es =
      Some (Ret (), put_instance m (i\<lparr>MaxBallot := b\<rparr>), es)"
    using CheckResponses_accepted [OF assms(1-3)] by blast
  have "choose_instance iid responses (put_instance m (i\<lparr>MaxBallot := b\<rparr>)) es =
      Some (Ret (Some remote, Status remote), put_instance m (i\<lparr>MaxBallot := b\<rparr>), es)"
    using leD [OF assms(5)]
    by (simp add: choose_instance_def pbind_def pderef_def imap_Get_def assms(2,4) preturn_def)
  with check show ?thesis
    unfolding managerPrepareApply_def by (intro exI [of _ b]) (simp add: pbind_def)
qed

lemma status_accepted_cases:
  "INSTANCE_ACCEPTED \<le> s \<Longrightarrow> s \<noteq> INSTANCE_PREACCEPTED" "s < INSTANCE_COMMITTED \<Longrightarrow> s \<le> INSTANCE_ACCEPTED"
  by (auto simp: status_defs word_le_nat_alt word_less_nat_alt)

text \<open>
  The instance is committed with the attributes of another one, and all the replicas have
  been told.
\<close>

definition committed_as :: "InstanceID \<Rightarrow> Instance \<Rightarrow> Node list \<Rightarrow> ('s, 'v) Manager \<Rightarrow> bool" where
  "committed_as iid inst replicas m \<longleftrightarrow>
     (\<exists>j. instances m iid = Some j \<and> Status j = INSTANCE_COMMITTED \<and> Dependencies j = Dependencies inst \<and>
        Noop j = Noop inst \<and> (\<forall>n \<in> set replicas. (node_id n, CommitRequest (Instance_Copy j)) \<in> set (outbox m)))"

lemma prepare_commit_remote:
  assumes "mgr_inv m" and "instances m iid = Some i" and "Status i \<le> INSTANCE_COMMITTED" and "InstanceID remote = iid"
    and "prepare_commit S iid (Some remote) m es = Some (Ret (), m', es')"
  shows "committed_as iid remote (getInstanceReplicas m remote) m'"
  using commit_phase_result [of m remote i S es m' es'] mgr_invD(1) [OF assms(1,2)] assms
  by (simp add: prepare_commit_def prepare_instance_def pbind_def preturn_def committed_as_def)

lemma prepare_accept_remote:
  assumes "mgr_inv m" and "sched_ok es" and "\<forall>f. Env f \<notin> set es" and "instances m iid = Some i"
    and "Status i \<le> INSTANCE_ACCEPTED" and "InstanceID remote = iid"
    and run: "prepare_accept S clock iid True (Some remote) m es = Some (Ret (), m', es')"
  shows "committed_as iid remote (getInstanceReplicas m i) m'"
proof -
  have id: "InstanceID i = InstanceID remote" using mgr_invD(1) [OF assms(1,4)] assms(6) by simp
  have "pbind (managerAcceptPhase S clock remote) (\<lambda>_. prepare_commit S iid None) m es = Some (Ret (), m', es')"
    using run by (simp add: prepare_accept_def prepare_instance_def pbind_def preturn_def)
  then obtain x m2 es2 where acc: "managerAcceptPhase S clock remote m es = Some (Ret x, m2, es2)"
    and com: "prepare_commit S iid None m2 es2 = Some (Ret (), m', es')" by (rule pbind_Ret)
  have "managerAcceptPhase S clock remote m es = Some (Ret (), m2, es2)" using acc by simp
  then obtain j where j: "instances m2 iid = Some j" "Status j = INSTANCE_ACCEPTED" "InstanceID j = iid"
    "Command j = Command i" "Dependencies j = Dependencies remote" "Noop j = Noop remote"
    using accept_phase_result [OF _ assms(5) id _ assms(3)] assms(4,6) by fastforce
  note s2 = safeD(1) [OF safe_managerAcceptPhase assms(2) acc]
  have "managerCommitPhase S j m2 es2 = Some (Ret (), m', es')"
    using com j(1) by (simp add: prepare_commit_def prepare_instance_def pbind_def pderef_def imap_Get_def)
  moreover have "getInstanceReplicas m2 j = getInstanceReplicas m i"
    by (rule getInstanceReplicas_cong) (use step_okD(5,6) [OF s2 assms(1)] j(4) in simp_all)
  ultimately show ?thesis
    using commit_phase_result [of m2 j j S es2 m' es'] j by (auto simp: less_imp_le committed_as_def)
qed

lemma put_ballot_facts:
  assumes "mgr_inv m" and "instances m iid = Some i"
  shows "mgr_inv (put_instance m (i\<lparr>MaxBallot := b\<rparr>))"
    and "instances (put_instance m (i\<lparr>MaxBallot := b\<rparr>)) iid = Some (i\<lparr>MaxBallot := b\<rparr>)"
proof -
  have id: "InstanceID i = iid" using mgr_invD(1) [OF assms] .
  have "step_ok m (put_instance m (i\<lparr>MaxBallot := b\<rparr>))"
    by (rule step_ok_move [of m i]) (use assms(2) id in \<open>simp_all add: bump_moves\<close>)
  then show "mgr_inv (put_instance m (i\<lparr>MaxBallot := b\<rparr>))" using step_okD(1) assms(1) by blast
  show "instances (put_instance m (i\<lparr>MaxBallot := b\<rparr>)) iid = Some (i\<lparr>MaxBallot := b\<rparr>)" using id by simp
qed

lemma PrepareApply_committed:
  assumes "mgr_inv m" and "instances m iid = Some i" and "Status i < INSTANCE_COMMITTED"
    and "\<forall>r \<in> set responses. p_Accepted r" and "InstanceID remote = iid"
    and "analyzePrepareResponses responses = Some remote" and "Status remote \<in> {INSTANCE_COMMITTED, INSTANCE_EXECUTED}"
    and "st_InterferingKeys S (Command i) \<noteq> []"
  shows "\<exists>m'. managerPrepareApply S clock iid responses m es = Some (Ret (), m', es)"
proof -
  have le: "Status i \<le> Status remote"
    using assms(3,7) less_trans [OF assms(3) status_order(3)] by (auto intro: less_imp_le)
  obtain b where eq: "managerPrepareApply S clock iid responses m es =
    (if Status remote = INSTANCE_PREACCEPTED then prepare_preaccept S clock iid (Some remote)
     else if Status remote = INSTANCE_ACCEPTED then prepare_accept S clock iid True (Some remote)
     else if Status remote \<in> {INSTANCE_COMMITTED, INSTANCE_EXECUTED} then prepare_commit S iid (Some remote)
     else pfail (Errorf ''Unknown instance status: %v'')) (put_instance m (i\<lparr>MaxBallot := b\<rparr>)) es"
    using PrepareApply_remote [OF assms(2) mgr_invD(1) [OF assms(1,2)] assms(4,6) le] by blast
  note m = put_ballot_facts [OF assms(1,2), of b]
  obtain m' where "managerCommitPhase S remote (put_instance m (i\<lparr>MaxBallot := b\<rparr>)) es = Some (Ret (), m', es)"
    using commit_phase_succeeds [OF m(1), of remote _ S es] m(2) less_imp_le [OF assms(3)] assms(5,8) by auto
  then show ?thesis
    using assms(7) unfolding eq
    by (auto simp: prepare_commit_def prepare_instance_def pbind_def preturn_def status_defs)
qed


text \<open>A replica that has accepted an instance, and a peer that has committed it.\<close>

definition ex_waiting :: "(unit, unit) Manager" where
  "ex_waiting = put_instance (ex_leader ()) ex_instance"

definition ex_remote :: Instance where
  "ex_remote = ex_instance\<lparr>Status := INSTANCE_COMMITTED, Dependencies := []\<rparr>"

definition ex_response :: PrepareResponse where
  "ex_response = \<lparr>p_Accepted = True, p_Instance = Some ex_remote\<rparr>"

definition ex_prepare :: "(unit, unit) schedule" where
  "ex_prepare = [Locked, Timeout, Timeout, Recv (PrepareResp ex_response)]"

lemma ex_waiting_facts:
  "mgr_inv ex_waiting" "instances ex_waiting (InstanceID ex_instance) = Some ex_instance"
  "Status ex_instance = INSTANCE_ACCEPTED" "Status ex_remote = INSTANCE_COMMITTED"
  "InstanceID ex_remote = InstanceID ex_instance" "Command ex_remote = Command ex_instance" "Dependencies ex_remote = []"
proof -
  have "quiet (ex_leader ()) ex_waiting"
    unfolding ex_waiting_def by (rule quiet_new) (simp_all add: ex_instance_def less_imp_le)
  from quietD(1) [OF this ex_leader_inv] show "mgr_inv ex_waiting" .
qed (simp_all add: ex_waiting_def ex_remote_def ex_instance_def)

lemma ex_instance_fields: "commitTimeout ex_instance = zero_Time" "Successors ex_instance = []"
  by (simp_all add: ex_instance_def zero_Instance_def)

lemma ex_analyze: "analyzePrepareResponses [ex_response] = Some ex_remote"
  by (simp add: analyzePrepareResponses_def ex_response_def ex_waiting_facts status_defs)


lemma ex_waiting_replicas: "length (getInstanceReplicas ex_waiting ex_instance) = 2"
  by (simp add: ex_waiting_def ex_leader_replicas)

lemma ex_prepare_runs:
  "\<exists>m'. managerPrepareInstance ex_store ex_clock (InstanceID ex_instance) ex_waiting ex_prepare = Some (Ret (), m', [])"
proof -
  let ?iid = "InstanceID ex_instance"
  have proceed: "prepareShouldProceed ex_clock ?iid ex_waiting (Timeout # es) = Some (Ret True, ex_waiting, es)" for es
    by (simp add: prepareShouldProceed_def pbind_def pderef_def imap_Get_def ex_waiting_facts getStatus_def pnow_def
        preturn_def ex_clock_def ex_instance_fields Time_After_def)
  have dl: "defer_loop ex_store ex_clock ?iid (Suc n) ex_waiting es = Some (Ret True, ex_waiting, es)" for n es
    by (simp add: managerDeferToSuccessor_def pbind_def pderef_def imap_Get_def ex_waiting_facts pget_def preturn_def
        getSuccessors_def ex_instance_fields)
  let ?i = "fst (incrementBallot ex_instance)"
  let ?m = "(put_instance ex_waiting ?i)\<lparr>outbox := outbox ex_waiting @
    map (\<lambda>n. (node_id n, PrepareRequest (snd (incrementBallot ex_instance)) ?iid)) (getInstanceReplicas ex_waiting ex_instance)\<rparr>"
  have send: "managerSendPrepare ?iid ex_waiting [Recv (PrepareResp ex_response)] = Some (Ret [ex_response], ?m, [])"
    by (simp add: managerSendPrepare_def pbind_def pderef_def imap_Get_def ex_waiting_facts pget_def pput_def psend_def
        ex_waiting_replicas quorumSize_def put_instance_def)
  have inv: "mgr_inv ?m"
    using step_okD(1) [OF step_ok_outbox put_ballot_facts(1) [OF ex_waiting_facts(1,2)]]
    by (simp add: incrementBallot_def Let_def)
  have "\<exists>m'. managerPrepareApply ex_store ex_clock ?iid [ex_response] ?m [] = Some (Ret (), m', [])"
    by (rule PrepareApply_committed [OF inv, of _ ?i, where remote = ex_remote])
      (simp_all add: ex_waiting_facts ex_analyze ex_manager_facts ex_response_def [symmetric] incrementBallot_def Let_def,
        simp add: ex_response_def)
  then show ?thesis
    using proceed dl send
    by (simp add: managerPrepareInstance_def ex_prepare_def pbind_def pderef_def imap_Get_def ex_waiting_facts pstep_def
        getOrSetInstance_existing managerPreparePhase_def getStatus_def del: defer_loop.simps)
qed


section \<open>Where a prepare goes wrong\<close>

lemma HandlePrepare_accepts:
  assumes "instances m iid = Some i" and "MaxBallot i < ballot"
  shows "HandlePrepare m ballot iid = (put_instance m (i\<lparr>MaxBallot := ballot\<rparr>),
    Ret \<lparr>p_Accepted = True, p_Instance = Some (Instance_Copy (i\<lparr>MaxBallot := ballot\<rparr>))\<rparr>)"
  using assms by (simp add: HandlePrepare_def getInstance_def imap_Get_def getBallot_def updateBallot_def Let_def)

text \<open>
  C34: a prepare forgets at which ballot an instance was accepted.  A replica stores the ballot
  of the prepare request before it copies its instance into the response, so the responses
  of two replicas that accepted different dependencies at different ballots carry the same
  ballot, and the analysis selects the one that arrives first.
\<close>

theorem prepare_forgets_accepted_ballot:
  assumes "instances m1 iid = Some i1" and "Status i1 = INSTANCE_ACCEPTED" and "MaxBallot i1 < ballot"
    and "instances m2 iid = Some i2" and "Status i2 = INSTANCE_ACCEPTED" and "MaxBallot i2 < ballot"
  shows "\<exists>m1' r1 m2' r2 j1 j2. HandlePrepare m1 ballot iid = (m1', Ret r1) \<and> HandlePrepare m2 ballot iid = (m2', Ret r2) \<and>
    analyzePrepareResponses [r1, r2] = Some j1 \<and> Dependencies j1 = Dependencies i1 \<and>
    analyzePrepareResponses [r2, r1] = Some j2 \<and> Dependencies j2 = Dependencies i2"
proof -
  note r = HandlePrepare_accepts [OF assms(1,3)] HandlePrepare_accepts [OF assms(4,6)]
  have "0 < ballot" using assms(3) by (metis word_gt_0 word_not_simps(1))
  then show ?thesis
    unfolding r by (simp add: analyzePrepareResponses_def Instance_Copy_alt assms(2,5) status_defs)
qed

theorem prepare_forgets_accepted_ballot_witness:
  "\<exists>r1 r2 j1. HandlePrepare ex_waiting 9 (InstanceID ex_instance) = (put_instance ex_waiting (ex_instance\<lparr>MaxBallot := 9\<rparr>), Ret r1) \<and>
     analyzePrepareResponses [r2, r1] = Some j1 \<and> Dependencies j1 = []"
proof -
  let ?i = "ex_instance\<lparr>Dependencies := [], MaxBallot := 8\<rparr>"
  let ?m = "put_instance (ex_leader ()) ?i :: (unit, unit) Manager"
  have h: "instances ?m (InstanceID ex_instance) = Some ?i" "Status ?i = INSTANCE_ACCEPTED" "MaxBallot ?i < 9" "MaxBallot ex_instance < 9"
    by (simp_all add: ex_instance_def)
  from prepare_forgets_accepted_ballot [OF ex_waiting_facts(2,3) h(4,1-3)] show ?thesis
    using HandlePrepare_accepts [OF ex_waiting_facts(2) h(4)] by auto
qed

text \<open>
  The answer of a successor is not used.  When a successor reports that it has
  committed the instance, the replica commits the instance with its own dependencies, whatever
  those of the response are, and goes on as if it had caught up.
\<close>

theorem successor_attributes_ignored:
  assumes "mgr_inv m" and "instances m iid = Some i" and "Status i < INSTANCE_COMMITTED"
    and "st_InterferingKeys S (Command i) \<noteq> []" and "getSuccessors i = nid # nids" and "nid \<noteq> GetLocalID m"
    and "nid \<in> node_id ` set (getInstanceReplicas m i)" and "Status response \<in> {INSTANCE_COMMITTED, INSTANCE_EXECUTED}"
  shows "\<exists>m' j. managerDeferToSuccessor S clock iid m (Recv (PrepareSuccessorResponse (Some response)) # es) =
      Some (Ret (True, None), m', es) \<and>
    instances m' iid = Some j \<and> Status j = INSTANCE_COMMITTED \<and> Dependencies j = Dependencies i"
proof -
  let ?m = "m\<lparr>outbox := outbox m @ [(nid, PrepareSuccessorRequest iid)]\<rparr>"
  have id: "InstanceID i = iid" using mgr_invD(1) [OF assms(1,2)] .
  have i: "instances ?m (InstanceID i) = Some i" using assms(2) id by simp
  have lt: "Status i < Status response"
    using assms(3,8) less_trans [OF assms(3) status_order(3)] by auto
  have np: "Status response \<noteq> INSTANCE_ACCEPTED" using assms(8) by (auto simp: status_defs)
  obtain j where j: "instances (fst (commitInstance S ?m i False)) (InstanceID i) = Some j" "Status j = INSTANCE_COMMITTED"
    "Dependencies j = Dependencies i"
    using commitInstance_known [OF i less_imp_le [OF assms(3)] refl, of S False] by blast
  have ok: "commitInstance S ?m i False = (fst (commitInstance S ?m i False), None)"
  proof -
    have "snd (commit i i False) = None \<and> Command (fst (commit i i False)) = Command i"
      using less_not_sym [OF assms(3)] by (simp add: commit_def Let_def setDeps_def)
    then obtain k where k: "commit i i False = (k, None)" "Command k = Command i" by (cases "commit i i False") auto
    then have "snd (commitInstance S ?m i False) = None"
      using ReportAcknowledged_ok [of S k "put_instance ?m k"] assms(4)
      by (simp add: commitInstance_def getOrSetInstance_existing [OF i])
    then show ?thesis by (metis prod.collapse)
  qed
  have "managerDeferToSuccessor S clock iid m (Recv (PrepareSuccessorResponse (Some response)) # es) =
      Some (Ret (True, None), fst (commitInstance S ?m i False), es)"
    using assms(2,5-8) lt np ok
    by (auto simp: managerDeferToSuccessor_def pbind_def pderef_def imap_Get_def pget_def psend_id_def
        handle_successor_def getStatus_def pcatch_def pstep_def preturn_def split: prod.splits)
  then show ?thesis using j id by auto
qed

definition ex_successor :: Instance where
  "ex_successor = ex_instance\<lparr>Successors := [\<lparr>b0 = 0, b1 = 2\<rparr>]\<rparr>"

theorem successor_attributes_ignored_witness:
  "\<exists>m' j. managerDeferToSuccessor ex_store ex_clock (InstanceID ex_instance) (put_instance (ex_leader ()) ex_successor)
       [Recv (PrepareSuccessorResponse (Some ex_remote))] = Some (Ret (True, None), m', []) \<and>
     instances m' (InstanceID ex_instance) = Some j \<and> Dependencies j = [\<lparr>b0 = 1, b1 = 1\<rparr>]"
proof -
  let ?m = "put_instance (ex_leader ()) ex_successor :: (unit, unit) Manager"
  have s: "InstanceID ex_successor = InstanceID ex_instance" "Status ex_successor = INSTANCE_ACCEPTED"
    "Dependencies ex_successor = [\<lparr>b0 = 1, b1 = 1\<rparr>]" "Command ex_successor = Command ex_instance"
    "getSuccessors ex_successor = [\<lparr>b0 = 0, b1 = 2\<rparr>]"
    by (simp_all add: ex_successor_def ex_instance_def getSuccessors_def)
  have "quiet (ex_leader () :: (unit, unit) Manager) ?m"
    by (rule quiet_new) (simp_all add: s less_imp_le)
  from quietD(1) [OF this ex_leader_inv] have inv: "mgr_inv ?m" .
  have i: "instances ?m (InstanceID ex_instance) = Some ex_successor" using s by simp
  have "map node_id (getInstanceReplicas (ex_leader () :: (unit, unit) Manager) ex_instance) = [\<lparr>b0 = 0, b1 = 2\<rparr>, \<lparr>b0 = 0, b1 = 3\<rparr>]"
    by code_simp
  then have "node_id ` set (getInstanceReplicas (ex_leader () :: (unit, unit) Manager) ex_instance) = {\<lparr>b0 = 0, b1 = 2\<rparr>, \<lparr>b0 = 0, b1 = 3\<rparr>}"
    by (metis empty_set list.set_map list.simps(15))
  then have reps: "\<lparr>b0 = 0, b1 = 2\<rparr> \<in> node_id ` set (getInstanceReplicas ?m ex_successor)"
    by (simp add: getInstanceReplicas_cong [OF refl refl s(4)])
  have "GetLocalID (ex_leader () :: (unit, unit) Manager) = \<lparr>b0 = 0, b1 = 1\<rparr>" by code_simp
  then have loc: "\<lparr>b0 = 0, b1 = 2\<rparr> \<noteq> GetLocalID ?m" by (simp add: GetLocalID_def)
  show ?thesis
    using successor_attributes_ignored [OF inv i _ _ s(5) loc reps, of ex_store ex_remote ex_clock "[]"] s
    by (auto simp: ex_manager_facts ex_waiting_facts)
qed

lemma analyze_unknown: "\<forall>r \<in> set rs. p_Instance r = None \<Longrightarrow> analyzePrepareResponses rs = None"
  using analyze_member [of rs] by (cases "analyzePrepareResponses rs") (auto simp: response_instances_def)

lemma preaccept_phase_accepted:
  assumes "mgr_inv m" and "sched_ok es" and "\<forall>f. Env f \<notin> set es" and "instances m (InstanceID i) = Some i"
    and "Status i = INSTANCE_ACCEPTED" and "2 \<le> length (getInstanceReplicas m i)"
  shows "managerPreAcceptPhase S clock i m es \<noteq> Some (Ret (c, None), m', es')"
proof
  assume "managerPreAcceptPhase S clock i m es = Some (Ret (c, None), m', es')"
  then obtain x m1 es1 rs m2 es2 y m3 es3 where
    skip: "skip_invalid_status (pstep (\<lambda>m. preAcceptInstance S (clock es) m i True)) m es = Some (Ret x, m1, es1)"
    and send: "sendPreAccept (InstanceID i) (getInstanceReplicas m i) m1 es1 = Some (Ret rs, m2, es2)"
    and add: "add_missing_loop S rs m2 es2 = Some (Ret y, m3, es3)"
    and merge: "merge_loop (InstanceID i) rs False m3 es3 = Some (Ret (c, None), m', es')"
    by (rule preaccept_phase_steps)
  have m1: "m1 = fst (preAcceptInstance S (clock es) m i True)" "es1 = es" using skip_invalid_status_Ret [OF skip] by simp_all
  have i1: "instances m1 (InstanceID i) = Some i"
    unfolding m1(1) preAcceptInstance_def using assms(4,5) by (simp add: getOrSetInstance_existing preaccept_def)
  have inv1: "mgr_inv m1" using step_okD(1) [OF preAcceptInstance_step(1) assms(1)] assms(1) m1(1) by blast
  have "sched_ok es1" using assms(2) m1(2) by simp
  then obtain j used where "instances m1 (InstanceID i) = Some j" and used: "es1 = used @ es2"
    and rs: "1 + length rs = quorumSize (length (getInstanceReplicas m i))" and st: "step_ok m1 m2"
    and noenv: "(\<forall>f. Env f \<notin> set used) \<longrightarrow> instances m2 = instances m1"
    by (rule sendPreAccept_Ret [OF inv1 _ send])
  have i2: "instances m2 (InstanceID i) = Some i" using noenv used m1(2) assms(3) i1 by auto
  have "instances m3 (InstanceID i) = Some i"
    using add_missing_loop_known [OF step_okD(1) [OF st inv1] i2] add by auto
  moreover have "rs \<noteq> []" using rs assms(6) by (auto simp: quorumSize_def)
  ultimately have "Status i = INSTANCE_PREACCEPTED" using merge_loop_None merge by blast
  then show False using assms(5) by (simp add: status_defs)
qed

text \<open>
  An accepted instance that nobody else knows cannot be recovered.  If a replica has
  accepted an instance and all responses to its prepare say that the instance is unknown, it
  starts again with the preaccept phase, whose responses can only be merged into a
  preaccepted instance: unless another goroutine changes the instance, the prepare does not
  succeed, however the replicas answer.
\<close>

theorem accepted_unknown_prepare_fails:
  assumes "mgr_inv m" and "sched_ok es" and "\<forall>f. Env f \<notin> set es" and "instances m iid = Some i"
    and "Status i = INSTANCE_ACCEPTED" and "\<forall>r \<in> set responses. p_Accepted r \<and> p_Instance r = None"
    and "2 \<le> length (getInstanceReplicas m i)"
  shows "managerPrepareApply S clock iid responses m es \<noteq> Some (Ret (), m', es')"
proof
  assume run: "managerPrepareApply S clock iid responses m es = Some (Ret (), m', es')"
  have id: "InstanceID i = iid" using mgr_invD(1) [OF assms(1,4)] .
  obtain b where check: "managerPrepareCheckResponses S clock iid responses m es =
      Some (Ret (), put_instance m (i\<lparr>MaxBallot := b\<rparr>), es)"
    using CheckResponses_accepted [OF assms(4) id] assms(6) by blast
  let ?i = "i\<lparr>MaxBallot := b\<rparr>" and ?m = "put_instance m (i\<lparr>MaxBallot := b\<rparr>)"
  note m = put_ballot_facts [OF assms(1,4), of b]
  have an: "analyzePrepareResponses responses = None" using assms(6) by (intro analyze_unknown) blast
  have "choose_instance iid responses ?m es = Some (Ret (None, INSTANCE_PREACCEPTED), ?m, es)"
    by (simp add: choose_instance_def pbind_def pderef_def imap_Get_def id an assms(5) preturn_def)
  then have "prepare_preaccept S clock iid None ?m es = Some (Ret (), m', es')"
    using run check by (simp add: managerPrepareApply_def pbind_def)
  then obtain c m1 es1 where pa: "managerPreAcceptPhase S clock ?i ?m es = Some (Ret (c, None), m1, es1)"
    using m(2) by (auto simp: prepare_preaccept_def prepare_instance_def pbind_def [of "pderef _"] pderef_def imap_Get_def
        pfail_def elim!: pbind_Ret split: option.splits)
  moreover have "instances ?m (InstanceID ?i) = Some ?i" "2 \<le> length (getInstanceReplicas ?m ?i)"
    using assms(7) getInstanceReplicas_cong [OF refl refl, of ?i i m] by simp_all
  ultimately show False using preaccept_phase_accepted [OF m(1) assms(2,3)] assms(5) by simp
qed

definition ex_unknown :: PrepareResponse where
  "ex_unknown = \<lparr>p_Accepted = True, p_Instance = None\<rparr>"

theorem accepted_unknown_prepare_fails_witness:
  "managerPrepareApply ex_store ex_clock (InstanceID ex_instance) [ex_unknown, ex_unknown] ex_waiting
     [ex_preaccepted, ex_preaccepted, ex_accepted] \<noteq> Some (Ret (), ex_waiting, [])"
proof -
  have "sched_ok [ex_preaccepted, ex_preaccepted, ex_accepted :: (unit, unit) event]"
    "\<forall>f. Env f \<notin> set [ex_preaccepted, ex_preaccepted, ex_accepted :: (unit, unit) event]"
    "\<forall>r \<in> set [ex_unknown, ex_unknown]. p_Accepted r \<and> p_Instance r = None"
    by (simp_all add: ex_preaccepted_def ex_accepted_def ex_unknown_def)
  from accepted_unknown_prepare_fails [OF ex_waiting_facts(1) this(1,2) ex_waiting_facts(2,3) this(3)] show ?thesis
    by (simp add: ex_waiting_replicas)
qed

section \<open>Bounds\<close>

lemma safe_length: "safe p \<Longrightarrow> sched_ok es \<Longrightarrow> p m es = Some (r, m', es') \<Longrightarrow> length es' \<le> length es"
  by (drule safeD(3)) auto

lemma select_length: "select iid pick m es = Some (r, m', es') \<Longrightarrow> length es' < length es"
proof (induction es arbitrary: m)
  case (Cons e es)
  then show ?case by (cases e) (fastforce split: option.splits if_splits)+
qed simp

text \<open>
  The length of the schedule bounds the rounds.  The loop in which a replica contacts
  the successors again and again takes at least one event per round, so its result does not
  depend on the fuel as soon as there is more fuel than events: where the model has no
  result, the code waits for an event that does not come.
\<close>

theorem defer_loop_fuel:
  assumes "sched_ok es" and "length es < n" and "n \<le> k"
  shows "defer_loop S clock iid n m es = defer_loop S clock iid k m es"
  using assms
proof (induction n arbitrary: m es k)
  case (Suc n)
  then obtain k' where k: "k = Suc k'" "n \<le> k'" by (cases k) auto
  show ?case
  proof (cases "managerDeferToSuccessor S clock iid m es")
    case None
    then show ?thesis unfolding k(1) by (simp add: pbind_def)
  next
    case (Some x)
    obtain r m1 es1 where x: "x = (r, m1, es1)" by (cases x)
    note s1 = safeD(2) [OF safe_managerDeferToSuccessor Suc.prems(1)] and l1 = safe_length [OF safe_managerDeferToSuccessor Suc.prems(1)]
    have rec: "defer_loop S clock iid n m2 es2 = defer_loop S clock iid k' m2 es2"
      if sel: "select iid on_commit_or_timeout m1 es1 = Some (Ret c, m2, es2)" for c m2 es2
    proof (rule Suc.IH [OF _ _ k(2)])
      show "sched_ok es2" using safeD(2) [OF safe_select _ sel] s1 Some x by blast
      show "length es2 < n" using select_length [OF sel] l1 Some x Suc.prems(2) by fastforce
    qed
    have "pbind (select iid on_commit_or_timeout) (\<lambda>c. if c then preturn False else defer_loop S clock iid n) m1 es1 =
        pbind (select iid on_commit_or_timeout) (\<lambda>c. if c then preturn False else defer_loop S clock iid k') m1 es1"
      using rec by (auto simp: pbind_def split: option.split prod.split outcome.split)
    then show ?thesis
      unfolding k(1) by (simp add: pbind_def [of "managerDeferToSuccessor S clock iid"] Some x)
        (auto simp: pbind_def [of "pderef iid"] pderef_def split: option.split outcome.split)
  qed
qed simp

theorem defer_loop_fuel_witness:
  "defer_loop ex_store ex_clock (InstanceID ex_instance) 3 ex_waiting [Timeout, Timeout] =
   defer_loop ex_store ex_clock (InstanceID ex_instance) 7 ex_waiting [Timeout, Timeout]"
  by (rule defer_loop_fuel) simp_all

text \<open>The unfinished routine decides only what nobody else knows.\<close>

lemma applyPrepareResponses_spec:
  "applyPrepareResponses responses i =
     (if \<exists>r \<in> set responses. p_Instance r \<noteq> None then Inr None
      else if Status i = INSTANCE_PREACCEPTED then Inr (Some (setNoop (Instance_Copy i)))
      else Inl (Errorf ''Instance %v is unknown by other nodes, but has a status of %v''))"
proof -
  let ?f = "\<lambda>response (maxBallot, maxStatus, nilInstances, otherInstances).
      case p_Instance response of
        Some i \<Rightarrow> (if MaxBallot i > maxBallot then MaxBallot i else maxBallot,
          if Status i > maxStatus then Status i else maxStatus, nilInstances, True)
      | None \<Rightarrow> (maxBallot, maxStatus, True, otherInstances)"
  have "snd (snd (snd (fold ?f responses acc))) \<longleftrightarrow> snd (snd (snd acc)) \<or> (\<exists>r \<in> set responses. p_Instance r \<noteq> None)" for acc
    by (induction responses arbitrary: acc) (auto simp: split_beta split: option.split)
  from this [of "(0, 0, False, False)"] show ?thesis
    by (cases "fold ?f responses (0, 0, False, False)") (auto simp: applyPrepareResponses_def Let_def Instance_Copy_alt)
qed

end
