(* ===== verification/Tarjan.thy ===== *)
theory Tarjan
  imports Main
begin

text \<open>
  Tarjan's algorithm for strongly connected components (\<^verbatim>\<open>tarjanConnect\<close> in
  \<^verbatim>\<open>consensus/algorithms.go\<close>), which orders the dependency graph for execution.  The
  graph is an association list: its order is the order in which Go's \<^verbatim>\<open>range\<close> happens
  to visit the map, and the theorems hold for every order.

  The fields of the vertices are functions on identifiers.  The stack is kept with its top
  first.  Fuel bounds the depth of the recursion; \<^term>\<open>None\<close> stands for fuel that ran out
  or for popping an empty stack, and the correctness theorem excludes both.
\<close>

section \<open>The algorithm\<close>

type_synonym 'v graph = "('v \<times> 'v list) list"

record 'v tarjan =
  index :: nat
  v_index :: "'v \<Rightarrow> nat"
  v_lowlink :: "'v \<Rightarrow> nat"
  v_stacked :: "'v \<Rightarrow> bool"
  v_visited :: "'v \<Rightarrow> bool"
  stack :: "'v list"
  outp :: "'v list list"

definition v_out :: "'v graph \<Rightarrow> 'v \<Rightarrow> 'v list" where
  "v_out g v = (case map_of g v of None \<Rightarrow> [] | Some out \<Rightarrow> out)"

text \<open>Entering a vertex: it gets the next index and is pushed.\<close>

definition enter :: "'v \<Rightarrow> 'v tarjan \<Rightarrow> 'v tarjan" where
  "enter v s =
     (let i = index s + 1
      in s\<lparr>index := i, v_index := (v_index s)(v := i), v_lowlink := (v_lowlink s)(v := i),
           v_stacked := (v_stacked s)(v := True), v_visited := (v_visited s)(v := True),
           stack := v # stack s\<rparr>)"

definition lower :: "'v \<Rightarrow> nat \<Rightarrow> 'v tarjan \<Rightarrow> 'v tarjan" where
  "lower v n s = (if n < v_lowlink s v then s\<lparr>v_lowlink := (v_lowlink s)(v := n)\<rparr> else s)"

text \<open>Popping the vertices above and including \<open>v\<close> into a component.\<close>

fun pop_loop ::
    "'v \<Rightarrow> 'v list \<Rightarrow> 'v list \<Rightarrow> ('v \<Rightarrow> bool) \<Rightarrow> ('v list \<times> 'v list \<times> ('v \<Rightarrow> bool)) option" where
  "pop_loop v component [] stacked = None"
| "pop_loop v component (w # rest) stacked =
     (let stacked = stacked(w := False); component = component @ [w]
      in if w = v then Some (component, rest, stacked) else pop_loop v component rest stacked)"

definition leave :: "'v \<Rightarrow> 'v tarjan \<Rightarrow> 'v tarjan option" where
  "leave v s =
     (if v_index s v = v_lowlink s v
      then case pop_loop v [] (stack s) (v_stacked s) of
          None \<Rightarrow> None
        | Some (component, rest, stacked) \<Rightarrow>
            Some (s\<lparr>stack := rest, v_stacked := stacked, outp := outp s @ [component]\<rparr>)
      else Some s)"

fun strongConnect :: "'v graph \<Rightarrow> nat \<Rightarrow> 'v \<Rightarrow> 'v tarjan \<Rightarrow> 'v tarjan option"
  and out_loop :: "'v graph \<Rightarrow> nat \<Rightarrow> 'v \<Rightarrow> 'v list \<Rightarrow> 'v tarjan \<Rightarrow> 'v tarjan option" where
  "strongConnect g 0 v s = None"
| "strongConnect g (Suc n) v s =
     (case out_loop g n v (v_out g v) (enter v s) of None \<Rightarrow> None | Some s \<Rightarrow> leave v s)"
| "out_loop g n v [] s = Some s"
| "out_loop g n v (w # ws) s =
     (if map_of g w = None then out_loop g n v ws s
      else if \<not> v_visited s w then
        (case strongConnect g n w s of
           None \<Rightarrow> None
         | Some s \<Rightarrow> out_loop g n v ws (lower v (v_lowlink s w) s))
      else if v_stacked s w then out_loop g n v ws (lower v (v_index s w) s)
      else out_loop g n v ws s)"

fun vertices_loop :: "'v graph \<Rightarrow> nat \<Rightarrow> 'v list \<Rightarrow> 'v tarjan \<Rightarrow> 'v tarjan option" where
  "vertices_loop g n [] s = Some s"
| "vertices_loop g n (v # vs) s =
     (if \<not> v_visited s v
      then case strongConnect g n v s of None \<Rightarrow> None | Some s \<Rightarrow> vertices_loop g n vs s
      else vertices_loop g n vs s)"

definition tarjan_init :: "'v tarjan" where
  "tarjan_init =
     \<lparr>index = 0, v_index = (\<lambda>_. 0), v_lowlink = (\<lambda>_. 0), v_stacked = (\<lambda>_. False),
      v_visited = (\<lambda>_. False), stack = [], outp = []\<rparr>"

text \<open>The recursion is never deeper than the number of vertices.\<close>

definition tarjanConnect :: "'v graph \<Rightarrow> 'v list list option" where
  "tarjanConnect g = map_option outp (vertices_loop g (length g) (map fst g) tarjan_init)"

section \<open>The graph\<close>

definition edge :: "'v graph \<Rightarrow> 'v \<Rightarrow> 'v \<Rightarrow> bool" where
  "edge g u w \<longleftrightarrow> w \<in> set (v_out g u) \<and> map_of g w \<noteq> None"

abbreviation reach :: "'v graph \<Rightarrow> 'v \<Rightarrow> 'v \<Rightarrow> bool" where
  "reach g \<equiv> (edge g)\<^sup>*\<^sup>*"

text \<open>
  The components that have been output: disjoint, each the class of its members under
  mutual reachability, and every vertex reachable from a component lies in the same or in
  an earlier one.
\<close>

definition components_ok :: "'v graph \<Rightarrow> 'v list list \<Rightarrow> bool" where
  "components_ok g cs \<longleftrightarrow>
     distinct (concat cs) \<and>
     (\<forall>c \<in> set cs. c \<noteq> [] \<and> (\<forall>x \<in> set c. \<forall>y. y \<in> set c \<longleftrightarrow> reach g x y \<and> reach g y x)) \<and>
     (\<forall>i < length cs. \<forall>x \<in> set (cs ! i). \<forall>y. reach g x y \<longrightarrow> (\<exists>j \<le> i. y \<in> set (cs ! j)))"

section \<open>The invariant\<close>

text \<open>
  \<open>path\<close> is the set of vertices whose call of \<^verbatim>\<open>strongConnect\<close> is active.
\<close>

definition stack_wf :: "'v graph \<Rightarrow> 'v tarjan \<Rightarrow> bool" where
  "stack_wf g s \<longleftrightarrow>
     (\<forall>x. v_stacked s x = (x \<in> set (stack s))) \<and> (\<forall>x. v_stacked s x \<longrightarrow> v_visited s x) \<and>
     (\<forall>x. v_visited s x \<longrightarrow> map_of g x \<noteq> None \<and> v_index s x \<le> index s) \<and>
     sorted_wrt (\<lambda>x y. v_index s y < v_index s x) (stack s)"

definition stack_reach :: "'v graph \<Rightarrow> 'v set \<Rightarrow> 'v tarjan \<Rightarrow> bool" where
  "stack_reach g path s \<longleftrightarrow>
     (\<forall>x y. v_stacked s x \<longrightarrow> v_stacked s y \<longrightarrow> v_index s x \<le> v_index s y \<longrightarrow> reach g x y) \<and>
     (\<forall>x. v_stacked s x \<longrightarrow> x \<notin> path \<longrightarrow>
        (\<exists>y. v_stacked s y \<and> v_index s y < v_index s x \<and> reach g x y))"

definition visited_closed :: "'v graph \<Rightarrow> 'v set \<Rightarrow> 'v tarjan \<Rightarrow> bool" where
  "visited_closed g path s \<longleftrightarrow>
     (\<forall>x y. v_visited s x \<longrightarrow> x \<notin> path \<longrightarrow> edge g x y \<longrightarrow> v_visited s y) \<and>
     (\<forall>x y. v_visited s x \<longrightarrow> \<not> v_stacked s x \<longrightarrow> edge g x y \<longrightarrow> v_visited s y \<and> \<not> v_stacked s y)"

definition output_ok :: "'v graph \<Rightarrow> 'v tarjan \<Rightarrow> bool" where
  "output_ok g s \<longleftrightarrow>
     set (concat (outp s)) = {x. v_visited s x \<and> \<not> v_stacked s x} \<and> components_ok g (outp s)"

definition tarjan_inv :: "'v graph \<Rightarrow> 'v set \<Rightarrow> 'v tarjan \<Rightarrow> bool" where
  "tarjan_inv g path s \<longleftrightarrow>
     stack_wf g s \<and> (\<forall>x \<in> path. v_stacked s x) \<and> stack_reach g path s \<and>
     visited_closed g path s \<and> output_ok g s"

lemma stack_wfD:
  assumes "stack_wf g s"
  shows "v_stacked s x = (x \<in> set (stack s))"
    and "v_stacked s x \<Longrightarrow> v_visited s x"
    and "v_visited s x \<Longrightarrow> map_of g x \<noteq> None"
    and "v_visited s x \<Longrightarrow> v_index s x \<le> index s"
    and "sorted_wrt (\<lambda>x y. v_index s y < v_index s x) (stack s)"
proof -
  have "\<forall>x. v_stacked s x = (x \<in> set (stack s))" using assms unfolding stack_wf_def by (elim conjE)
  then show "v_stacked s x = (x \<in> set (stack s))" by (rule spec)
  have "\<forall>x. v_stacked s x \<longrightarrow> v_visited s x" using assms unfolding stack_wf_def by (elim conjE)
  then show "v_stacked s x \<Longrightarrow> v_visited s x" by blast
  have "\<forall>x. v_visited s x \<longrightarrow> map_of g x \<noteq> None \<and> v_index s x \<le> index s"
    using assms unfolding stack_wf_def by (elim conjE)
  then show "v_visited s x \<Longrightarrow> map_of g x \<noteq> None" "v_visited s x \<Longrightarrow> v_index s x \<le> index s"
    by blast+
qed (use assms in \<open>unfold stack_wf_def, elim conjE\<close>)

lemma stack_index_inj:
  assumes wf: "stack_wf g s" and "v_stacked s x" "v_stacked s y" "v_index s x = v_index s y"
  shows "x = y"
proof (rule ccontr)
  assume "x \<noteq> y"
  then have "v_index s x < v_index s y \<or> v_index s y < v_index s x"
    using stack_wfD(5) [OF wf] stack_wfD(1) [OF wf, of x] stack_wfD(1) [OF wf, of y] assms(2,3)
    by (induction "stack s") (auto simp: in_set_conv_nth sorted_wrt_iff_nth_less, metis nat_neq_iff)
  with assms(4) show False by simp
qed

lemma stack_reachD:
  assumes "stack_reach g path s"
  shows "v_stacked s x \<Longrightarrow> v_stacked s y \<Longrightarrow> v_index s x \<le> v_index s y \<Longrightarrow> reach g x y"
    and "v_stacked s x \<Longrightarrow> x \<notin> path \<Longrightarrow>
      \<exists>y. v_stacked s y \<and> v_index s y < v_index s x \<and> reach g x y"
  using assms unfolding stack_reach_def by simp_all

lemma visited_closedD:
  assumes "visited_closed g path s"
  shows "v_visited s x \<Longrightarrow> x \<notin> path \<Longrightarrow> edge g x y \<Longrightarrow> v_visited s y"
    and "v_visited s x \<Longrightarrow> \<not> v_stacked s x \<Longrightarrow> edge g x y \<Longrightarrow> v_visited s y \<and> \<not> v_stacked s y"
  using assms unfolding visited_closed_def by meson+

lemma tarjan_invD:
  assumes "tarjan_inv g path s"
  shows "stack_wf g s" and "x \<in> path \<Longrightarrow> v_stacked s x" and "stack_reach g path s"
    and "visited_closed g path s" and "output_ok g s"
  using assms unfolding tarjan_inv_def by simp_all

text \<open>What a call leaves alone: everything about the vertices visited before, except the
  lowlink of the vertices in \<open>A\<close>; new vertices have higher indices.\<close>

definition frame :: "'v set \<Rightarrow> 'v tarjan \<Rightarrow> 'v tarjan \<Rightarrow> bool" where
  "frame A s s' \<longleftrightarrow>
     (\<forall>x. v_visited s x \<longrightarrow> v_visited s' x \<and> v_index s' x = v_index s x \<and>
        v_stacked s' x = v_stacked s x \<and> (x \<notin> A \<longrightarrow> v_lowlink s' x = v_lowlink s x)) \<and>
     index s \<le> index s' \<and> (\<forall>x. v_visited s' x \<and> \<not> v_visited s x \<longrightarrow> index s < v_index s' x)"

lemma frameD:
  assumes "frame A s s'"
  shows "v_visited s x \<Longrightarrow> v_visited s' x" and "v_visited s x \<Longrightarrow> v_index s' x = v_index s x"
    and "v_visited s x \<Longrightarrow> v_stacked s' x = v_stacked s x"
    and "v_visited s x \<Longrightarrow> x \<notin> A \<Longrightarrow> v_lowlink s' x = v_lowlink s x"
    and "index s \<le> index s'"
    and "v_visited s' x \<Longrightarrow> \<not> v_visited s x \<Longrightarrow> index s < v_index s' x"
  using assms unfolding frame_def by blast+

lemma frame_refl [simp]: "frame A s s"
  by (simp add: frame_def)

lemma frame_trans:
  assumes s: "frame A s s'" and s': "frame A s' s''"
  shows "frame A s s''"
proof -
  have "index s < v_index s'' x" if "v_visited s'' x" "\<not> v_visited s x" for x
    using that frameD(2,6) [OF s', of x] frameD(6) [OF s, of x] frameD(5) [OF s]
    by (cases "v_visited s' x") auto
  moreover have "v_visited s'' x \<and> v_index s'' x = v_index s x \<and> v_stacked s'' x = v_stacked s x \<and>
      (x \<notin> A \<longrightarrow> v_lowlink s'' x = v_lowlink s x)" if "v_visited s x" for x
    using that frameD(1-4) [OF s, of x] frameD(1-4) [OF s', of x] by auto
  ultimately show ?thesis
    using le_trans [OF frameD(5) [OF s] frameD(5) [OF s']] unfolding frame_def by blast
qed

lemma frame_mono: "frame A s s' \<Longrightarrow> A \<subseteq> B \<Longrightarrow> frame B s s'"
  unfolding frame_def by blast

text \<open>
  What the lowlink of \<open>v\<close> means while its edges to \<open>D\<close> have been examined: it is the
  index of a stacked vertex that \<open>v\<close> reaches, and a lower bound for the stacked targets
  of the examined edges of \<open>v\<close> and of all edges of the vertices above it.
\<close>

definition low_ok :: "'v graph \<Rightarrow> 'v \<Rightarrow> 'v set \<Rightarrow> 'v tarjan \<Rightarrow> bool" where
  "low_ok g v D s \<longleftrightarrow>
     v_lowlink s v \<le> v_index s v \<and>
     (\<exists>y. v_stacked s y \<and> v_index s y = v_lowlink s v \<and> reach g v y) \<and>
     (\<forall>x y. v_stacked s x \<and> v_index s v < v_index s x \<and> edge g x y \<and> v_stacked s y \<longrightarrow>
        v_lowlink s v \<le> v_index s y) \<and>
     (\<forall>y \<in> D. v_visited s y \<and> (v_stacked s y \<longrightarrow> v_lowlink s v \<le> v_index s y))"

text \<open>The outcome of a call of \<^verbatim>\<open>strongConnect\<close>.\<close>

definition connected :: "'v graph \<Rightarrow> 'v \<Rightarrow> 'v tarjan \<Rightarrow> 'v tarjan \<Rightarrow> bool" where
  "connected g v s s' \<longleftrightarrow>
     frame {} s s' \<and> v_visited s' v \<and> v_lowlink s' v \<le> v_index s' v \<and>
     (v_stacked s' v \<longrightarrow> (\<exists>y. v_stacked s y \<and> v_index s y = v_lowlink s' v \<and> reach g v y)) \<and>
     (\<not> v_stacked s' v \<longrightarrow> v_lowlink s' v = v_index s' v) \<and>
     (\<forall>x y. v_stacked s' x \<and> \<not> v_visited s x \<and> edge g x y \<and> v_stacked s' y \<longrightarrow>
        v_lowlink s' v \<le> v_index s' y)"

lemma connectedD:
  assumes "connected g v s s'"
  shows "frame {} s s'" and "v_visited s' v" and "v_lowlink s' v \<le> v_index s' v"
    and "v_stacked s' v \<Longrightarrow> \<exists>y. v_stacked s y \<and> v_index s y = v_lowlink s' v \<and> reach g v y"
    and "\<not> v_stacked s' v \<Longrightarrow> v_lowlink s' v = v_index s' v"
    and "v_stacked s' x \<Longrightarrow> \<not> v_visited s x \<Longrightarrow> edge g x y \<Longrightarrow> v_stacked s' y \<Longrightarrow>
      v_lowlink s' v \<le> v_index s' y"
  using assms unfolding connected_def by blast+

definition unvisited :: "'v graph \<Rightarrow> 'v tarjan \<Rightarrow> 'v set" where
  "unvisited g s = {x \<in> dom (map_of g). \<not> v_visited s x}"

lemma finite_unvisited [simp]: "finite (unvisited g s)"
  by (simp add: unvisited_def finite_dom_map_of)

lemma unvisited_frame:
  assumes "frame A s s'"
  shows "card (unvisited g s') \<le> card (unvisited g s)"
proof (rule card_mono)
  show "unvisited g s' \<subseteq> unvisited g s"
    using frameD(1) [OF assms] unfolding unvisited_def by blast
qed simp

section \<open>The steps keep the invariant\<close>

lemma reach_top:
  assumes inv: "tarjan_inv g path s" and v: "v \<in> path" "\<forall>x \<in> path. v_index s x \<le> v_index s v"
  shows "v_stacked s x \<Longrightarrow> reach g x v"
proof (induction "v_index s x" arbitrary: x rule: less_induct)
  case less
  note sr = tarjan_invD(3) [OF inv]
  show ?case
  proof (cases "v_index s x \<le> v_index s v")
    case True
    then show ?thesis using stack_reachD(1) [OF sr less.prems] tarjan_invD(2) [OF inv v(1)] by blast
  next
    case False
    then have "x \<notin> path" using v(2) by auto
    then obtain y where "v_stacked s y" "v_index s y < v_index s x" "reach g x y"
      using stack_reachD(2) [OF sr less.prems] by blast
    then show ?thesis using less.hyps by (meson rtranclp_trans)
  qed
qed

lemma pop_loop_spec:
  assumes "sorted_wrt (\<lambda>x y. f y < (f x :: nat)) st" and "v \<in> set st"
  shows "\<exists>comp rest stk'. pop_loop v c st stk = Some (c @ comp, rest, stk') \<and>
    set comp = {x \<in> set st. f v \<le> f x} \<and> distinct comp \<and> set rest = {x \<in> set st. f x < f v} \<and>
    sorted_wrt (\<lambda>x y. f y < f x) rest \<and> (\<forall>x. stk' x = (stk x \<and> x \<notin> set comp))"
  using assms
proof (induction st arbitrary: c stk)
  case (Cons w st)
  show ?case
  proof (cases "w = v")
    case True
    then show ?thesis using Cons.prems by (auto intro!: exI [of _ "[v]"] exI [of _ st])
  next
    case False
    then have v: "v \<in> set st" and w: "f v < f w" "w \<notin> set st" using Cons.prems by auto
    have "sorted_wrt (\<lambda>x y. f y < f x) st" using Cons.prems by simp
    from Cons.IH [OF this v, of "c @ [w]" "stk(w := False)"]
    obtain comp rest stk' where IH:
      "pop_loop v (c @ [w]) st (stk(w := False)) = Some ((c @ [w]) @ comp, rest, stk')"
      "set comp = {x \<in> set st. f v \<le> f x}" "distinct comp" "set rest = {x \<in> set st. f x < f v}"
      "sorted_wrt (\<lambda>x y. f y < f x) rest" "\<forall>x. stk' x = ((stk(w := False)) x \<and> x \<notin> set comp)"
      by blast
    have "pop_loop v c (w # st) stk = Some (c @ (w # comp), rest, stk')"
      using False IH(1) by (simp add: Let_def)
    moreover have "set (w # comp) = {x \<in> set (w # st). f v \<le> f x}" "distinct (w # comp)"
      "set rest = {x \<in> set (w # st). f x < f v}" "\<forall>x. stk' x = (stk x \<and> x \<notin> set (w # comp))"
      using w IH by auto
    ultimately show ?thesis using IH(5) by blast
  qed
qed simp

lemma enter_fields [simp]:
  "index (enter v s) = index s + 1" "v_index (enter v s) = (v_index s)(v := index s + 1)"
  "v_lowlink (enter v s) = (v_lowlink s)(v := index s + 1)"
  "v_stacked (enter v s) = (v_stacked s)(v := True)"
  "v_visited (enter v s) = (v_visited s)(v := True)"
  "stack (enter v s) = v # stack s" "outp (enter v s) = outp s"
  by (simp_all add: enter_def Let_def)

lemma frame_enter: "\<not> v_visited s v \<Longrightarrow> frame {} s (enter v s)"
  by (auto simp: frame_def)

lemma unvisited_enter:
  "\<not> v_visited s v \<Longrightarrow> map_of g v \<noteq> None \<Longrightarrow> card (unvisited g (enter v s)) < card (unvisited g s)"
  by (rule psubset_card_mono) (auto simp: unvisited_def finite_dom_map_of)

lemma stack_wf_enter:
  assumes wf: "stack_wf g s" and v: "\<not> v_visited s v" "map_of g v \<noteq> None"
  shows "stack_wf g (enter v s)"
proof -
  have ne: "x \<noteq> v" if "x \<in> set (stack s)" for x
    using that v(1) stack_wfD(1,2) [OF wf] by blast
  have le: "v_index s x \<le> index s" if "x \<in> set (stack s)" for x
    using that stack_wfD(1,2,4) [OF wf] by blast
  have "sorted_wrt (\<lambda>x y. v_index (enter v s) y < v_index (enter v s) x) (stack s)"
    by (rule sorted_wrt_mono_rel [OF _ stack_wfD(5) [OF wf]]) (use ne in auto)
  then have "sorted_wrt (\<lambda>x y. v_index (enter v s) y < v_index (enter v s) x) (stack (enter v s))"
    using ne le by (auto simp: less_Suc_eq_le)
  moreover have "\<forall>x. v_stacked (enter v s) x = (x \<in> set (stack (enter v s)))"
    using stack_wfD(1) [OF wf] by auto
  moreover have "\<forall>x. v_stacked (enter v s) x \<longrightarrow> v_visited (enter v s) x"
    using stack_wfD(2) [OF wf] by auto
  moreover have "\<forall>x. v_visited (enter v s) x \<longrightarrow>
      map_of g x \<noteq> None \<and> v_index (enter v s) x \<le> index (enter v s)"
    using stack_wfD(3,4) [OF wf] v(2) by (auto simp: le_SucI)
  ultimately show ?thesis unfolding stack_wf_def by blast
qed

lemma enter_inv:
  assumes inv: "tarjan_inv g path s" and v: "\<not> v_visited s v" "map_of g v \<noteq> None"
    and reach: "\<forall>x. v_stacked s x \<longrightarrow> reach g x v"
  shows "tarjan_inv g (insert v path) (enter v s)" and "low_ok g v {} (enter v s)"
proof -
  note wf = tarjan_invD(1) [OF inv]
  have st: "v_stacked s x \<Longrightarrow> v_index s x \<le> index s \<and> x \<noteq> v" for x
    using stack_wfD(2,4) [OF wf] v(1) by blast
  have "stack_reach g (insert v path) (enter v s)"
  proof -
    have "\<exists>y. v_stacked (enter v s) y \<and> v_index (enter v s) y < v_index (enter v s) x \<and> reach g x y"
      if "v_stacked (enter v s) x" "x \<notin> insert v path" for x
      using that stack_reachD(2) [OF tarjan_invD(3) [OF inv], of x] st by auto
    moreover have "reach g x y" if "v_stacked (enter v s) x" "v_stacked (enter v s) y"
      "v_index (enter v s) x \<le> v_index (enter v s) y" for x y
      using that stack_reachD(1) [OF tarjan_invD(3) [OF inv], of x y] reach st [of y]
      by (auto split: if_splits)
    ultimately show ?thesis unfolding stack_reach_def by blast
  qed
  moreover have "visited_closed g (insert v path) (enter v s)"
    unfolding visited_closed_def
  proof (intro conjI allI impI)
    fix x y assume "v_visited (enter v s) x" "edge g x y"
    then show "x \<notin> insert v path \<Longrightarrow> v_visited (enter v s) y"
      using visited_closedD(1) [OF tarjan_invD(4) [OF inv], of x y] by auto
    assume "\<not> v_stacked (enter v s) x"
    with \<open>v_visited (enter v s) x\<close> \<open>edge g x y\<close> have "v_visited s y \<and> \<not> v_stacked s y"
      using visited_closedD(2) [OF tarjan_invD(4) [OF inv], of x y] by (auto split: if_splits)
    then show "v_visited (enter v s) y" "\<not> v_stacked (enter v s) y" using v(1) by auto
  qed
  moreover have "output_ok g (enter v s)"
    using tarjan_invD(5) [OF inv] v(1) unfolding output_ok_def by auto
  ultimately show "tarjan_inv g (insert v path) (enter v s)"
    using stack_wf_enter [OF wf v] tarjan_invD(2) [OF inv] unfolding tarjan_inv_def by auto
  have "\<not> v_index (enter v s) v < v_index (enter v s) x" if "v_stacked (enter v s) x" for x
    using that st [of x] by (auto split: if_splits)
  then have "\<forall>x y. v_stacked (enter v s) x \<and> v_index (enter v s) v < v_index (enter v s) x \<and>
      edge g x y \<and> v_stacked (enter v s) y \<longrightarrow> v_lowlink (enter v s) v \<le> v_index (enter v s) y"
    by blast
  then show "low_ok g v {} (enter v s)" unfolding low_ok_def by (auto intro!: exI [of _ v])
qed

lemma lower_fields [simp]:
  "index (lower v n s) = index s" "v_index (lower v n s) = v_index s"
  "v_stacked (lower v n s) = v_stacked s" "v_visited (lower v n s) = v_visited s"
  "stack (lower v n s) = stack s" "outp (lower v n s) = outp s"
  "v_lowlink (lower v n s) = (v_lowlink s)(v := min n (v_lowlink s v))"
  by (simp_all add: lower_def min_def fun_eq_iff)

lemma tarjan_inv_lower [simp]: "tarjan_inv g path (lower v n s) = tarjan_inv g path s"
  by (simp add: tarjan_inv_def stack_wf_def stack_reach_def visited_closed_def output_ok_def)

lemma frame_lower: "frame {v} s (lower v n s)"
  by (simp add: frame_def)

lemma low_okD:
  assumes "low_ok g v D s"
  shows "v_lowlink s v \<le> v_index s v"
    and "\<exists>y. v_stacked s y \<and> v_index s y = v_lowlink s v \<and> reach g v y"
    and "v_stacked s x \<Longrightarrow> v_index s v < v_index s x \<Longrightarrow> edge g x y \<Longrightarrow> v_stacked s y \<Longrightarrow>
      v_lowlink s v \<le> v_index s y"
    and "y \<in> D \<Longrightarrow> v_visited s y" and "y \<in> D \<Longrightarrow> v_stacked s y \<Longrightarrow> v_lowlink s v \<le> v_index s y"
  using assms unfolding low_ok_def by blast+

text \<open>An edge to a vertex that has been visited.\<close>

lemma low_ok_visited:
  assumes low: "low_ok g v D s" and w: "v_visited s w" "v_stacked s w \<Longrightarrow> reach g v w"
  shows "low_ok g v (insert w D) (if v_stacked s w then lower v (v_index s w) s else s)"
proof (cases "v_stacked s w")
  case True
  let ?s = "lower v (v_index s w) s"
  have "\<exists>y. v_stacked ?s y \<and> v_index ?s y = v_lowlink ?s v \<and> reach g v y"
    using low_okD(2) [OF low] True w(2) by (cases "v_index s w < v_lowlink s v") (auto simp: min_def)
  moreover have "v_lowlink ?s v \<le> v_index ?s y"
    if "v_stacked ?s x" "v_index ?s v < v_index ?s x" "edge g x y" "v_stacked ?s y" for x y
    using low_okD(3) [OF low, of x y] that by (auto simp: min_def)
  moreover have "v_visited ?s y \<and> (v_stacked ?s y \<longrightarrow> v_lowlink ?s v \<le> v_index ?s y)"
    if "y \<in> insert w D" for y
    using low_okD(4,5) [OF low, of y] that w(1) by (auto simp: min_def)
  moreover have "v_lowlink ?s v \<le> v_index ?s v" using low_okD(1) [OF low] by simp
  ultimately have "low_ok g v (insert w D) ?s" unfolding low_ok_def by blast
  then show ?thesis using True by simp
next
  case False
  have "low_ok g v (insert w D) s" using False low w(1) unfolding low_ok_def by blast
  then show ?thesis using False by simp
qed

text \<open>An edge to a new vertex, after the recursive call for it.\<close>

lemma low_ok_child:
  assumes inv: "tarjan_inv g path s" and v: "v \<in> path" "\<forall>x \<in> path. v_index s x \<le> v_index s v"
    and low: "low_ok g v D s" and conn: "connected g w s s'"
    and inv': "tarjan_inv g path s'" and w: "\<not> v_visited s w" "edge g v w"
  shows "low_ok g v (insert w D) (lower v (v_lowlink s' w) s')"
proof -
  let ?s = "lower v (v_lowlink s' w) s'"
  note fr = frameD [OF connectedD(1) [OF conn]] and wf = stack_wfD [OF tarjan_invD(1) [OF inv]]
    and wf' = stack_wfD [OF tarjan_invD(1) [OF inv']]
  have vis: "v_visited s v" using wf(2) tarjan_invD(2) [OF inv v(1)] by blast
  have vlow: "v_lowlink s' v = v_lowlink s v" "v_index s' v = v_index s v"
    using fr(2,4) [OF vis] by auto
  have stk: "v_stacked s' y \<and> v_index s' y = v_index s y" if "v_stacked s y" for y
    using that fr(2,3) [of y] wf(2) [of y] by simp
  have "\<exists>y. v_stacked ?s y \<and> v_index ?s y = v_lowlink ?s v \<and> reach g v y"
  proof (cases "v_lowlink s' w < v_lowlink s v")
    case True
    have "v_lowlink s v \<le> index s" using low_okD(1) [OF low] wf(4) [OF vis] by simp
    moreover have "index s < v_index s' w" using fr(6) [OF connectedD(2) [OF conn] w(1)] .
    ultimately have "v_stacked s' w" using True connectedD(5) [OF conn] by linarith
    then obtain y where "v_stacked s y" "v_index s y = v_lowlink s' w" "reach g w y"
      using connectedD(4) [OF conn] by blast
    with True stk [of y] vlow w(2) show ?thesis
      by (auto simp: min_def intro!: exI [of _ y] converse_rtranclp_into_rtranclp [of _ v])
  next
    case False
    obtain y where "v_stacked s y" "v_index s y = v_lowlink s v" "reach g v y"
      using low_okD(2) [OF low] by blast
    then show ?thesis using False stk [of y] vlow by (auto simp: min_def intro!: exI [of _ y])
  qed
  moreover have "v_lowlink ?s v \<le> v_index ?s y"
    if "v_stacked ?s x" "v_index ?s v < v_index ?s x" "edge g x y" "v_stacked ?s y" for x y
  proof (cases "v_visited s x")
    case True
    then have x: "v_stacked s x" "v_index s v < v_index s x" "x \<notin> path"
      using that fr(2,3) [OF True] vlow v(2) by auto
    then have "v_visited s y" using visited_closedD(1) [OF tarjan_invD(4) [OF inv] True] that by blast
    then have "v_lowlink s v \<le> v_index s' y"
      using low_okD(3) [OF low x(1,2) that(3)] that fr(2,3) [of y] by simp
    then show ?thesis using vlow by (simp add: min_def)
  next
    case False
    then show ?thesis using connectedD(6) [OF conn _ False that(3)] that by (simp add: min_def)
  qed
  moreover have "v_visited ?s y \<and> (v_stacked ?s y \<longrightarrow> v_lowlink ?s v \<le> v_index ?s y)"
    if "y \<in> insert w D" for y
  proof (cases "y = w")
    case True
    then show ?thesis using connectedD(2,3) [OF conn] by (simp add: min_def)
  next
    case False
    then have "v_visited s y" "v_stacked s y \<Longrightarrow> v_lowlink s v \<le> v_index s y"
      using that low_okD(4,5) [OF low, of y] by auto
    then show ?thesis using fr(1-3) [of y] vlow by (auto simp: min_def)
  qed
  moreover have "v_lowlink ?s v \<le> v_index ?s v" using low_okD(1) [OF low] vlow by (simp add: min_def)
  ultimately show ?thesis unfolding low_ok_def by blast
qed

text \<open>
  Leaving \<open>v\<close>: all its edges have been examined, and \<open>v\<close> is the topmost active vertex.
\<close>

definition finished :: "'v graph \<Rightarrow> 'v set \<Rightarrow> 'v \<Rightarrow> 'v tarjan \<Rightarrow> bool" where
  "finished g path v s \<longleftrightarrow>
     tarjan_inv g (insert v path) s \<and> low_ok g v {y. edge g v y} s \<and> v \<notin> path \<and>
     (\<forall>x \<in> path. v_index s x < v_index s v)"

lemma finishedD:
  assumes "finished g path v s"
  shows "tarjan_inv g (insert v path) s" and "low_ok g v {y. edge g v y} s" and "v \<notin> path"
    and "x \<in> path \<Longrightarrow> v_index s x < v_index s v"
    and "v_stacked s v" and "v_visited s v"
proof -
  show inv: "tarjan_inv g (insert v path) s" using assms by (simp add: finished_def)
  show "v_stacked s v" using tarjan_invD(2) [OF inv] by simp
  then show "v_visited s v" using stack_wfD(2) [OF tarjan_invD(1) [OF inv]] by blast
qed (use assms in \<open>simp_all add: finished_def\<close>)

lemma finished_edges:
  assumes fin: "finished g path v s" and x: "v_visited s x" "x \<notin> path" "edge g x y"
  shows "v_visited s y"
proof (cases "x = v")
  case True
  then show ?thesis using low_okD(4) [OF finishedD(2) [OF fin]] x(3) by simp
next
  case False
  then show ?thesis using visited_closedD(1) [OF tarjan_invD(4) [OF finishedD(1) [OF fin]]] x by simp
qed

lemma finished_closed: "finished g path v s \<Longrightarrow> visited_closed g path s"
  using finished_edges [of g path v s] visited_closedD(2) [OF tarjan_invD(4) [OF finishedD(1)]]
  unfolding visited_closed_def by metis

lemma leave_keep:
  assumes fin: "finished g path v s" and low: "v_lowlink s v < v_index s v"
  shows "tarjan_inv g path s"
proof -
  note inv = finishedD(1) [OF fin]
  have "\<exists>y. v_stacked s y \<and> v_index s y < v_index s x \<and> reach g x y"
    if "v_stacked s x" "x \<notin> path" for x
  proof (cases "x = v")
    case True
    then show ?thesis using low_okD(2) [OF finishedD(2) [OF fin]] low by metis
  next
    case False
    then show ?thesis using stack_reachD(2) [OF tarjan_invD(3) [OF inv]] that by simp
  qed
  then have "stack_reach g path s"
    using stack_reachD(1) [OF tarjan_invD(3) [OF inv]] unfolding stack_reach_def by blast
  then show ?thesis
    using tarjan_invD [OF inv] finished_closed [OF fin] unfolding tarjan_inv_def by blast
qed

text \<open>When the lowlink is the index, the vertices from \<open>v\<close> upwards form a component.\<close>

lemma segment_closed:
  assumes fin: "finished g path v s" and low: "v_lowlink s v = v_index s v"
    and r: "reach g x y"
    and x: "v_visited s x" "v_stacked s x \<Longrightarrow> v_index s v \<le> v_index s x"
  shows "v_visited s y \<and> (v_stacked s y \<longrightarrow> v_index s v \<le> v_index s y) \<and>
    (\<not> v_stacked s x \<longrightarrow> \<not> v_stacked s y)"
  using r x
proof (induction rule: rtranclp_induct)
  case (step y z)
  then have y: "v_visited s y" "v_stacked s y \<longrightarrow> v_index s v \<le> v_index s y" by auto
  note closed = visited_closedD(2) [OF tarjan_invD(4) [OF finishedD(1) [OF fin]] y(1) _ step.hyps(2)]
  show ?case
  proof (cases "v_stacked s y")
    case True
    with y have "y \<notin> path" using finishedD(4) [OF fin, of y] by auto
    then have "v_visited s z" by (rule finished_edges [OF fin y(1) _ step.hyps(2)])
    moreover have "v_index s v \<le> v_index s z" if "v_stacked s z"
    proof (cases "y = v")
      case True
      then show ?thesis using low_okD(5) [OF finishedD(2) [OF fin]] step.hyps(2) that low by simp
    next
      case False
      then have "v_index s y \<noteq> v_index s v"
        using stack_index_inj [OF tarjan_invD(1) [OF finishedD(1) [OF fin]] True finishedD(5) [OF fin]]
        by blast
      then show ?thesis
        using y True low_okD(3) [OF finishedD(2) [OF fin] True _ step.hyps(2) that] low by simp
    qed
    ultimately show ?thesis using step True by auto
  qed (use closed in auto)
qed auto

lemma segment_reach:
  assumes fin: "finished g path v s" and low: "v_lowlink s v = v_index s v"
  shows "v_stacked s x \<Longrightarrow> v_index s v \<le> v_index s x \<Longrightarrow> reach g x v \<and> reach g v x"
proof -
  assume x: "v_stacked s x" "v_index s v \<le> v_index s x"
  note inv = finishedD(1) [OF fin]
  have "\<forall>y \<in> insert v path. v_index s y \<le> v_index s v"
    using finishedD(4) [OF fin] by (auto intro: less_imp_le)
  then show ?thesis
    using reach_top [OF inv, of v x] stack_reachD(1) [OF tarjan_invD(3) [OF inv], of v x]
      x finishedD(5) [OF fin] by blast
qed

lemma segment_component:
  assumes fin: "finished g path v s" and low: "v_lowlink s v = v_index s v"
    and x: "v_stacked s x" "v_index s v \<le> v_index s x"
  shows "v_stacked s y \<and> v_index s v \<le> v_index s y \<longleftrightarrow> reach g x y \<and> reach g y x"
proof
  assume "v_stacked s y \<and> v_index s v \<le> v_index s y"
  then show "reach g x y \<and> reach g y x"
    using segment_reach [OF fin low] x by (meson rtranclp_trans)
next
  assume r: "reach g x y \<and> reach g y x"
  have "v_visited s x" using x(1) stack_wfD(2) [OF tarjan_invD(1) [OF finishedD(1) [OF fin]]] by blast
  then have y: "v_visited s y" "v_stacked s y \<longrightarrow> v_index s v \<le> v_index s y"
    using segment_closed [OF fin low conjunct1 [OF r]] x by auto
  then have "v_stacked s y" using segment_closed [OF fin low conjunct2 [OF r]] x by blast
  with y show "v_stacked s y \<and> v_index s v \<le> v_index s y" by simp
qed

lemma components_ok_snoc:
  assumes cs: "components_ok g cs" and c: "c \<noteq> []" "distinct c" "set c \<inter> set (concat cs) = {}"
    and scc: "\<forall>x \<in> set c. \<forall>y. y \<in> set c \<longleftrightarrow> reach g x y \<and> reach g y x"
    and closed: "\<forall>x \<in> set c. \<forall>y. reach g x y \<longrightarrow> y \<in> set c \<union> set (concat cs)"
  shows "components_ok g (cs @ [c])"
proof -
  have "\<exists>j \<le> i. y \<in> set ((cs @ [c]) ! j)"
    if i: "i < length (cs @ [c])" and x: "x \<in> set ((cs @ [c]) ! i)" and r: "reach g x y" for i x y
  proof (cases "i < length cs")
    case True
    then have "x \<in> set (cs ! i)" using x by (simp add: nth_append)
    then obtain j where "j \<le> i" "y \<in> set (cs ! j)"
      using cs True r unfolding components_ok_def by blast
    with True show ?thesis by (auto simp: nth_append intro!: exI [of _ j])
  next
    case False
    then have "i = length cs" "x \<in> set c" using i x by (auto simp: nth_append split: if_splits)
    then consider "y \<in> set c" | d where "d \<in> set cs" "y \<in> set d" using closed r by auto
    then show ?thesis
    proof cases
      case 1
      then show ?thesis using \<open>i = length cs\<close> by (intro exI [of _ i]) (simp add: nth_append)
    next
      case 2
      then obtain j where "j < length cs" "y \<in> set (cs ! j)" by (metis in_set_conv_nth)
      then show ?thesis using \<open>i = length cs\<close> by (intro exI [of _ j]) (simp add: nth_append)
    qed
  qed
  moreover have "distinct (concat (cs @ [c]))" using cs c unfolding components_ok_def by auto
  moreover have "\<forall>d \<in> set (cs @ [c]). d \<noteq> [] \<and>
      (\<forall>x \<in> set d. \<forall>y. y \<in> set d \<longleftrightarrow> reach g x y \<and> reach g y x)"
    using cs c(1) scc unfolding components_ok_def by simp
  ultimately show ?thesis unfolding components_ok_def by blast
qed

text \<open>The state after a component has been popped.\<close>

lemma leave_pop:
  assumes fin: "finished g path v s" and low: "v_lowlink s v = v_index s v"
  shows "\<exists>s'. leave v s = Some s' \<and> tarjan_inv g path s' \<and> index s' = index s \<and>
    v_index s' = v_index s \<and> v_lowlink s' = v_lowlink s \<and> v_visited s' = v_visited s \<and>
    (\<forall>x. v_stacked s' x = (v_stacked s x \<and> v_index s x < v_index s v))"
proof -
  note inv = finishedD(1) [OF fin] and wf = stack_wfD [OF tarjan_invD(1) [OF finishedD(1) [OF fin]]]
  have "v \<in> set (stack s)" using wf(1) finishedD(5) [OF fin] by blast
  from pop_loop_spec [OF wf(5) this, of "[]" "v_stacked s"]
  obtain comp rest stk where pop: "pop_loop v [] (stack s) (v_stacked s) = Some (comp, rest, stk)"
    and comp: "set comp = {x \<in> set (stack s). v_index s v \<le> v_index s x}" "distinct comp"
    and rest: "set rest = {x \<in> set (stack s). v_index s x < v_index s v}"
      "sorted_wrt (\<lambda>x y. v_index s y < v_index s x) rest"
    and stk: "\<forall>x. stk x = (v_stacked s x \<and> x \<notin> set comp)" by auto
  define s' where "s' = s\<lparr>stack := rest, v_stacked := stk, outp := outp s @ [comp]\<rparr>"
  have comp': "x \<in> set comp \<longleftrightarrow> v_stacked s x \<and> v_index s v \<le> v_index s x" for x
    using comp(1) wf(1) [of x] by blast
  have stk': "v_stacked s' x \<longleftrightarrow> v_stacked s x \<and> v_index s x < v_index s v" for x
    using stk comp' [of x] by (auto simp: s'_def not_le)
  have fields: "index s' = index s" "v_index s' = v_index s" "v_lowlink s' = v_lowlink s"
    "v_visited s' = v_visited s" "stack s' = rest" "outp s' = outp s @ [comp]"
    by (simp_all add: s'_def)
  have "stack_wf g s'"
    using wf rest stk' unfolding stack_wf_def fields by blast
  moreover have "\<forall>x \<in> path. v_stacked s' x"
    using tarjan_invD(2) [OF inv] finishedD(4) [OF fin] stk' by blast
  moreover have "stack_reach g path s'"
  proof -
    have "\<exists>y. v_stacked s' y \<and> v_index s y < v_index s x \<and> reach g x y"
      if x: "v_stacked s' x" "x \<notin> path" for x
    proof -
      have "x \<notin> insert v path" "v_stacked s x" using x stk' by auto
      then obtain y where "v_stacked s y" "v_index s y < v_index s x" "reach g x y"
        using stack_reachD(2) [OF tarjan_invD(3) [OF inv]] by blast
      moreover have "v_index s x < v_index s v" using x stk' by blast
      ultimately show ?thesis using stk' by (meson less_trans)
    qed
    moreover have "reach g x y" if "v_stacked s' x" "v_stacked s' y" "v_index s x \<le> v_index s y" for x y
      using stack_reachD(1) [OF tarjan_invD(3) [OF inv]] that stk' by blast
    ultimately show ?thesis unfolding stack_reach_def fields by blast
  qed
  moreover have closed: "v_visited s y \<and> \<not> v_stacked s' y"
    if "v_visited s x" "\<not> v_stacked s' x" "reach g x y" for x y
    using segment_closed [OF fin low that(3,1)] that(2) stk' by (metis not_le)
  then have "visited_closed g path s'"
    using finished_edges [OF fin] unfolding visited_closed_def fields by blast
  moreover have "output_ok g s'"
  proof -
    note out = tarjan_invD(5) [OF inv, unfolded output_ok_def]
    have "components_ok g (outp s @ [comp])"
    proof (rule components_ok_snoc)
      show "comp \<noteq> []" using comp' [of v] finishedD(5) [OF fin] by auto
      show "set comp \<inter> set (concat (outp s)) = {}" using out comp' by auto
      show "\<forall>x \<in> set comp. \<forall>y. y \<in> set comp \<longleftrightarrow> reach g x y \<and> reach g y x"
        using segment_component [OF fin low] comp' by blast
      show "\<forall>x \<in> set comp. \<forall>y. reach g x y \<longrightarrow> y \<in> set comp \<union> set (concat (outp s))"
        using segment_closed [OF fin low] comp' out wf(2) by blast
    qed (use out comp in auto)
    moreover have "set (concat (outp s @ [comp])) = {x. v_visited s x \<and> \<not> v_stacked s' x}"
      using out comp' stk' wf(2) by (auto simp: not_le)
    ultimately show ?thesis unfolding output_ok_def fields by blast
  qed
  ultimately have "tarjan_inv g path s'" unfolding tarjan_inv_def by blast
  moreover have "leave v s = Some s'" using pop low by (simp add: leave_def s'_def)
  ultimately show ?thesis using fields stk' by blast
qed

lemma leave_connected:
  assumes fin: "finished g path v s2" and fr: "frame {v} (enter v s) s2" and v: "\<not> v_visited s v"
    and wf: "stack_wf g s"
  shows "\<exists>s3. leave v s2 = Some s3 \<and> tarjan_inv g path s3 \<and> connected g v s s3"
proof -
  note fr' = frameD [OF fr] and low = finishedD(2) [OF fin]
  have old: "v_visited s2 x \<and> v_index s2 x = v_index s x \<and> v_stacked s2 x = v_stacked s x \<and>
      v_lowlink s2 x = v_lowlink s x \<and> v_index s x < v_index s2 v" if "v_visited s x" for x
    using that fr'(1-4) [of x] fr'(2) [of v] v stack_wfD(4) [OF wf that] by auto
  have new: "v_index s2 v \<le> v_index s2 x \<and> index s < v_index s2 x" if "v_visited s2 x" "\<not> v_visited s x" for x
    using that fr'(6) [of x] fr'(2) [of v] by (cases "x = v") auto
  have wf2: "stack_wf g s2" using tarjan_invD(1) [OF finishedD(1) [OF fin]] .
  have frame: "frame {} s s3"
    if "index s3 = index s2" "v_index s3 = v_index s2" "v_lowlink s3 = v_lowlink s2"
      "v_visited s3 = v_visited s2" "\<And>x. v_visited s x \<Longrightarrow> v_stacked s3 x = v_stacked s2 x" for s3
    using that old new fr'(5) unfolding frame_def by simp
  show ?thesis
  proof (cases "v_lowlink s2 v = v_index s2 v")
    case False
    then have less: "v_lowlink s2 v < v_index s2 v" using low_okD(1) [OF low] by simp
    obtain y where y: "v_stacked s2 y" "v_index s2 y = v_lowlink s2 v" "reach g v y"
      using low_okD(2) [OF low] by blast
    then have "v_visited s y" using new [of y] less stack_wfD(2) [OF wf2] by fastforce
    then have "v_stacked s y" "v_index s y = v_lowlink s2 v" using old [of y] y by auto
    moreover have "v_lowlink s2 v \<le> v_index s2 y"
      if x: "v_stacked s2 x" "\<not> v_visited s x" "edge g x y" "v_stacked s2 y" for x y
    proof (cases "x = v")
      case True
      then show ?thesis using low_okD(5) [OF low] x by simp
    next
      case False
      have "v_index s2 v \<le> v_index s2 x" using new [of x] x stack_wfD(2) [OF wf2] by blast
      then have "v_index s2 v < v_index s2 x"
        using False stack_index_inj [OF wf2 x(1) finishedD(5) [OF fin]] by fastforce
      then show ?thesis using low_okD(3) [OF low x(1) _ x(3,4)] by blast
    qed
    ultimately have "connected g v s s2"
      using less y(3) frame [of s2] finishedD(5,6) [OF fin] unfolding connected_def by force
    moreover have "leave v s2 = Some s2" using False by (simp add: leave_def)
    ultimately show ?thesis using leave_keep [OF fin less] by blast
  next
    case True
    from leave_pop [OF fin True] obtain s3 where s3: "leave v s2 = Some s3" "tarjan_inv g path s3"
      "index s3 = index s2" "v_index s3 = v_index s2" "v_lowlink s3 = v_lowlink s2"
      "v_visited s3 = v_visited s2"
      and stk: "\<And>x. v_stacked s3 x = (v_stacked s2 x \<and> v_index s2 x < v_index s2 v)" by blast
    have "frame {} s s3" using frame [OF s3(3-6)] old stk by simp
    moreover have "v_visited s x" if "v_stacked s3 x" for x
      using that stk new [of x] stack_wfD(2) [OF wf2] by fastforce
    ultimately have "connected g v s s3"
      using s3 stk True finishedD(6) [OF fin] unfolding connected_def by auto
    with s3(1,2) show ?thesis by blast
  qed
qed

section \<open>Correctness\<close>

text \<open>
  With fuel for the vertices that are still unvisited, a call returns and the loop over
  the edges returns.
\<close>

lemma strongConnect_ok:
  "\<And>path. tarjan_inv g path s \<Longrightarrow> map_of g v \<noteq> None \<Longrightarrow> \<not> v_visited s v \<Longrightarrow>
     \<forall>x. v_stacked s x \<longrightarrow> reach g x v \<Longrightarrow> card (unvisited g s) \<le> n \<Longrightarrow>
     \<exists>s'. strongConnect g n v s = Some s' \<and> tarjan_inv g path s' \<and> connected g v s s'"
  and out_loop_ok:
  "\<And>path D. tarjan_inv g path s \<Longrightarrow> v \<in> path \<Longrightarrow> \<forall>x \<in> path. v_index s x \<le> v_index s v \<Longrightarrow>
     low_ok g v D s \<Longrightarrow> set ws \<subseteq> set (v_out g v) \<Longrightarrow> card (unvisited g s) \<le> n \<Longrightarrow>
     \<exists>s'. out_loop g n v ws s = Some s' \<and> tarjan_inv g path s' \<and> frame {v} s s' \<and>
       low_ok g v (D \<union> {y \<in> set ws. edge g v y}) s'"
proof (induction g n v s and g n v ws s rule: strongConnect_out_loop.induct)
  case (1 g v s)
  then have "unvisited g s = {}" by simp
  with 1 show ?case by (auto simp: unvisited_def)
next
  case (2 g n v s)
  note enter = enter_inv [OF 2(2,4,3,5)]
  have le: "\<forall>x \<in> insert v path. v_index (enter v s) x \<le> v_index (enter v s) v"
    using stack_wfD(2,4) [OF tarjan_invD(1) [OF 2(2)]] tarjan_invD(2) [OF 2(2)] 2(4)
    by (auto simp: le_SucI)
  have "card (unvisited g (enter v s)) \<le> n" using unvisited_enter [OF 2(4,3)] 2(6) by simp
  from 2(1) [OF enter(1) insertI1 le enter(2) order_refl this]
  obtain s2 where s2: "out_loop g n v (v_out g v) (enter v s) = Some s2"
    "tarjan_inv g (insert v path) s2" "frame {v} (enter v s) s2"
    "low_ok g v {y. edge g v y} s2"
    by (auto simp: edge_def)
  have "v \<notin> path" using tarjan_invD(2) [OF 2(2)] stack_wfD(2) [OF tarjan_invD(1) [OF 2(2)]] 2(4) by blast
  moreover have "v_index s2 x < v_index s2 v" if "x \<in> path" for x
    using that le frameD(2) [OF s2(3)] tarjan_invD(2) [OF 2(2)] \<open>v \<notin> path\<close>
      stack_wfD(2,4) [OF tarjan_invD(1) [OF 2(2)], of x] by (auto simp: less_Suc_eq_le)
  ultimately have "finished g path v s2" using s2(2,4) by (simp add: finished_def)
  from leave_connected [OF this s2(3) 2(4) tarjan_invD(1) [OF 2(2)]] s2(1) show ?case by simp
next
  case (3 g n v s)
  then show ?case by simp
next
  case (4 g n v w ws s)
  note inv = "4.prems"(1) and ws = "4.prems"(5)
  have step: ?case
    if s: "tarjan_inv g path s'" "frame {v} s s'" "low_ok g v (insert w D) s'" "edge g v w"
      and nxt: "out_loop g n v (w # ws) s = out_loop g n v ws s'"
      and IH: "\<And>path D. tarjan_inv g path s' \<Longrightarrow> v \<in> path \<Longrightarrow>
        \<forall>x \<in> path. v_index s' x \<le> v_index s' v \<Longrightarrow> low_ok g v D s' \<Longrightarrow>
        set ws \<subseteq> set (v_out g v) \<Longrightarrow> card (unvisited g s') \<le> n \<Longrightarrow>
        \<exists>s''. out_loop g n v ws s' = Some s'' \<and> tarjan_inv g path s'' \<and> frame {v} s' s'' \<and>
          low_ok g v (D \<union> {y \<in> set ws. edge g v y}) s''" for s'
  proof -
    have "\<forall>x \<in> path. v_visited s x"
      using tarjan_invD(2) [OF inv] stack_wfD(2) [OF tarjan_invD(1) [OF inv]] by blast
    then have "\<forall>x \<in> path. v_index s' x = v_index s x" using frameD(2) [OF s(2)] by blast
    then have "\<forall>x \<in> path. v_index s' x \<le> v_index s' v" using "4.prems"(2,3) by simp
    from IH [OF s(1) "4.prems"(2) this s(3)] "4.prems"(5,6) unvisited_frame [OF s(2), of g]
    obtain s'' where "out_loop g n v ws s' = Some s''" "tarjan_inv g path s''" "frame {v} s' s''"
      "low_ok g v (insert w D \<union> {y \<in> set ws. edge g v y}) s''" by auto
    moreover have "insert w D \<union> {y \<in> set ws. edge g v y} = D \<union> {y \<in> set (w # ws). edge g v y}"
      using s(4) by auto
    ultimately show ?thesis using nxt frame_trans [OF s(2)] by auto
  qed
  show ?case
  proof (cases "map_of g w = None")
    case True
    then have "{y \<in> set (w # ws). edge g v y} = {y \<in> set ws. edge g v y}" by (auto simp: edge_def)
    then show ?thesis using "4.IH"(1) [OF True "4.prems"(1-4) _ "4.prems"(6)] ws True by auto
  next
    case False
    then have e: "edge g v w" using ws by (auto simp: edge_def)
    show ?thesis
    proof (cases "v_visited s w")
      case True
      let ?s = "if v_stacked s w then lower v (v_index s w) s else s"
      have "low_ok g v (insert w D) ?s" by (rule low_ok_visited [OF "4.prems"(4) True]) (use e in auto)
      moreover have "out_loop g n v (w # ws) s = out_loop g n v ws ?s" using True False by auto
      moreover have "frame {v} s ?s" by (simp add: frame_lower)
      ultimately show ?thesis
        using step [of ?s] inv e "4.IH"(4,5) [OF False] True by (cases "v_stacked s w") simp_all
    next
      case nv: False
      have "\<forall>x. v_stacked s x \<longrightarrow> reach g x w"
        using reach_top [OF inv "4.prems"(2,3)] e by (meson rtranclp.rtrancl_into_rtrancl)
      from "4.IH"(2) [OF False nv inv False nv this "4.prems"(6)] obtain s' where
        s': "strongConnect g n w s = Some s'" "tarjan_inv g path s'" "connected g w s s'" by blast
      let ?s = "lower v (v_lowlink s' w) s'"
      have "out_loop g n v (w # ws) s = out_loop g n v ws ?s" using False nv s'(1) by auto
      moreover have "frame {v} s ?s"
        using frame_trans [OF frame_mono [OF connectedD(1) [OF s'(3)]] frame_lower] by blast
      moreover have "low_ok g v (insert w D) ?s"
        by (rule low_ok_child [OF inv "4.prems"(2-4) s'(3,2) nv e])
      ultimately show ?thesis using step [of ?s] s'(2) e "4.IH"(3) [OF False nv s'(1)] by simp
    qed
  qed
qed

lemma stack_empty:
  assumes "tarjan_inv g {} s"
  shows "\<not> v_stacked s x"
proof
  assume "v_stacked s x"
  then show False
  proof (induction "v_index s x" arbitrary: x rule: less_induct)
    case less
    then show ?case using stack_reachD(2) [OF tarjan_invD(3) [OF assms] less.prems] by blast
  qed
qed

lemma vertices_loop_ok:
  assumes "tarjan_inv g {} s" and "card (unvisited g s) \<le> n" and "set vs \<subseteq> dom (map_of g)"
  shows "\<exists>s'. vertices_loop g n vs s = Some s' \<and> tarjan_inv g {} s' \<and> frame {} s s' \<and>
    (\<forall>v \<in> set vs. v_visited s' v)"
  using assms
proof (induction vs arbitrary: s)
  case (Cons v vs)
  show ?case
  proof (cases "v_visited s v")
    case True
    with Cons.prems Cons.IH [of s] frameD(1) show ?thesis by fastforce
  next
    case False
    from Cons.prems False stack_empty [OF Cons.prems(1)]
    obtain s' where s': "strongConnect g n v s = Some s'" "tarjan_inv g {} s'" "connected g v s s'"
      using strongConnect_ok [of g "{}" s v n] by auto
    note fr = connectedD(1) [OF s'(3)]
    have "card (unvisited g s') \<le> n" using unvisited_frame [OF fr, of g] Cons.prems(2) by simp
    with Cons.IH [OF s'(2)] Cons.prems(3) obtain s'' where s'': "vertices_loop g n vs s' = Some s''"
      "tarjan_inv g {} s''" "frame {} s' s''" "\<forall>v \<in> set vs. v_visited s'' v" by auto
    moreover have "v_visited s'' v" using frameD(1) [OF s''(3) connectedD(2) [OF s'(3)]] .
    ultimately show ?thesis using False s'(1) frame_trans [OF fr s''(3)] by auto
  qed
qed simp

lemma tarjanConnect_ok:
  "\<exists>cs. tarjanConnect g = Some cs \<and> set (concat cs) = fst ` set g \<and> components_ok g cs"
proof -
  have inv: "tarjan_inv g {} tarjan_init"
    by (simp add: tarjan_inv_def tarjan_init_def stack_wf_def stack_reach_def visited_closed_def
        output_ok_def components_ok_def)
  have "card (unvisited g tarjan_init) \<le> length g"
    using card_length [of "map fst g"] by (simp add: unvisited_def tarjan_init_def dom_map_of_conv_image_fst)
  from vertices_loop_ok [OF inv this, of "map fst g"]
  obtain s where s: "vertices_loop g (length g) (map fst g) tarjan_init = Some s" "tarjan_inv g {} s"
    "\<forall>v \<in> fst ` set g. v_visited s v" by (auto simp: dom_map_of_conv_image_fst)
  have "x \<in> fst ` set g" if "v_visited s x" for x
    using stack_wfD(3) [OF tarjan_invD(1) [OF s(2)] that] by (metis domI dom_map_of_conv_image_fst not_None_eq)
  then have "set (concat (outp s)) = fst ` set g"
    using tarjan_invD(5) [OF s(2)] stack_empty [OF s(2)] s(3) unfolding output_ok_def by blast
  then show ?thesis
    using s(1) tarjan_invD(5) [OF s(2)] unfolding output_ok_def tarjanConnect_def by auto
qed

text \<open>
  C8: the algorithm terminates within its fuel, never pops an empty stack, and returns
  the strongly connected components of the dependency graph: every vertex is in exactly one
  component, two vertices share a component exactly if each depends on the other, directly
  or through others, and whatever a component depends on is in the same or an earlier
  component.  The order of the map iteration does not matter.
\<close>

theorem tarjanConnect_correct:
  "\<exists>cs. tarjanConnect g = Some cs \<and> set (concat cs) = fst ` set g \<and> distinct (concat cs) \<and>
     (\<forall>c \<in> set cs. c \<noteq> [] \<and> (\<forall>x \<in> set c. \<forall>y. y \<in> set c \<longleftrightarrow> reach g x y \<and> reach g y x)) \<and>
     (\<forall>i < length cs. \<forall>x \<in> set (cs ! i). \<forall>y. reach g x y \<longrightarrow> (\<exists>j \<le> i. y \<in> set (cs ! j)))"
  using tarjanConnect_ok [of g] unfolding components_ok_def by blast

text \<open>The algorithm on a graph with a cycle, a dependency on it and an unknown vertex.\<close>

theorem tarjanConnect_correct_witness:
  "tarjanConnect [(1 :: nat, [2, 9]), (2, [3]), (3, [2]), (4, [1, 3])] = Some [[3, 2], [1], [4]] \<and>
   (\<exists>cs. tarjanConnect [(1 :: nat, [2, 9]), (2, [3]), (3, [2]), (4, [1, 3])] = Some cs \<and>
      set (concat cs) = {1, 2, 3, 4})"
proof
  show "tarjanConnect [(1 :: nat, [2, 9]), (2, [3]), (3, [2]), (4, [1, 3])] = Some [[3, 2], [1], [4]]"
    by (simp add: tarjanConnect_def tarjan_init_def enter_def lower_def leave_def v_out_def Let_def
        eval_nat_numeral)
  show "\<exists>cs. tarjanConnect [(1 :: nat, [2, 9]), (2, [3]), (3, [2]), (4, [1, 3])] = Some cs \<and>
      set (concat cs) = {1, 2, 3, 4}"
    using tarjanConnect_correct [of "[(1 :: nat, [2, 9]), (2, [3]), (3, [2]), (4, [1, 3])]"] by auto
qed

end
