(* ===== verification/ExecOrder.thy ===== *)
theory ExecOrder
  imports Tarjan Gostd
begin

text \<open>
  What the components that \<^verbatim>\<open>tarjanConnect\<close> returns mean for execution.  Instances are
  executed component by component, sorted within a component.  Two instances of which one
  depends on the other, directly or through others, are executed in the same order
  whichever way the graph was traversed, and if unrelated instances commute, the state after
  execution is the same.
\<close>

section \<open>Precedence in a list\<close>

definition before :: "'a list \<Rightarrow> 'a \<Rightarrow> 'a \<Rightarrow> bool" where
  "before xs x y \<longleftrightarrow> (\<exists>i j. i < j \<and> j < length xs \<and> xs ! i = x \<and> xs ! j = y)"

lemma before_Cons: "before (z # xs) x y \<longleftrightarrow> (z = x \<and> y \<in> set xs) \<or> before xs x y"
proof
  assume "before (z # xs) x y"
  then obtain i j where ij: "i < j" "j < length (z # xs)" "(z # xs) ! i = x" "(z # xs) ! j = y"
    by (auto simp: before_def)
  then obtain j' where j': "j = Suc j'" by (cases j) auto
  show "(z = x \<and> y \<in> set xs) \<or> before xs x y"
  proof (cases i)
    case 0
    then show ?thesis using ij j' by auto
  next
    case (Suc i')
    then show ?thesis using ij j' unfolding before_def by auto
  qed
next
  assume "(z = x \<and> y \<in> set xs) \<or> before xs x y"
  then show "before (z # xs) x y"
  proof
    assume "z = x \<and> y \<in> set xs"
    then obtain j where "j < length xs" "xs ! j = y" "z = x" by (auto simp: in_set_conv_nth)
    then show ?thesis unfolding before_def by (intro exI [of _ 0] exI [of _ "Suc j"]) auto
  next
    assume "before xs x y"
    then obtain i j where "i < j" "j < length xs" "xs ! i = x" "xs ! j = y" by (auto simp: before_def)
    then show ?thesis unfolding before_def by (intro exI [of _ "Suc i"] exI [of _ "Suc j"]) auto
  qed
qed

lemma before_Nil [simp]: "\<not> before [] x y"
  by (simp add: before_def)

lemma before_set: "before xs x y \<Longrightarrow> x \<in> set xs \<and> y \<in> set xs"
  by (auto simp: before_def)

lemma before_append:
  "before (xs @ ys) x y \<longleftrightarrow> before xs x y \<or> before ys x y \<or> (x \<in> set xs \<and> y \<in> set ys)"
  by (induction xs) (auto simp: before_Cons dest: before_set)

lemma before_total: "x \<in> set xs \<Longrightarrow> y \<in> set xs \<Longrightarrow> x \<noteq> y \<Longrightarrow> before xs x y \<or> before xs y x"
  by (induction xs) (auto simp: before_Cons)

lemma before_asym: "distinct xs \<Longrightarrow> before xs x y \<Longrightarrow> \<not> before xs y x"
  by (induction xs) (auto simp: before_Cons dest: before_set)

lemma before_concat:
  assumes "i < j" and "j < length xss" and "x \<in> set (xss ! i)" and "y \<in> set (xss ! j)"
  shows "before (concat xss) x y"
  using assms
proof (induction xss arbitrary: i j)
  case (Cons xs xss)
  then obtain j' where "j = Suc j'" by (cases j) auto
  with Cons show ?case by (cases i) (auto simp: before_append intro: nth_mem)
qed simp

lemma before_concat_in:
  assumes "i < length xss" and "before (xss ! i) x y"
  shows "before (concat xss) x y"
  using assms
proof (induction xss arbitrary: i)
  case (Cons xs xss)
  then show ?case by (cases i) (auto simp: before_append)
qed simp

lemma concat_nthE:
  assumes "x \<in> set (concat xss)"
  obtains i where "i < length xss" and "x \<in> set (xss ! i)"
proof -
  obtain xs where "xs \<in> set xss" "x \<in> set xs" using assms by auto
  then show ?thesis using that by (metis in_set_conv_nth)
qed

lemma before_sorted:
  assumes "sorted_wrt R xs" and "before xs x y"
  shows "R x y"
  using assms by (auto simp: before_def sorted_wrt_iff_nth_less)

section \<open>The execution order\<close>

definition exec_order :: "('v \<Rightarrow> 'v \<Rightarrow> bool) \<Rightarrow> 'v list list \<Rightarrow> 'v list" where
  "exec_order lt cs = concat (map (sort_Sort lt) cs)"

lemma set_exec_order [simp]: "set (exec_order lt cs) = set (concat cs)"
  by (simp add: exec_order_def)

lemma mset_exec_order: "mset (exec_order lt cs) = mset (concat cs)"
  by (induction cs) (simp_all add: exec_order_def mset_sort_Sort)

lemma distinct_exec_order [simp]: "distinct (exec_order lt cs) = distinct (concat cs)"
  using mset_exec_order [of lt cs] by (metis mset_eq_imp_distinct_iff)

text \<open>Dependencies come first, and cycles are broken by the order on identifiers.\<close>

lemma exec_order_reach:
  assumes cs: "components_ok g cs" and x: "x \<in> set (concat cs)" and r: "reach g x y" "\<not> reach g y x"
  shows "before (exec_order lt cs) y x"
proof -
  obtain i where i: "i < length cs" "x \<in> set (cs ! i)" using x by (rule concat_nthE)
  then obtain j where j: "j \<le> i" "y \<in> set (cs ! j)" using cs r(1) unfolding components_ok_def by blast
  have "j \<noteq> i"
  proof
    assume "j = i"
    then have "y \<in> set (cs ! i)" "cs ! i \<in> set cs" using j i by auto
    then show False using cs i(2) r(2) unfolding components_ok_def by blast
  qed
  then show ?thesis
    using i j unfolding exec_order_def by (intro before_concat [of j i]) auto
qed

lemma exec_order_scc:
  assumes lt: "sort_total lt C" and C: "set (concat cs) \<subseteq> C"
    and cs: "components_ok g cs" and x: "x \<in> set (concat cs)"
    and r: "reach g x y" "reach g y x" and "lt x y"
  shows "before (exec_order lt cs) x y"
proof -
  obtain i where i: "i < length cs" "x \<in> set (cs ! i)" using x by (rule concat_nthE)
  then have y: "y \<in> set (cs ! i)" using cs r unfolding components_ok_def by auto
  have sub: "set (cs ! i) \<subseteq> C" using C nth_mem [OF i(1)] by auto
  note lt' = sort_total.axioms(1) [OF lt]
  have "x \<noteq> y" using sort_interface.asym [OF lt', of x x] sub i(2) \<open>lt x y\<close> by auto
  then have "before (sort_Sort lt (cs ! i)) x y \<or> before (sort_Sort lt (cs ! i)) y x"
    using i y by (intro before_total) auto
  moreover have "\<not> before (sort_Sort lt (cs ! i)) y x"
    using before_sorted [OF sort_interface.sort_Sort_sorted [OF lt' sub]] \<open>lt x y\<close> by blast
  ultimately show ?thesis using i(1) unfolding exec_order_def by (intro before_concat_in) auto
qed

text \<open>
  The relative order of two instances that are related by dependencies does not depend on
  the traversal.
\<close>

lemma exec_order_agree:
  assumes lt: "sort_total lt C" and C: "set (concat cs) \<subseteq> C"
    and cs: "components_ok g cs" and cs': "components_ok g cs'"
    and same: "set (concat cs') = set (concat cs)"
    and xy: "x \<in> set (concat cs)" "y \<in> set (concat cs)" "x \<noteq> y" "reach g x y \<or> reach g y x"
  shows "before (exec_order lt cs) x y \<longleftrightarrow> before (exec_order lt cs') x y"
proof -
  let ?P = "\<lambda>ds. before (exec_order lt ds) x y" and ?Q = "\<lambda>ds. before (exec_order lt ds) y x"
  have "(?P cs \<and> ?P cs') \<or> (?Q cs \<and> ?Q cs')"
  proof (cases "reach g x y \<and> reach g y x")
    case True
    have "lt x y \<or> lt y x" using sort_total.total [OF lt] xy C by blast
    then show ?thesis
      using exec_order_scc [OF lt _ cs] exec_order_scc [OF lt _ cs'] True xy C same by metis
  next
    case False
    then show ?thesis
      using exec_order_reach [OF cs] exec_order_reach [OF cs'] xy same by metis
  qed
  moreover have "distinct (exec_order lt cs)" "distinct (exec_order lt cs')"
    using cs cs' by (simp_all add: components_ok_def)
  ultimately show ?thesis using before_asym by metis
qed

section \<open>Commuting executions\<close>

lemma fold_move_front:
  assumes "\<forall>y \<in> set ys. \<forall>s. f x (f y s) = f y (f x s)"
  shows "fold f (ys @ [x]) s = fold f (x # ys) s"
  using assms
proof (induction ys arbitrary: s)
  case (Cons y ys)
  then have "fold f (ys @ [x]) (f y s) = fold f (x # ys) (f y s)" by simp
  then show ?case using Cons.prems by simp
qed simp

text \<open>
  Two arrangements of the same steps that agree on the order of every pair that does not
  commute have the same effect.
\<close>

lemma fold_commute_order:
  assumes "distinct xs" and "distinct ys" and "set xs = set ys"
    and "\<forall>x \<in> set xs. \<forall>y \<in> set xs. x \<noteq> y \<longrightarrow>
      (\<forall>s. f x (f y s) = f y (f x s)) \<or> (before xs x y \<longleftrightarrow> before ys x y)"
  shows "fold f xs s = fold f ys s"
  using assms
proof (induction xs arbitrary: ys s)
  case (Cons x xs)
  obtain as bs where ys: "ys = as @ x # bs" using Cons.prems(3) by (metis list.set_intros(1) split_list)
  have x: "x \<notin> set as" "x \<notin> set bs" "x \<notin> set xs" using Cons.prems(1,2) ys by auto
  have sets: "set xs = set (as @ bs)"
    using Cons.prems(1,3) x by (auto simp: ys)
  have "\<forall>s. f x (f y s) = f y (f x s)" if "y \<in> set as" for y
  proof -
    have "y \<in> set xs" "y \<noteq> x" using that sets x by auto
    moreover have "before (x # xs) x y" using calculation by (simp add: before_Cons)
    moreover have "\<not> before ys x y"
      using before_asym [OF Cons.prems(2), of y x] that ys by (auto simp: before_append)
    ultimately show ?thesis using Cons.prems(4) by auto
  qed
  then have "fold f ys s = fold f (as @ bs) (f x s)"
    using fold_move_front [of as f x s] by (simp add: ys)
  moreover have "fold f xs (f x s) = fold f (as @ bs) (f x s)"
  proof (rule Cons.IH)
    show "\<forall>u \<in> set xs. \<forall>v \<in> set xs. u \<noteq> v \<longrightarrow>
        (\<forall>s. f u (f v s) = f v (f u s)) \<or> (before xs u v \<longleftrightarrow> before (as @ bs) u v)"
    proof (intro ballI impI)
      fix u v assume uv: "u \<in> set xs" "v \<in> set xs" "u \<noteq> v"
      then have "u \<noteq> x" "v \<noteq> x" using x by auto
      then have "before (x # xs) u v \<longleftrightarrow> before xs u v" "before ys u v \<longleftrightarrow> before (as @ bs) u v"
        by (auto simp: before_Cons before_append ys)
      moreover have "(\<forall>s. f u (f v s) = f v (f u s)) \<or> (before (x # xs) u v \<longleftrightarrow> before ys u v)"
        using bspec [OF bspec [OF Cons.prems(4), of u], of v] uv by simp
      ultimately show "(\<forall>s. f u (f v s) = f v (f u s)) \<or> (before xs u v \<longleftrightarrow> before (as @ bs) u v)"
        by blast
    qed
  qed (use Cons.prems sets ys in auto)
  ultimately show ?case by simp
qed simp

text \<open>
  If instances that are not related by dependencies commute, every traversal of the graph
  executes to the same state.
\<close>

lemma exec_order_converges:
  assumes lt: "sort_total lt C" and C: "set (concat cs) \<subseteq> C"
    and cs: "components_ok g cs" and cs': "components_ok g cs'"
    and same: "set (concat cs') = set (concat cs)"
    and comm: "\<forall>x \<in> set (concat cs). \<forall>y \<in> set (concat cs).
      reach g x y \<or> reach g y x \<or> (\<forall>s. f x (f y s) = f y (f x s))"
  shows "fold f (exec_order lt cs) s = fold f (exec_order lt cs') s"
proof (rule fold_commute_order)
  show "distinct (exec_order lt cs)" "distinct (exec_order lt cs')"
    using cs cs' by (simp_all add: components_ok_def)
  show "\<forall>x \<in> set (exec_order lt cs). \<forall>y \<in> set (exec_order lt cs). x \<noteq> y \<longrightarrow>
      (\<forall>s. f x (f y s) = f y (f x s)) \<or>
      (before (exec_order lt cs) x y \<longleftrightarrow> before (exec_order lt cs') x y)"
    using exec_order_agree [OF lt C cs cs' same] comm by (metis set_exec_order)
qed (simp only: set_exec_order same)

end
