(* ===== verification/KVStore.thy ===== *)
theory KVStore
  imports Instruction
begin

text \<open>
  The key-value store (\<^verbatim>\<open>kvstore/\<close>): the three kinds of values, the commands GET, SET
  and DEL, reconciliation of divergent replica values, and the wire form of values.
\<close>

section \<open>Values\<close>

text \<open>\<^verbatim>\<open>kvstore/val_string.go\<close>, \<^verbatim>\<open>val_tombstone.go\<close>, \<^verbatim>\<open>val_bool.go\<close>\<close>

datatype Value = String string Time | Tombstone Time | Boolean bool Time

definition STRING_VALUE :: string where "STRING_VALUE = ''STRING''"
definition TOMBSTONE_VALUE :: string where "TOMBSTONE_VALUE = ''TOMBSTONE''"
definition BOOL_VALUE :: string where "BOOL_VALUE = ''BOOL''"

fun GetTimestamp :: "Value \<Rightarrow> Time" where
  "GetTimestamp (String v t) = t"
| "GetTimestamp (Tombstone t) = t"
| "GetTimestamp (Boolean v t) = t"

fun GetValueType :: "Value \<Rightarrow> string" where
  "GetValueType (String v t) = STRING_VALUE"
| "GetValueType (Tombstone t) = TOMBSTONE_VALUE"
| "GetValueType (Boolean v t) = BOOL_VALUE"

definition baseValueEqual :: "Value \<Rightarrow> Value \<Rightarrow> bool" where
  "baseValueEqual v0 v1 =
     (if GetValueType v0 \<noteq> GetValueType v1 then False
      else if GetTimestamp v0 \<noteq> GetTimestamp v1 then False
      else True)"

definition String_Equal :: "string \<Rightarrow> Time \<Rightarrow> Value \<Rightarrow> bool" where
  "String_Equal v t u =
     (if \<not> baseValueEqual (String v t) u then False
      else case u of String w _ \<Rightarrow> v = w | _ \<Rightarrow> False)"

definition Tombstone_Equal :: "Time \<Rightarrow> Value \<Rightarrow> bool" where
  "Tombstone_Equal t u = baseValueEqual (Tombstone t) u"

definition Boolean_Equal :: "bool \<Rightarrow> Time \<Rightarrow> Value \<Rightarrow> bool" where
  "Boolean_Equal v t u =
     (if \<not> baseValueEqual (Boolean v t) u then False
      else case u of Boolean w _ \<Rightarrow> v = w | _ \<Rightarrow> False)"

fun Value_Equal :: "Value \<Rightarrow> Value \<Rightarrow> bool" where
  "Value_Equal (String v t) u = String_Equal v t u"
| "Value_Equal (Tombstone t) u = Tombstone_Equal t u"
| "Value_Equal (Boolean v t) u = Boolean_Equal v t u"

text \<open>\<^verbatim>\<open>kvstore/values.go\<close>: a value is written as its type name followed by its fields.\<close>

definition String_Serialize :: "string \<Rightarrow> Time \<Rightarrow> bytes" where
  "String_Serialize v t = WriteFieldBytes (string_bytes v) @ WriteTime t"

definition Tombstone_Serialize :: "Time \<Rightarrow> bytes" where
  "Tombstone_Serialize t = WriteTime t"

definition Boolean_Serialize :: "bool \<Rightarrow> Time \<Rightarrow> bytes" where
  "Boolean_Serialize v t = bool_byte v # WriteTime t"

fun Value_Serialize :: "Value \<Rightarrow> bytes" where
  "Value_Serialize (String v t) = String_Serialize v t"
| "Value_Serialize (Tombstone t) = Tombstone_Serialize t"
| "Value_Serialize (Boolean v t) = Boolean_Serialize v t"

lemmas value_defs =
  String_Equal_def Tombstone_Equal_def Boolean_Equal_def
  String_Serialize_def Tombstone_Serialize_def Boolean_Serialize_def

definition String_Deserialize :: "Value reader" where
  "String_Deserialize =
     rbind ReadFieldBytes (\<lambda>val. rbind ReadTime (\<lambda>t. rreturn (String (bytes_string val) t)))"

definition Tombstone_Deserialize :: "Value reader" where
  "Tombstone_Deserialize = rbind ReadTime (\<lambda>t. rreturn (Tombstone t))"

definition Boolean_Deserialize :: "Value reader" where
  "Boolean_Deserialize = rbind read_bool (\<lambda>b. rbind ReadTime (\<lambda>t. rreturn (Boolean b t)))"

definition WriteValue :: "Value \<Rightarrow> bytes" where
  "WriteValue v = WriteFieldBytes (string_bytes (GetValueType v)) @ Value_Serialize v"

definition ReadValue :: "(Value \<times> string) reader" where
  "ReadValue =
     rbind ReadFieldBytes (\<lambda>vstr.
       let vtype = bytes_string vstr in
       rbind
         (if vtype = STRING_VALUE then String_Deserialize
          else if vtype = TOMBSTONE_VALUE then Tombstone_Deserialize
          else if vtype = BOOL_VALUE then Boolean_Deserialize
          else rfail (Errorf ''Unexpected value type: %v''))
         (\<lambda>value. rreturn (value, vtype)))"

section \<open>The store\<close>

text \<open>\<^verbatim>\<open>kvstore/store.go\<close>, \<^verbatim>\<open>cmd_get.go\<close>, \<^verbatim>\<open>cmd_set.go\<close>, \<^verbatim>\<open>cmd_del.go\<close>\<close>

record KVStore =
  kv_data :: "string \<Rightarrow> Value option"

definition NewKVStore :: KVStore where
  "NewKVStore = \<lparr>kv_data = Map.empty\<rparr>"

definition GET :: string where "GET = ''GET''"
definition SET :: string where "SET = ''SET''"
definition DEL :: string where "DEL = ''DEL''"

definition validateGet :: "string \<Rightarrow> string list \<Rightarrow> error option" where
  "validateGet key args =
     (if length args \<noteq> 0 then Some (Errorf ''too many args for GET'') else None)"

definition kv_get :: "KVStore \<Rightarrow> string \<Rightarrow> Value option" where
  "kv_get s key = kv_data s key"

definition validateSet :: "string \<Rightarrow> string list \<Rightarrow> Time \<Rightarrow> error option" where
  "validateSet key args timestamp =
     (if length args \<noteq> 1
      then Some (Errorf ''incorrect number of args for SET. Expected 1, got %v'')
      else if Time_IsZero timestamp then Some (Errorf ''DEL Got zero timestamp'')
      else None)"

definition kv_set :: "KVStore \<Rightarrow> string \<Rightarrow> string \<Rightarrow> Time \<Rightarrow> KVStore \<times> Value" where
  "kv_set s key val ts =
     (case kv_data s key of
        Some existing \<Rightarrow>
          if Time_Before ts (GetTimestamp existing) then (s, existing)
          else (s\<lparr>kv_data := (kv_data s)(key \<mapsto> String val ts)\<rparr>, String val ts)
      | None \<Rightarrow> (s\<lparr>kv_data := (kv_data s)(key \<mapsto> String val ts)\<rparr>, String val ts))"

definition validateDel :: "string \<Rightarrow> string list \<Rightarrow> Time \<Rightarrow> error option" where
  "validateDel key args timestamp =
     (if length args \<noteq> 0 then Some (Errorf ''DEL takes 0 args, %v found'')
      else if Time_IsZero timestamp then Some (Errorf ''DEL Got zero timestamp'')
      else None)"

definition kv_del :: "KVStore \<Rightarrow> string \<Rightarrow> Time \<Rightarrow> KVStore \<times> Value" where
  "kv_del s key ts =
     (case kv_data s key of
        Some val \<Rightarrow> (s\<lparr>kv_data := (kv_data s)(key \<mapsto> Tombstone ts)\<rparr>,
                     Boolean True (GetTimestamp val))
      | None \<Rightarrow> (s, Boolean False zero_Time))"

text \<open>
  The value that a command returns is a Go interface and may be nil (\<open>None\<close>).  The
  argument \<^verbatim>\<open>args[0]\<close> of SET would panic on an empty list.
\<close>

definition ExecuteInstruction :: "KVStore \<Rightarrow> Instruction \<Rightarrow> KVStore \<times> Value option outcome" where
  "ExecuteInstruction s i =
     (let cmd = Cmd i; key = Key i; args = Args i; timestamp = Timestamp i in
      if cmd = GET then
        (case validateGet key args of
           Some err \<Rightarrow> (s, Err err)
         | None \<Rightarrow> (s, Ret (kv_get s key)))
      else if cmd = SET then
        (case validateSet key args timestamp of
           Some err \<Rightarrow> (s, Err err)
         | None \<Rightarrow>
             (case args of
                [] \<Rightarrow> (s, Panic ''index out of range'')
              | a # _ \<Rightarrow> (let (s', v) = kv_set s key a timestamp in (s', Ret (Some v)))))
      else if cmd = DEL then
        (case validateDel key args timestamp of
           Some err \<Rightarrow> (s, Err err)
         | None \<Rightarrow> (let (s', v) = kv_del s key timestamp in (s', Ret (Some v))))
      else (s, Err (Errorf ''Unrecognized write command: %v'')))"

text \<open>
  \<^verbatim>\<open>strings.ToUpper\<close> on ASCII letters; other bytes are kept.
\<close>

definition upper_char :: "char \<Rightarrow> char" where
  "upper_char c = (let n = of_char c :: nat in
     if 97 \<le> n \<and> n \<le> 122 then char_of (n - 32) else c)"

definition ToUpper :: "string \<Rightarrow> string" where
  "ToUpper s = map upper_char s"

definition IsReadOnly :: "Instruction \<Rightarrow> bool" where
  "IsReadOnly i = (if ToUpper (Cmd i) = GET then True else False)"

definition IsWriteOnly :: "Instruction \<Rightarrow> bool" where
  "IsWriteOnly i = (if ToUpper (Cmd i) = SET \<or> ToUpper (Cmd i) = DEL then True else False)"

definition ReturnsValue :: "string \<Rightarrow> bool" where
  "ReturnsValue cmd = (if ToUpper cmd = GET then True else False)"

definition InterferingKeys :: "Instruction \<Rightarrow> string list" where
  "InterferingKeys i = [Key i]"

definition GetRawKey :: "KVStore \<Rightarrow> string \<Rightarrow> Value outcome" where
  "GetRawKey s key =
     (case kv_data s key of
        None \<Rightarrow> Err (Errorf ''key [%v] does not exist'')
      | Some val \<Rightarrow> Ret val)"

definition SetRawKey :: "KVStore \<Rightarrow> string \<Rightarrow> Value \<Rightarrow> KVStore" where
  "SetRawKey s key val = s\<lparr>kv_data := (kv_data s)(key \<mapsto> val)\<rparr>"

text \<open>
  \<^verbatim>\<open>GetKeys\<close> returns the keys in the order of a map iteration, which Go leaves
  open: the possible results are the enumerations of the domain.
\<close>

definition GetKeys :: "KVStore \<Rightarrow> string list \<Rightarrow> bool" where
  "GetKeys s keys \<longleftrightarrow> distinct keys \<and> set keys = dom (kv_data s)"

definition KeyExists :: "KVStore \<Rightarrow> string \<Rightarrow> bool" where
  "KeyExists s key = (case kv_data s key of Some _ \<Rightarrow> True | None \<Rightarrow> False)"

definition SerializeValue :: "Value \<Rightarrow> bytes" where
  "SerializeValue v = WriteValue v"

definition DeserializeValue :: "bytes \<Rightarrow> error + (Value \<times> string)" where
  "DeserializeValue b = map_sum id fst (ReadValue b)"

section \<open>Reconciliation\<close>

text \<open>
  Reconciliation compares pointers in one place (\<^verbatim>\<open>val != highValue\<close> in
  \<^verbatim>\<open>reconcileTombstone\<close>), so the values are given as pointers: an address and the
  value it points to, or nil.
\<close>

type_synonym vref = "nat \<times> Value"

fun getHighValue_loop :: "Time \<Rightarrow> vref option \<Rightarrow> vref option list \<Rightarrow> vref option outcome" where
  "getHighValue_loop highTimestamp highValue [] = Ret highValue"
| "getHighValue_loop highTimestamp highValue (None # vals) = Panic ''nil pointer dereference''"
| "getHighValue_loop highTimestamp highValue (Some val # vals) =
     (let ts = GetTimestamp (snd val) in
      if Time_After ts highTimestamp then getHighValue_loop ts (Some val) vals
      else getHighValue_loop highTimestamp highValue vals)"

definition getHighValue :: "vref option list \<Rightarrow> vref option outcome" where
  "getHighValue values = getHighValue_loop zero_Time None values"

definition reconcileString ::
    "string \<Rightarrow> string \<Rightarrow> Time \<Rightarrow> vref list \<Rightarrow> Instruction list list" where
  "reconcileString key value t values =
     map (\<lambda>val. if \<not> Value_Equal (String value t) (snd val)
                then [\<lparr>Cmd = SET, Key = key, Args = [value], Timestamp = t\<rparr>]
                else []) values"

definition reconcileTombstone ::
    "string \<Rightarrow> nat \<Rightarrow> Time \<Rightarrow> vref list \<Rightarrow> Instruction list list" where
  "reconcileTombstone key addr t values =
     map (\<lambda>val. if fst val \<noteq> addr
                then [\<lparr>Cmd = DEL, Key = key, Args = [], Timestamp = t\<rparr>]
                else []) values"

definition Reconcile ::
    "string \<Rightarrow> vref option list \<Rightarrow> (vref option \<times> Instruction list list) outcome" where
  "Reconcile key values =
     (case values of
        [] \<Rightarrow> Err (Errorf ''At least one value must be provided'')
      | [val] \<Rightarrow> Ret (val, [])
      | _ \<Rightarrow> obind (getHighValue values) (\<lambda>high.
          case high of
            None \<Rightarrow> Panic ''nil pointer dereference''
          | Some (addr, String value t) \<Rightarrow>
              Ret (high, reconcileString key value t (map the values))
          | Some (addr, Tombstone t) \<Rightarrow>
              Ret (high, reconcileTombstone key addr t (map the values))
          | Some (addr, Boolean _ _) \<Rightarrow> Err (Errorf ''Unknown value type: %T'')))"

section \<open>Lemmas\<close>

lemma baseValueEqual_iff:
  "baseValueEqual v u \<longleftrightarrow> GetValueType v = GetValueType u \<and> GetTimestamp v = GetTimestamp u"
  by (simp add: baseValueEqual_def)

lemma value_type_distinct [simp]:
  "STRING_VALUE \<noteq> TOMBSTONE_VALUE" "TOMBSTONE_VALUE \<noteq> STRING_VALUE"
  "STRING_VALUE \<noteq> BOOL_VALUE" "BOOL_VALUE \<noteq> STRING_VALUE"
  "TOMBSTONE_VALUE \<noteq> BOOL_VALUE" "BOOL_VALUE \<noteq> TOMBSTONE_VALUE"
  by (simp_all add: STRING_VALUE_def TOMBSTONE_VALUE_def BOOL_VALUE_def)

lemma cmd_distinct [simp]:
  "GET \<noteq> SET" "SET \<noteq> GET" "GET \<noteq> DEL" "DEL \<noteq> GET" "SET \<noteq> DEL" "DEL \<noteq> SET"
  by (simp_all add: GET_def SET_def DEL_def)

lemma Value_Equal_iff: "Value_Equal v u \<longleftrightarrow> v = u"
  by (cases v; cases u) (auto simp: baseValueEqual_iff value_defs)

subsection \<open>The wire form of values\<close>

fun Value_NumBytes :: "Value \<Rightarrow> nat" where
  "Value_NumBytes (String v t) = 4 + 6 + (4 + length v) + NumTimeBytes"
| "Value_NumBytes (Tombstone t) = 4 + 9 + NumTimeBytes"
| "Value_NumBytes (Boolean v t) = 4 + 4 + 1 + NumTimeBytes"

fun Value_ok :: "Value \<Rightarrow> bool" where
  "Value_ok (String v t) \<longleftrightarrow> fits32 v"
| "Value_ok (Tombstone t) \<longleftrightarrow> True"
| "Value_ok (Boolean v t) \<longleftrightarrow> True"

lemma fits32_type [simp]: "fits32 (GetValueType v)"
  by (cases v) (simp_all add: fits32_def STRING_VALUE_def TOMBSTONE_VALUE_def BOOL_VALUE_def)

lemmas value_codec_defs = value_defs WriteValue_def ReadValue_def String_Deserialize_def
  Tombstone_Deserialize_def Boolean_Deserialize_def

lemma ReadValue_WriteValue:
  assumes "Value_ok v"
  shows "ReadValue (WriteValue v @ rest) = Inr ((v, GetValueType v), rest)"
  using assms fits32_type [of v]
  by (cases v) (simp_all add: value_codec_defs field_bytes.bind_read time.bind_read codec_simps Let_def)

lemma DeserializeValue_SerializeValue:
  "Value_ok v \<Longrightarrow> DeserializeValue (SerializeValue v) = Inr (v, GetValueType v)"
  using ReadValue_WriteValue [of v "[]"] by (simp add: DeserializeValue_def SerializeValue_def)

interpretation kv_value: codec WriteValue "rbind ReadValue (\<lambda>r. rreturn (fst r))"
  Value_NumBytes Value_ok
proof
  fix v :: Value and rest :: bytes
  assume "Value_ok v"
  then show "rbind ReadValue (\<lambda>r. rreturn (fst r)) (WriteValue v @ rest) = Inr (v, rest)"
    by (simp add: ReadValue_WriteValue codec_simps)
next
  fix v :: Value
  show "length (WriteValue v) = Value_NumBytes v"
    by (cases v) (simp_all add: value_defs WriteValue_def NumSliceBytes_def time.len STRING_VALUE_def
        TOMBSTONE_VALUE_def BOOL_VALUE_def)
qed

subsection \<open>Executing instructions\<close>

lemmas exec_defs = ExecuteInstruction_def Let_def validateGet_def validateSet_def validateDel_def
  kv_get_def kv_set_def kv_del_def

lemma exec_no_panic: "snd (ExecuteInstruction s i) \<noteq> Panic p"
  by (cases "Args i") (auto simp: exec_defs split: option.splits)

lemma exec_error_unchanged: "snd (ExecuteInstruction s i) = Err e \<Longrightarrow> fst (ExecuteInstruction s i) = s"
  by (cases "Args i") (auto simp: exec_defs split: option.splits if_splits)

lemma exec_other_key: "k \<noteq> Key i \<Longrightarrow> kv_data (fst (ExecuteInstruction s i)) k = kv_data s k"
  by (cases "Args i") (auto simp: exec_defs split: option.splits)

text \<open>An instruction reads and writes its own key only: its effect is a function of that entry.\<close>

definition exec_entry :: "Instruction \<Rightarrow> Value option \<Rightarrow> Value option \<times> Value option outcome" where
  "exec_entry i v =
     (let r = ExecuteInstruction \<lparr>kv_data = (\<lambda>_. None)(Key i := v)\<rparr> i
      in (kv_data (fst r) (Key i), snd r))"

lemma exec_by_entry:
  "ExecuteInstruction s i =
     (s\<lparr>kv_data := (kv_data s)(Key i := fst (exec_entry i (kv_data s (Key i))))\<rparr>,
      snd (exec_entry i (kv_data s (Key i))))"
  by (cases s; cases "Args i"; cases "kv_data s (Key i)")
     (auto simp: exec_entry_def exec_defs fun_upd_idem split: option.splits)

lemma exec_commute:
  assumes "Key i \<noteq> Key j"
  shows "fst (ExecuteInstruction (fst (ExecuteInstruction s i)) j) =
      fst (ExecuteInstruction (fst (ExecuteInstruction s j)) i)"
    and "snd (ExecuteInstruction (fst (ExecuteInstruction s i)) j) = snd (ExecuteInstruction s j)"
  using assms by (auto simp: exec_by_entry fun_upd_twist)

subsection \<open>Last write wins\<close>

text \<open>A well-formed SET of the key.\<close>

definition is_set :: "string \<Rightarrow> Instruction \<Rightarrow> bool" where
  "is_set k i \<longleftrightarrow> Cmd i = SET \<and> Key i = k \<and> length (Args i) = 1 \<and> \<not> Time_IsZero (Timestamp i)"

definition run_all :: "KVStore \<Rightarrow> Instruction list \<Rightarrow> KVStore" where
  "run_all s is = foldl (\<lambda>s i. fst (ExecuteInstruction s i)) s is"

definition written :: "Instruction \<Rightarrow> Value" where
  "written i = String (hd (Args i)) (Timestamp i)"

lemma run_all_simps [simp]:
  "run_all s [] = s" "run_all s (is @ [i]) = fst (ExecuteInstruction (run_all s is) i)"
  by (simp_all add: run_all_def)

lemma exec_set_entry:
  assumes "is_set k i"
  shows "kv_data (fst (ExecuteInstruction s i)) k =
    (case kv_data s k of
       None \<Rightarrow> Some (written i)
     | Some v \<Rightarrow> if Time_Before (Timestamp i) (GetTimestamp v) then Some v else Some (written i))"
  using assms by (cases "Args i") (auto simp: is_set_def written_def exec_defs split: option.splits)

lemma run_sets_written:
  assumes "kv_data s k = None" and "\<forall>i \<in> set is. is_set k i"
  shows "case kv_data (run_all s is) k of None \<Rightarrow> is = [] | Some v \<Rightarrow> \<exists>i \<in> set is. v = written i"
  using assms(2)
proof (induction "is" rule: rev_induct)
  case Nil
  show ?case by (simp add: assms(1))
next
  case (snoc i "is")
  then show ?case by (auto simp: exec_set_entry split: option.splits)
qed

lemma run_sets_max:
  assumes "kv_data s k = None" and "\<forall>i \<in> set is. is_set k i" and "j \<in> set is"
    and "\<forall>i \<in> set is. i \<noteq> j \<longrightarrow> Time_Before (Timestamp i) (Timestamp j)"
  shows "kv_data (run_all s is) k = Some (written j)"
  using assms(2-)
proof (induction "is" rule: rev_induct)
  case Nil
  then show ?case by simp
next
  case (snoc i "is")
  have dec: "case kv_data (run_all s is) k of None \<Rightarrow> is = [] | Some v \<Rightarrow> \<exists>i \<in> set is. v = written i"
    using snoc.prems by (intro run_sets_written assms) auto
  show ?case
  proof (cases "i = j")
    case False
    with snoc.prems have "kv_data (run_all s is) k = Some (written j)" by (intro snoc.IH) auto
    with False snoc.prems show ?thesis by (simp add: exec_set_entry written_def)
  next
    case True
    have "\<not> Time_Before (Timestamp j) (GetTimestamp v)" if "kv_data (run_all s is) k = Some v" for v
    proof -
      from dec that obtain i' where "i' \<in> set is" and v: "v = written i'" by auto
      then have "i' = j \<or> Time_Before (Timestamp i') (Timestamp j)" using snoc.prems by auto
      then show ?thesis using v Time_Before_trans [of "Timestamp j" "Timestamp i'" "Timestamp j"]
        by (auto simp: written_def)
    qed
    with True snoc.prems show ?thesis by (auto simp: exec_set_entry split: option.splits)
  qed
qed

lemma set_max_exists:
  assumes "is \<noteq> []"
    and "\<forall>i \<in> set is. \<forall>j \<in> set is. i = j \<or> Time_Before (Timestamp i) (Timestamp j)
      \<or> Time_Before (Timestamp j) (Timestamp i)"
  shows "\<exists>j \<in> set is. \<forall>i \<in> set is. i \<noteq> j \<longrightarrow> Time_Before (Timestamp i) (Timestamp j)"
  using assms
proof (induction "is" rule: list_nonempty_induct)
  case (single i)
  then show ?case by simp
next
  case (cons i "is")
  then obtain j where j: "j \<in> set is" "\<forall>i \<in> set is. i \<noteq> j \<longrightarrow> Time_Before (Timestamp i) (Timestamp j)"
    by auto
  consider "i = j" | "Time_Before (Timestamp i) (Timestamp j)" | "Time_Before (Timestamp j) (Timestamp i)"
    using cons.prems j by auto
  then show ?case
  proof cases
    case 3
    have "Time_Before (Timestamp i') (Timestamp i)" if "i' \<in> set is" for i'
      using that j 3 Time_Before_trans [of "Timestamp i'" "Timestamp j" "Timestamp i"] by auto
    then show ?thesis by auto
  qed (use j in auto)
qed

subsection \<open>Reconciliation\<close>

definition ref_time :: "vref option \<Rightarrow> Time" where
  "ref_time r = (case r of None \<Rightarrow> zero_Time | Some w \<Rightarrow> GetTimestamp (snd w))"

lemma getHighValue_loop_spec:
  assumes "getHighValue_loop (ref_time hv) hv vals = Ret r"
  shows "None \<notin> set vals \<and> (r = hv \<or> r \<in> set vals) \<and>
    (\<forall>v. v \<in> set vals \<longrightarrow> \<not> Time_Before (ref_time r) (ref_time v)) \<and>
    \<not> Time_Before (ref_time r) (ref_time hv)"
  using assms
proof (induction vals arbitrary: hv)
  case Nil
  then show ?case by simp
next
  case (Cons val vals)
  then obtain v where v: "val = Some v" by (cases val) auto
  show ?case
  proof (cases "Time_Before (ref_time hv) (ref_time val)")
    case True
    then have "getHighValue_loop (ref_time val) val vals = Ret r"
      using Cons.prems by (simp add: v Time_After_def ref_time_def)
    note IH = Cons.IH [OF this]
    then have "\<not> Time_Before (ref_time r) (ref_time hv)"
      using True Time_Before_trans by blast
    with IH v show ?thesis by auto
  next
    case False
    then have "getHighValue_loop (ref_time hv) hv vals = Ret r"
      using Cons.prems by (simp add: v Time_After_def ref_time_def)
    note IH = Cons.IH [OF this]
    then have "\<not> Time_Before (ref_time r) (ref_time val)"
      using False Time_Before_weak by blast
    with IH v show ?thesis by auto
  qed
qed

lemma getHighValue_max:
  assumes "getHighValue vals = Ret (Some hv)"
  shows "None \<notin> set vals" and "Some hv \<in> set vals"
    and "Some v \<in> set vals \<Longrightarrow> \<not> Time_Before (GetTimestamp (snd hv)) (GetTimestamp (snd v))"
proof -
  have "getHighValue_loop (ref_time None) None vals = Ret (Some hv)"
    using assms by (simp add: getHighValue_def ref_time_def)
  from getHighValue_loop_spec [OF this]
  show "None \<notin> set vals" and "Some hv \<in> set vals"
    and "Some v \<in> set vals \<Longrightarrow> \<not> Time_Before (GetTimestamp (snd hv)) (GetTimestamp (snd v))"
    by (auto simp: ref_time_def)
qed

lemma Time_After_zero: "Time_Before zero_Time t \<Longrightarrow> \<not> Time_IsZero t"
  by (auto simp: Time_Before_def zero_Time_def Time_IsZero_def)

lemma getHighValue_loop_positive:
  assumes "getHighValue_loop (ref_time hv) hv vals = Ret (Some r)"
    and "hv = None \<or> Time_Before zero_Time (ref_time hv)"
  shows "Time_Before zero_Time (GetTimestamp (snd r))"
  using assms
proof (induction vals arbitrary: hv)
  case Nil
  then show ?case by (auto simp: ref_time_def)
next
  case (Cons val vals)
  then obtain v where v: "val = Some v" by (cases val) auto
  show ?case
  proof (cases "Time_Before (ref_time hv) (ref_time val)")
    case True
    then have "Time_Before zero_Time (ref_time val)"
      using Cons.prems(2) Time_Before_trans by (auto simp: ref_time_def)
    moreover have "getHighValue_loop (ref_time val) val vals = Ret (Some r)"
      using Cons.prems True by (simp add: v Time_After_def ref_time_def)
    ultimately show ?thesis by (intro Cons.IH) auto
  next
    case False
    then have "getHighValue_loop (ref_time hv) hv vals = Ret (Some r)"
      using Cons.prems by (simp add: v Time_After_def ref_time_def)
    with Cons.prems(2) show ?thesis by (intro Cons.IH)
  qed
qed

lemma getHighValue_nonzero:
  assumes "getHighValue vals = Ret (Some hv)"
  shows "\<not> Time_IsZero (GetTimestamp (snd hv))"
proof -
  have "getHighValue_loop (ref_time None) None vals = Ret (Some hv)"
    using assms by (simp add: getHighValue_def ref_time_def)
  from getHighValue_loop_positive [OF this] show ?thesis
    by (intro Time_After_zero) simp
qed

lemma Reconcile_cases:
  assumes "Reconcile key vals = Ret (Some hv, instrs)" and "1 < length vals"
  obtains (str) val t where "getHighValue vals = Ret (Some hv)" and "snd hv = String val t"
    and "instrs = reconcileString key val t (map the vals)"
  | (tomb) t where "getHighValue vals = Ret (Some hv)" and "snd hv = Tombstone t"
    and "instrs = reconcileTombstone key (fst hv) t (map the vals)"
proof -
  from assms(2) obtain a b vs where vals: "vals = a # b # vs"
    by (cases vals rule: remdups_adj.cases) auto
  have "obind (getHighValue vals) (\<lambda>high.
          case high of
            None \<Rightarrow> Panic ''nil pointer dereference''
          | Some (addr, String value t) \<Rightarrow>
              Ret (high, reconcileString key value t (map the vals))
          | Some (addr, Tombstone t) \<Rightarrow>
              Ret (high, reconcileTombstone key addr t (map the vals))
          | Some (addr, Boolean _ _) \<Rightarrow> Err (Errorf ''Unknown value type: %T'')) = Ret (Some hv, instrs)"
    using assms(1) unfolding Reconcile_def vals by simp
  then show thesis
    using that by (cases "getHighValue vals") (auto split: option.splits prod.splits Value.splits)
qed

lemma run_all_single [simp]: "run_all s [i] = fst (ExecuteInstruction s i)"
  by (simp add: run_all_def)

lemma exec_repair_set:
  assumes "kv_data s key = Some v" and "\<not> Time_Before t (GetTimestamp v)" and "\<not> Time_IsZero t"
  shows "kv_data (fst (ExecuteInstruction s \<lparr>Cmd = SET, Key = key, Args = [w], Timestamp = t\<rparr>)) key =
    Some (String w t)"
  using assms by (simp add: exec_defs)

lemma exec_repair_del:
  assumes "kv_data s key = Some v" and "\<not> Time_IsZero t"
  shows "kv_data (fst (ExecuteInstruction s \<lparr>Cmd = DEL, Key = key, Args = [], Timestamp = t\<rparr>)) key =
    Some (Tombstone t)"
  using assms by (simp add: exec_defs)

section \<open>Properties\<close>

text \<open>
  C25: instructions whose interfering keys are disjoint commute.  The final store
  does not depend on their order and each returns the same result in either order, so the
  consensus layer may leave them unordered.
\<close>

theorem noninterfering_commute:
  assumes "set (InterferingKeys i) \<inter> set (InterferingKeys j) = {}"
  shows "fst (ExecuteInstruction (fst (ExecuteInstruction s i)) j) =
      fst (ExecuteInstruction (fst (ExecuteInstruction s j)) i) \<and>
    snd (ExecuteInstruction (fst (ExecuteInstruction s i)) j) = snd (ExecuteInstruction s j) \<and>
    snd (ExecuteInstruction (fst (ExecuteInstruction s j)) i) = snd (ExecuteInstruction s i)"
  using assms exec_commute [of i j s] exec_commute [of j i s] by (auto simp: InterferingKeys_def)

definition ex_time :: "nat \<Rightarrow> Time" where
  "ex_time n = \<lparr>t_sec = of_nat n, t_nsec = 0, t_loc = -1\<rparr>"

definition ex_set :: "string \<Rightarrow> string \<Rightarrow> nat \<Rightarrow> Instruction" where
  "ex_set k v n = \<lparr>Cmd = SET, Key = k, Args = [v], Timestamp = ex_time n\<rparr>"

theorem noninterfering_commute_witness:
  "set (InterferingKeys (ex_set ''a'' ''x'' 1)) \<inter> set (InterferingKeys (ex_set ''b'' ''y'' 2)) = {} \<and>
   fst (ExecuteInstruction (fst (ExecuteInstruction NewKVStore (ex_set ''a'' ''x'' 1))) (ex_set ''b'' ''y'' 2)) =
   fst (ExecuteInstruction (fst (ExecuteInstruction NewKVStore (ex_set ''b'' ''y'' 2))) (ex_set ''a'' ''x'' 1))"
proof -
  have h: "set (InterferingKeys (ex_set ''a'' ''x'' 1)) \<inter> set (InterferingKeys (ex_set ''b'' ''y'' 2)) = {}"
    by (simp add: InterferingKeys_def ex_set_def)
  show ?thesis using h noninterfering_commute [OF h, of NewKVStore] by blast
qed

text \<open>
  Last write wins.  SETs of one key with pairwise ordered timestamps leave the
  value with the latest timestamp, whatever the order in which they are applied.
\<close>

theorem set_order_irrelevant:
  assumes "kv_data s k = None" and "\<forall>i \<in> set is. is_set k i"
    and "\<forall>i \<in> set is. \<forall>j \<in> set is. i = j \<or> Time_Before (Timestamp i) (Timestamp j)
      \<or> Time_Before (Timestamp j) (Timestamp i)"
    and "set is = set js"
  shows "kv_data (run_all s is) k = kv_data (run_all s js) k"
proof (cases "is = []")
  case True
  with assms(4) show ?thesis by simp
next
  case False
  obtain j where j: "j \<in> set is" "\<forall>i \<in> set is. i \<noteq> j \<longrightarrow> Time_Before (Timestamp i) (Timestamp j)"
    using set_max_exists [OF False assms(3)] by blast
  have "kv_data (run_all s is) k = Some (written j)"
    using assms j by (intro run_sets_max) auto
  moreover have "kv_data (run_all s js) k = Some (written j)"
    using assms j by (intro run_sets_max) auto
  ultimately show ?thesis by simp
qed

theorem set_order_irrelevant_witness:
  "kv_data (run_all NewKVStore [ex_set ''a'' ''x'' 1, ex_set ''a'' ''y'' 2]) ''a'' =
   kv_data (run_all NewKVStore [ex_set ''a'' ''y'' 2, ex_set ''a'' ''x'' 1]) ''a''"
proof (rule set_order_irrelevant)
  show "kv_data NewKVStore ''a'' = None" by (simp add: NewKVStore_def)
qed (auto simp: is_set_def ex_set_def ex_time_def Time_IsZero_def Time_Before_def)

text \<open>
  Deletion ignores timestamps.  While SET keeps a newer value, DEL replaces the
  stored value by its tombstone even when the stored value has a later timestamp, so a
  delayed DEL removes a newer write.
\<close>

theorem stale_del_overwrites:
  assumes "kv_data s k = Some v" and "Time_Before t (GetTimestamp v)" and "\<not> Time_IsZero t"
  shows "kv_data (fst (ExecuteInstruction s (NewInstruction DEL k [] t))) k = Some (Tombstone t) \<and>
    kv_data (fst (ExecuteInstruction s (NewInstruction SET k [w] t))) k = Some v"
  using assms by (simp add: exec_defs NewInstruction_def)

theorem stale_del_overwrites_witness:
  "kv_data (fst (ExecuteInstruction (run_all NewKVStore [ex_set ''a'' ''x'' 2])
     (NewInstruction DEL ''a'' [] (ex_time 1)))) ''a'' = Some (Tombstone (ex_time 1))"
proof -
  have v: "kv_data (run_all NewKVStore [ex_set ''a'' ''x'' 2]) ''a'' = Some (String ''x'' (ex_time 2))"
    by (simp add: exec_defs ex_set_def NewKVStore_def ex_time_def Time_IsZero_def)
  show ?thesis
    using stale_del_overwrites [OF v, of "ex_time 1"]
    by (simp add: ex_time_def Time_Before_def Time_IsZero_def)
qed

text \<open>
  Read repair converges.  When reconciliation of several replica values returns
  a value and repair instructions, running the instructions for a replica on a store that
  holds the replica's value leaves exactly the reconciled value there, for every replica.
\<close>

theorem reconcile_repairs:
  assumes "Reconcile key vals = Ret (Some hv, instrs)" and "1 < length vals"
    and "\<forall>a v w. Some (a, v) \<in> set vals \<and> Some (a, w) \<in> set vals \<longrightarrow> v = w"
  shows "length instrs = length vals \<and>
    (\<forall>n < length vals. \<forall>s. kv_data s key = Some (snd (the (vals ! n))) \<longrightarrow>
       kv_data (run_all s (instrs ! n)) key = Some (snd hv))"
proof (rule Reconcile_cases [OF assms(1,2)])
  fix val t
  assume h: "getHighValue vals = Ret (Some hv)" "snd hv = String val t"
    "instrs = reconcileString key val t (map the vals)"
  have "kv_data (run_all s (instrs ! n)) key = Some (snd hv)"
    if n: "n < length vals" and sn: "kv_data s key = Some (snd (the (vals ! n)))" for n s
  proof -
    have "Some (the (vals ! n)) \<in> set vals"
      using getHighValue_max(1) [OF h(1)] nth_mem [OF n] by (cases "vals ! n") auto
    then have "\<not> Time_Before t (GetTimestamp (snd (the (vals ! n))))"
      using getHighValue_max(3) [OF h(1)] h(2) by fastforce
    then show ?thesis
      using n sn h getHighValue_nonzero [OF h(1)] exec_repair_set [OF sn, of t val]
      by (auto simp: reconcileString_def Value_Equal_iff simp del: Value_Equal.simps)
  qed
  then show ?thesis using h(3) by (simp add: reconcileString_def)
next
  fix t
  assume h: "getHighValue vals = Ret (Some hv)" "snd hv = Tombstone t"
    "instrs = reconcileTombstone key (fst hv) t (map the vals)"
  have "kv_data (run_all s (instrs ! n)) key = Some (snd hv)"
    if n: "n < length vals" and sn: "kv_data s key = Some (snd (the (vals ! n)))" for n s
  proof -
    obtain a v where v: "vals ! n = Some (a, v)" "Some (a, v) \<in> set vals"
      using getHighValue_max(1) [OF h(1)] nth_mem [OF n] by (cases "vals ! n") auto
    have "v = snd hv" if "a = fst hv"
      using assms(3) v getHighValue_max(2) [OF h(1)] that by (metis prod.collapse)
    then show ?thesis
      using n sn h v getHighValue_nonzero [OF h(1)] exec_repair_del [OF sn, of t]
      by (auto simp: reconcileTombstone_def)
  qed
  then show ?thesis using h(3) by (simp add: reconcileTombstone_def)
qed

definition ex_vals :: "vref option list" where
  "ex_vals = [Some (0, String ''x'' (ex_time 1)), Some (1, Tombstone (ex_time 2)),
    Some (2, String ''y'' (ex_time 1))]"

theorem reconcile_repairs_witness:
  "kv_data (run_all (SetRawKey NewKVStore ''k'' (String ''x'' (ex_time 1)))
     [NewInstruction DEL ''k'' [] (ex_time 2)]) ''k'' = Some (Tombstone (ex_time 2))"
proof -
  let ?i = "[NewInstruction DEL ''k'' [] (ex_time 2)]"
  have r: "Reconcile ''k'' ex_vals = Ret (Some (1, Tombstone (ex_time 2)), [?i, [], ?i])"
    by (simp add: Reconcile_def ex_vals_def getHighValue_def reconcileTombstone_def Time_After_def
        Time_Before_def zero_Time_def ex_time_def NewInstruction_def)
  have "1 < length ex_vals"
    and "\<forall>a v w. Some (a, v) \<in> set ex_vals \<and> Some (a, w) \<in> set ex_vals \<longrightarrow> v = w"
    by (auto simp: ex_vals_def)
  from reconcile_repairs [OF r this, THEN conjunct2, rule_format, of 0
      "SetRawKey NewKVStore ''k'' (String ''x'' (ex_time 1))"]
  show ?thesis by (simp add: SetRawKey_def ex_vals_def)
qed

end
