(* ===== verification/Execute.thy ===== *)
theory Execute
  imports ManagerInv ExecOrder KVStore
begin

text \<open>
  Execution of committed instances (\<^verbatim>\<open>consensus/manager_execute.go\<close>): building the
  dependency graph of an instance, ordering it by strongly connected components, and
  applying the instances to the store in that order.

  \<^verbatim>\<open>uuid_time\<close> is the timestamp that the uuid library reads from an identifier.
  \<open>iter\<close> is the order in which Go happens to iterate over the graph.  Fuel bounds the
  depth of \<^verbatim>\<open>addInstance\<close>; running out of it is \<^term>\<open>None\<close>.
\<close>

section \<open>The execution order\<close>

definition iid_Less :: "(bytes \<Rightarrow> int) \<Rightarrow> InstanceMap \<Rightarrow> InstanceID \<Rightarrow> InstanceID \<Rightarrow> bool" where
  "iid_Less uuid_time depMap x y =
     (let i0 = the (depMap x); i1 = the (depMap y);
          t0 = UUID_Time uuid_time (InstanceID i0); t1 = UUID_Time uuid_time (InstanceID i1)
      in if t0 \<noteq> t1 then t0 < t1
         else bytes_Compare (UUID_Bytes (InstanceID i0)) (UUID_Bytes (InstanceID i1)) = -1)"

record order_state =
  depMap :: InstanceMap
  depGraph :: "InstanceID graph"
  uncommittedSet :: InstanceIDSet
  requiredInstances :: InstanceIDSet

text \<open>The loop that decides whether an executed instance matters; a nil entry panics.\<close>

fun connected_loop ::
    "InstanceIDSet \<Rightarrow> order_state \<Rightarrow> InstanceID \<Rightarrow> InstanceID list \<Rightarrow> bool \<Rightarrow> bool outcome" where
  "connected_loop targetDepSet st iid [] conn = Ret conn"
| "connected_loop targetDepSet st iid (dep # deps) conn =
     (case depMap st dep of
        None \<Rightarrow> Panic ''nil pointer dereference''
      | Some i \<Rightarrow>
          let exists = map_of (depGraph st) dep \<noteq> None;
              notExecuted = getStatus i < INSTANCE_EXECUTED;
              targetDep = idset_Contains targetDepSet dep;
              required = idset_Contains (requiredInstances st) iid
          in connected_loop targetDepSet st iid deps
               (conn \<or> exists \<or> notExecuted \<or> targetDep \<or> required))"

text \<open>Recording an instance before its dependencies are visited.\<close>

definition add_node :: "Instance \<Rightarrow> order_state \<Rightarrow> order_state" where
  "add_node inst st =
     st\<lparr>uncommittedSet :=
          (if Status inst \<noteq> INSTANCE_EXECUTED \<and> Status inst < INSTANCE_COMMITTED
           then idset_Add (uncommittedSet st) [InstanceID inst] else uncommittedSet st),
        requiredInstances := idset_Combine (requiredInstances st) [StronglyConnected inst],
        depGraph := AList.update (InstanceID inst) (Dependencies inst) (depGraph st)\<rparr>"

fun addInstance ::
    "InstanceMap \<Rightarrow> InstanceIDSet \<Rightarrow> nat \<Rightarrow> Instance \<Rightarrow> order_state \<Rightarrow> order_state outcome option"
  and addDeps ::
    "InstanceMap \<Rightarrow> InstanceIDSet \<Rightarrow> nat \<Rightarrow> InstanceID list \<Rightarrow> order_state \<Rightarrow> order_state outcome option" where
  "addInstance insts targetDepSet 0 inst st = None"
| "addInstance insts targetDepSet (Suc n) inst st =
     (let deps = Dependencies inst;
          st = st\<lparr>depMap := imap_GetMap insts (depMap st) deps\<rparr>
      in if Status inst = INSTANCE_EXECUTED \<and> \<not> idset_Contains targetDepSet (InstanceID inst)
         then case connected_loop targetDepSet st (InstanceID inst) deps False of
             Ret True \<Rightarrow> addDeps insts targetDepSet n deps (add_node inst st)
           | Ret False \<Rightarrow> Some (Ret st)
           | Err e \<Rightarrow> Some (Err e)
           | Panic p \<Rightarrow> Some (Panic p)
         else addDeps insts targetDepSet n deps (add_node inst st))"
| "addDeps insts targetDepSet n [] st = Some (Ret st)"
| "addDeps insts targetDepSet n (iid # iids) st =
     (if map_of (depGraph st) iid \<noteq> None then addDeps insts targetDepSet n iids st
      else case depMap st iid of
          None \<Rightarrow> Some (Err (Errorf ''getExecutionOrder: Unknown instance id: %v''))
        | Some inst \<Rightarrow>
            (case addInstance insts targetDepSet n inst st of
               Some (Ret st) \<Rightarrow> addDeps insts targetDepSet n iids st
             | r \<Rightarrow> r))"

definition recordSCC :: "InstanceID list \<Rightarrow> InstanceID \<Rightarrow> ('s, 'v) Manager \<Rightarrow> ('s, 'v) Manager" where
  "recordSCC scc iid m =
     (case instances m iid of
        None \<Rightarrow> m
      | Some inst \<Rightarrow> put_instance m (inst\<lparr>StronglyConnected := NewInstanceIDSet scc\<rparr>))"

text \<open>Sorting each component; a nil entry in a component that is compared panics.\<close>

fun scc_loop ::
    "(bytes \<Rightarrow> int) \<Rightarrow> InstanceMap \<Rightarrow> bool \<Rightarrow> InstanceID list list \<Rightarrow> ('s, 'v) Manager \<Rightarrow>
     InstanceID list \<Rightarrow> ('s, 'v) Manager \<times> InstanceID list outcome" where
  "scc_loop uuid_time dmap hasUncommitted [] m exOrder = (m, Ret exOrder)"
| "scc_loop uuid_time dmap hasUncommitted (scc # sccs) m exOrder =
     (if length scc > 1 \<and> list_ex (\<lambda>iid. dmap iid = None) scc
      then (m, Panic ''nil pointer dereference'')
      else
        let scc = sort_Sort (iid_Less uuid_time dmap) scc;
            exOrder = exOrder @ scc;
            m = (if length scc > 1 \<and> \<not> hasUncommitted then fold (recordSCC scc) scc m else m)
        in scc_loop uuid_time dmap hasUncommitted sccs m exOrder)"

definition getExecutionOrder ::
    "(bytes \<Rightarrow> int) \<Rightarrow> (InstanceID graph \<Rightarrow> InstanceID graph) \<Rightarrow> nat \<Rightarrow> ('s, 'v) Manager \<Rightarrow> Instance \<Rightarrow>
     (('s, 'v) Manager \<times> (InstanceID list \<times> InstanceID list) outcome) option" where
  "getExecutionOrder uuid_time iter fuel m instance =
     (let targetDeps = getDependencies instance;
          targetDepSet = NewInstanceIDSet targetDeps;
          st = \<lparr>depMap = imap_GetMap (instances m) Map.empty targetDeps, depGraph = [],
                uncommittedSet = NewInstanceIDSet [], requiredInstances = NewInstanceIDSet []\<rparr>
      in case addInstance (instances m) targetDepSet fuel instance st of
           None \<Rightarrow> None
         | Some (Err e) \<Rightarrow> Some (m, Err e)
         | Some (Panic p) \<Rightarrow> Some (m, Panic p)
         | Some (Ret st) \<Rightarrow>
             (case tarjanConnect (iter (depGraph st)) of
                None \<Rightarrow> None
              | Some tSorted \<Rightarrow>
                  (case scc_loop uuid_time (depMap st) (idset_Size (uncommittedSet st) > 0) tSorted m [] of
                     (m, Ret exOrder) \<Rightarrow>
                       if list_ex (\<lambda>iid. depMap st iid = None \<and> imap_Get (instances m) iid = None) exOrder
                       then Some (m, Err (Errorf ''getExecutionOrder: Unknown instance id: %v''))
                       else Some (m, Ret (exOrder, idset_List (uncommittedSet st)))
                   | (m, Err e) \<Rightarrow> Some (m, Err e)
                   | (m, Panic p) \<Rightarrow> Some (m, Panic p))))"

section \<open>Applying instances\<close>

definition notify :: "Instance \<Rightarrow> 'v option \<Rightarrow> ('s, 'v) Manager \<Rightarrow> ('s, 'v) Manager" where
  "notify instance val m =
     m\<lparr>delivered := fold (\<lambda>listener log. log @ [(listener, val)]) (ResultListeners instance) (delivered m)\<rparr>"

definition applyInstance ::
    "('s, 'v) Store \<Rightarrow> ('s, 'v) Manager \<Rightarrow> Instance \<Rightarrow> ('s, 'v) Manager \<times> 'v option outcome" where
  "applyInstance S m instance =
     (if Status instance = INSTANCE_EXECUTED then (m, Ret None)
      else if Status instance \<noteq> INSTANCE_COMMITTED then (m, Err (Errorf ''instance not committed''))
      else
        case (if \<not> Noop instance then st_ExecuteInstruction S (store m) (Command instance)
              else (store m, Ret None)) of
          (s, Err e) \<Rightarrow> (m\<lparr>store := s\<rparr>, Err e)
        | (s, Panic p) \<Rightarrow> (m\<lparr>store := s\<rparr>, Panic p)
        | (s, Ret val) \<Rightarrow>
            let m = m\<lparr>store := s\<rparr>;
                instance = instance\<lparr>Status := INSTANCE_EXECUTED\<rparr>;
                m = put_instance m instance;
                m = m\<lparr>executed := executed m @ [InstanceID instance]\<rparr>
            in case mgr_ReportExecuted S m instance of
                 (m, Some err) \<Rightarrow> (m, Err err)
               | (m, None) \<Rightarrow> (notify instance val m, Ret val))"

text \<open>
  The loop skips an executed instance with \<^verbatim>\<open>continue\<close>, before it looks whether the
  target has been reached.
\<close>

fun executeDependencyChain ::
    "('s, 'v) Store \<Rightarrow> ('s, 'v) Manager \<Rightarrow> InstanceID list \<Rightarrow> InstanceID \<Rightarrow>
     ('s, 'v) Manager \<times> unit outcome" where
  "executeDependencyChain S m [] target = (m, Ret ())"
| "executeDependencyChain S m (iid # iids) target =
     (case instances m iid of
        None \<Rightarrow> (m, Panic ''nil pointer dereference'')
      | Some instance \<Rightarrow>
          if getStatus instance = INSTANCE_COMMITTED then
            (case applyInstance S m instance of
               (m, Err e) \<Rightarrow> (m, Err e)
             | (m, Panic p) \<Rightarrow> (m, Panic p)
             | (m, Ret _) \<Rightarrow>
                 if InstanceID instance = target then (m, Ret ())
                 else executeDependencyChain S m iids target)
          else if getStatus instance = INSTANCE_EXECUTED then executeDependencyChain S m iids target
          else (m, Err (Errorf ''Uncommitted dependencies should be handled before calling executeDependencyChain'')))"

section \<open>The graph that addInstance builds\<close>

definition ids_ok :: "InstanceMap \<Rightarrow> bool" where
  "ids_ok insts \<longleftrightarrow> (\<forall>k i. insts k = Some i \<longrightarrow> InstanceID i = k)"

abbreviation in_graph :: "order_state \<Rightarrow> InstanceID \<Rightarrow> bool" where
  "in_graph st k \<equiv> map_of (depGraph st) k \<noteq> None"

definition ord_inv :: "InstanceMap \<Rightarrow> order_state \<Rightarrow> bool" where
  "ord_inv insts st \<longleftrightarrow>
     depMap st \<subseteq>\<^sub>m insts \<and> distinct (map fst (depGraph st)) \<and>
     (\<forall>k ds. map_of (depGraph st) k = Some ds \<longrightarrow>
        (\<exists>i. insts k = Some i \<and> ds = Dependencies i) \<and> (\<forall>d \<in> set ds. depMap st d = insts d)) \<and>
     set (uncommittedSet st) =
       {k. in_graph st k \<and> (\<exists>i. insts k = Some i \<and> Status i < INSTANCE_COMMITTED)}"

definition ord_le :: "order_state \<Rightarrow> order_state \<Rightarrow> bool" where
  "ord_le st st' \<longleftrightarrow> depMap st \<subseteq>\<^sub>m depMap st' \<and> map_of (depGraph st) \<subseteq>\<^sub>m map_of (depGraph st')"

text \<open>A dependency is settled when it is in the graph or was left out as executed.\<close>

definition settled :: "InstanceMap \<Rightarrow> InstanceIDSet \<Rightarrow> order_state \<Rightarrow> InstanceID \<Rightarrow> bool" where
  "settled insts tds st d \<longleftrightarrow>
     in_graph st d \<or> (\<exists>i. insts d = Some i \<and> Status i = INSTANCE_EXECUTED \<and> d \<notin> set tds)"

definition closed_new :: "InstanceMap \<Rightarrow> InstanceIDSet \<Rightarrow> order_state \<Rightarrow> order_state \<Rightarrow> bool" where
  "closed_new insts tds st st' \<longleftrightarrow>
     (\<forall>k ds. map_of (depGraph st') k = Some ds \<longrightarrow> \<not> in_graph st k \<longrightarrow>
        (\<forall>d \<in> set ds. settled insts tds st' d))"

definition pending :: "InstanceMap \<Rightarrow> order_state \<Rightarrow> InstanceID set" where
  "pending insts st = {k \<in> dom insts. \<not> in_graph st k}"

lemma ord_invD:
  assumes "ord_inv insts st"
  shows "depMap st \<subseteq>\<^sub>m insts" and "distinct (map fst (depGraph st))"
    and "map_of (depGraph st) k = Some ds \<Longrightarrow> \<exists>i. insts k = Some i \<and> ds = Dependencies i"
    and "map_of (depGraph st) k = Some ds \<Longrightarrow> d \<in> set ds \<Longrightarrow> depMap st d = insts d"
    and "set (uncommittedSet st) =
       {k. in_graph st k \<and> (\<exists>i. insts k = Some i \<and> Status i < INSTANCE_COMMITTED)}"
  using assms unfolding ord_inv_def by blast+

lemma ord_le_refl [simp]: "ord_le st st"
  by (simp add: ord_le_def)

lemma ord_le_trans: "ord_le st st' \<Longrightarrow> ord_le st' st'' \<Longrightarrow> ord_le st st''"
  unfolding ord_le_def by (meson map_le_trans)

lemma ord_le_graph: "ord_le st st' \<Longrightarrow> map_of (depGraph st) k = Some ds \<Longrightarrow> map_of (depGraph st') k = Some ds"
  unfolding ord_le_def map_le_def by (metis domI)

lemma ord_le_in_graph: "ord_le st st' \<Longrightarrow> in_graph st k \<Longrightarrow> in_graph st' k"
  using ord_le_graph by blast

lemma settled_mono: "ord_le st st' \<Longrightarrow> settled insts tds st d \<Longrightarrow> settled insts tds st' d"
  unfolding settled_def using ord_le_in_graph by blast

lemma closed_new_refl [simp]: "closed_new insts tds st st"
  by (simp add: closed_new_def)

lemma closed_new_trans:
  assumes "closed_new insts tds st st'" and "closed_new insts tds st' st''" and "ord_le st' st''"
  shows "closed_new insts tds st st''"
  unfolding closed_new_def
proof (intro allI impI ballI)
  fix k ds d assume k: "map_of (depGraph st'') k = Some ds" "\<not> in_graph st k" "d \<in> set ds"
  show "settled insts tds st'' d"
  proof (cases "map_of (depGraph st') k")
    case None
    then show ?thesis using assms(2) k unfolding closed_new_def by blast
  next
    case (Some ds')
    then have "ds' = ds" using ord_le_graph [OF assms(3)] k(1) by fastforce
    then have "settled insts tds st' d" using assms(1) Some k unfolding closed_new_def by blast
    then show ?thesis by (rule settled_mono [OF assms(3)])
  qed
qed

lemma pending_mono:
  "finite (dom insts) \<Longrightarrow> ord_le st st' \<Longrightarrow> card (pending insts st') \<le> card (pending insts st)"
  by (rule card_mono) (auto simp: pending_def dest: ord_le_in_graph)

text \<open>Fetching the dependencies and recording the instance.\<close>

lemma fetch_inv:
  assumes "ord_inv insts st"
  shows "ord_inv insts (st\<lparr>depMap := imap_GetMap insts (depMap st) deps\<rparr>)"
    and "ord_le st (st\<lparr>depMap := imap_GetMap insts (depMap st) deps\<rparr>)"
proof -
  have le: "depMap st x = Some i \<Longrightarrow> insts x = Some i" for x i
    using ord_invD(1) [OF assms] by (metis domI map_le_def)
  have "imap_GetMap insts (depMap st) deps \<subseteq>\<^sub>m insts" "depMap st \<subseteq>\<^sub>m imap_GetMap insts (depMap st) deps"
    using le by (auto simp: map_le_def imap_GetMap_apply split: if_splits)
  then show "ord_inv insts (st\<lparr>depMap := imap_GetMap insts (depMap st) deps\<rparr>)"
    and "ord_le st (st\<lparr>depMap := imap_GetMap insts (depMap st) deps\<rparr>)"
    using assms by (auto simp: ord_inv_def ord_le_def imap_GetMap_apply)
qed

lemma add_node_fields [simp]:
  "depMap (add_node inst st) = depMap st"
  "map_of (depGraph (add_node inst st)) = (map_of (depGraph st))(InstanceID inst \<mapsto> Dependencies inst)"
  "distinct (map fst (depGraph st)) \<Longrightarrow> distinct (map fst (depGraph (add_node inst st)))"
  by (simp_all add: add_node_def update_conv' distinct_update)

lemma add_node_inv:
  assumes inv: "ord_inv insts st" and i: "insts (InstanceID inst) = Some inst"
    and fetched: "\<forall>d \<in> set (Dependencies inst). depMap st d = insts d" and new: "\<not> in_graph st (InstanceID inst)"
  shows "ord_inv insts (add_node inst st)" and "ord_le st (add_node inst st)"
proof -
  have "set (uncommittedSet (add_node inst st)) =
      {k. in_graph (add_node inst st) k \<and> (\<exists>i. insts k = Some i \<and> Status i < INSTANCE_COMMITTED)}"
  proof -
    have "Status inst < INSTANCE_COMMITTED \<Longrightarrow> Status inst \<noteq> INSTANCE_EXECUTED"
      by (auto simp: status_defs)
    then have "set (uncommittedSet (add_node inst st)) =
        set (uncommittedSet st) \<union> {k. k = InstanceID inst \<and> Status inst < INSTANCE_COMMITTED}"
      by (auto simp: add_node_def)
    then show ?thesis using ord_invD(5) [OF inv] i by auto
  qed
  then show "ord_inv insts (add_node inst st)"
    using inv i fetched add_node_fields(3) unfolding ord_inv_def by auto
  show "ord_le st (add_node inst st)"
    using new by (auto simp: ord_le_def map_le_def)
qed

lemma pending_add_node:
  assumes "finite (dom insts)" and "insts (InstanceID inst) = Some inst" and "\<not> in_graph st (InstanceID inst)"
  shows "card (pending insts (add_node inst st)) < card (pending insts st)"
  using assms by (intro psubset_card_mono) (auto simp: pending_def)

text \<open>
  With fuel for every instance that is not in the graph yet, \<^verbatim>\<open>addInstance\<close> returns, and
  if it does so without an error the instance is settled and every dependency of the
  instances that were added is settled.  Errors and panics come from unknown dependencies only.
\<close>

definition deps_known :: "InstanceMap \<Rightarrow> bool" where
  "deps_known insts \<longleftrightarrow> (\<forall>k i. insts k = Some i \<longrightarrow> (\<forall>d \<in> set (Dependencies i). insts d \<noteq> None))"

lemma connected_loop_Ret:
  "\<forall>d \<in> set deps. depMap st d \<noteq> None \<Longrightarrow> \<exists>b. connected_loop tds st iid deps conn = Ret b"
  by (induction deps arbitrary: conn) (auto simp: Let_def)

definition add_ok ::
    "InstanceMap \<Rightarrow> InstanceIDSet \<Rightarrow> InstanceID set \<Rightarrow> order_state \<Rightarrow> order_state outcome option \<Rightarrow> bool" where
  "add_ok insts tds D st r \<longleftrightarrow>
     (case r of
        None \<Rightarrow> False
      | Some (Ret st') \<Rightarrow> ord_inv insts st' \<and> ord_le st st' \<and> (\<forall>d \<in> D. settled insts tds st' d) \<and>
          closed_new insts tds st st'
      | Some _ \<Rightarrow> \<not> deps_known insts)"

lemma add_ok_Ret: "add_ok insts tds D st (Some (Ret st')) \<longleftrightarrow>
    ord_inv insts st' \<and> ord_le st st' \<and> (\<forall>d \<in> D. settled insts tds st' d) \<and> closed_new insts tds st st'"
  by (simp add: add_ok_def)

lemma add_ok_node:
  assumes "ord_le st0 st" and "depGraph st = depGraph st0" and "ord_le st (add_node inst st)"
    and "add_ok insts tds (set (Dependencies inst)) (add_node inst st) r"
  shows "add_ok insts tds {InstanceID inst} st0 r"
proof (cases r)
  case (Some out)
  show ?thesis
  proof (cases out)
    case (Ret st')
    with assms(4) Some have st': "ord_inv insts st'" "ord_le (add_node inst st) st'"
      "\<forall>d \<in> set (Dependencies inst). settled insts tds st' d" "closed_new insts tds (add_node inst st) st'"
      by (simp_all add: add_ok_Ret)
    have k: "map_of (depGraph st') (InstanceID inst) = Some (Dependencies inst)"
      by (rule ord_le_graph [OF st'(2)]) simp
    have "closed_new insts tds st0 st'"
      unfolding closed_new_def
    proof (intro allI impI ballI)
      fix k' ds d
      assume k': "map_of (depGraph st') k' = Some ds" "\<not> in_graph st0 k'" "d \<in> set ds"
      show "settled insts tds st' d"
      proof (cases "k' = InstanceID inst")
        case True
        then show ?thesis using k k' st'(3) by simp
      next
        case False
        then have "\<not> in_graph (add_node inst st) k'" using k'(2) assms(2) by simp
        then show ?thesis using st'(4) k' unfolding closed_new_def by blast
      qed
    qed
    moreover have "ord_le st0 st'" using assms(1,3) st'(2) ord_le_trans by blast
    moreover have "settled insts tds st' (InstanceID inst)" using k by (simp add: settled_def)
    ultimately show ?thesis using Some Ret st'(1) by (simp add: add_ok_Ret)
  qed (use Some assms(4) in \<open>simp_all add: add_ok_def\<close>)
qed (use assms(4) in \<open>simp add: add_ok_def\<close>)

lemma add_ok_insert:
  assumes "add_ok insts tds D st r" and "settled insts tds st d"
  shows "add_ok insts tds (insert d D) st r"
  using assms settled_mono by (auto simp: add_ok_def split: option.splits outcome.splits)

lemma add_ok_trans:
  assumes "ord_le st st1" and "closed_new insts tds st st1" and "add_ok insts tds D st1 r"
  shows "add_ok insts tds D st r"
  using assms ord_le_trans closed_new_trans
  by (auto simp: add_ok_def split: option.splits outcome.splits)

lemma fetched_mono:
  assumes "ord_le st st1" and "ord_inv insts st1" and "depMap st d = insts d"
  shows "depMap st1 d = insts d"
proof (cases "insts d")
  case None
  then show ?thesis using ord_invD(1) [OF assms(2)] by (metis domI map_le_def not_None_eq)
next
  case (Some i)
  then show ?thesis using assms(1,3) unfolding ord_le_def map_le_def by (metis domI)
qed

lemma addInstance_ok:
  "ids_ok insts \<Longrightarrow> finite (dom insts) \<Longrightarrow> ord_inv insts st \<Longrightarrow> insts (InstanceID inst) = Some inst \<Longrightarrow>
     \<not> in_graph st (InstanceID inst) \<Longrightarrow> card (pending insts st) \<le> n \<Longrightarrow>
     add_ok insts tds {InstanceID inst} st (addInstance insts tds n inst st)"
  and addDeps_ok:
  "ids_ok insts \<Longrightarrow> finite (dom insts) \<Longrightarrow> ord_inv insts st \<Longrightarrow>
     \<forall>d \<in> set iids. depMap st d = insts d \<and> (deps_known insts \<longrightarrow> insts d \<noteq> None) \<Longrightarrow>
     card (pending insts st) \<le> n \<Longrightarrow> add_ok insts tds (set iids) st (addDeps insts tds n iids st)"
proof (induction insts tds n inst st and insts tds n iids st rule: addInstance_addDeps.induct)
  case (1 insts tds inst st)
  then have "pending insts st = {}" using finite_subset [of "pending insts st" "dom insts"]
    by (auto simp: pending_def)
  with 1 show ?case by (auto simp: pending_def)
next
  case (2 insts tds n inst st)
  let ?st = "st\<lparr>depMap := imap_GetMap insts (depMap st) (Dependencies inst)\<rparr>"
  note f = fetch_inv [OF "2.prems"(3), of "Dependencies inst"]
  have fetched: "\<forall>d \<in> set (Dependencies inst). depMap ?st d = insts d" by (simp add: imap_GetMap_apply)
  have known: "deps_known insts \<Longrightarrow> \<forall>d \<in> set (Dependencies inst). insts d \<noteq> None"
    using "2.prems"(4) unfolding deps_known_def by blast
  have new: "\<not> in_graph ?st (InstanceID inst)" using "2.prems"(5) by simp
  note a = add_node_inv [OF f(1) "2.prems"(4) fetched new]
  have fuel: "card (pending insts (add_node inst ?st)) \<le> n"
    using pending_add_node [OF "2.prems"(2,4) new] "2.prems"(6) by (simp add: pending_def)
  have go: "add_ok insts tds {InstanceID inst} st (addDeps insts tds n (Dependencies inst) (add_node inst ?st))"
    if "add_ok insts tds (set (Dependencies inst)) (add_node inst ?st)
        (addDeps insts tds n (Dependencies inst) (add_node inst ?st))"
    by (rule add_ok_node [OF f(2) _ a(2) that]) simp
  show ?case
  proof (cases "Status inst = INSTANCE_EXECUTED \<and> \<not> idset_Contains tds (InstanceID inst)")
    case True
    then have skip: "add_ok insts tds {InstanceID inst} st (Some (Ret ?st))"
      using f "2.prems"(4) by (auto simp: add_ok_Ret settled_def closed_new_def)
    show ?thesis
    proof (cases "connected_loop tds ?st (InstanceID inst) (Dependencies inst) False")
      case (Ret c)
      then show ?thesis
        using True skip go "2.IH"(1) [OF refl refl True Ret] "2.prems"(1,2) a(1) fuel fetched known
        by (cases c) (simp_all add: Let_def)
    qed (use True connected_loop_Ret [of "Dependencies inst" ?st tds "InstanceID inst" False] fetched known
        in \<open>auto simp: Let_def add_ok_def\<close>)
  next
    case False
    then have "addInstance insts tds (Suc n) inst st = addDeps insts tds n (Dependencies inst) (add_node inst ?st)"
      by (auto simp: Let_def)
    then show ?thesis
      using go "2.IH"(2) [OF refl refl False] "2.prems"(1,2) a(1) fuel fetched known by simp
  qed
next
  case (3 insts tds n st)
  then show ?case by (simp add: add_ok_Ret)
next
  case (4 insts tds n iid iids st)
  show ?case
  proof (cases "in_graph st iid")
    case True
    then have "add_ok insts tds (set iids) st (addDeps insts tds n iids st)"
      using "4.IH"(1) "4.prems" by simp
    then show ?thesis using True add_ok_insert [of insts tds "set iids" st _ iid] by (simp add: settled_def)
  next
    case new: False
    show ?thesis
    proof (cases "depMap st iid")
      case None
      then show ?thesis using new "4.prems"(4) by (auto simp: add_ok_def)
    next
      case (Some inst)
      have i: "insts iid = Some inst" using Some "4.prems"(4) by simp
      then have iid: "InstanceID inst = iid" using "4.prems"(1) by (simp add: ids_ok_def)
      have add: "add_ok insts tds {iid} st (addInstance insts tds n inst st)"
        using "4.IH"(2) [OF _ Some] new i iid "4.prems" by simp
      show ?thesis
      proof (cases "addInstance insts tds n inst st")
        case (Some r)
        show ?thesis
        proof (cases r)
          case (Ret st1)
          have st1: "ord_inv insts st1" "ord_le st st1" "settled insts tds st1 iid" "closed_new insts tds st st1"
            using add Some Ret by (simp_all add: add_ok_Ret)
          have "add_ok insts tds (set iids) st1 (addDeps insts tds n iids st1)"
            using "4.IH"(3) [OF _ \<open>depMap st iid = Some inst\<close> Some Ret] new "4.prems" st1
              fetched_mono [OF st1(2,1)] pending_mono [OF "4.prems"(2) st1(2)] by simp
          then show ?thesis
            using add_ok_trans [OF st1(2,4)] add_ok_insert [OF _ st1(3)] new Some Ret
              \<open>depMap st iid = Some inst\<close> by simp
        qed (use new Some add \<open>depMap st iid = Some inst\<close> in \<open>simp_all add: add_ok_def\<close>)
      qed (use add in \<open>simp add: add_ok_def\<close>)
    qed
  qed
qed

section \<open>Components and their order\<close>

definition uuid_less :: "(bytes \<Rightarrow> int) \<Rightarrow> UUID \<Rightarrow> UUID \<Rightarrow> bool" where
  "uuid_less uuid_time a b \<longleftrightarrow>
     (if UUID_Time uuid_time a \<noteq> UUID_Time uuid_time b then UUID_Time uuid_time a < UUID_Time uuid_time b
      else bytes_Compare (UUID_Bytes a) (UUID_Bytes b) = -1)"

interpretation iid_sorter: sort_total "uuid_less uuid_time" UNIV for uuid_time
proof
  fix x y z :: UUID
  show "uuid_less uuid_time x y \<Longrightarrow> \<not> uuid_less uuid_time y x"
    using bytes_Compare_neg [of "UUID_Bytes x" "UUID_Bytes y"]
    by (auto simp: uuid_less_def split: if_splits)
  show "uuid_less uuid_time x z \<Longrightarrow> uuid_less uuid_time x y \<or> uuid_less uuid_time y z"
    using bytes_Compare_weak [of "UUID_Bytes x" "UUID_Bytes z" "UUID_Bytes y"]
    by (auto simp: uuid_less_def split: if_splits)
  show "x \<noteq> y \<Longrightarrow> uuid_less uuid_time x y \<or> uuid_less uuid_time y x"
    using bytes_Compare_range [of "UUID_Bytes x" "UUID_Bytes y"]
      bytes_Compare_neg [of "UUID_Bytes x" "UUID_Bytes y"] bytes_Compare_eq [of "UUID_Bytes x" "UUID_Bytes y"]
    by (auto simp: uuid_less_def UUID_Bytes_def MarshalBinary_inject split: if_splits)
qed

lemma insert_by_cong:
  "\<forall>y \<in> set xs. f y x = g y x \<Longrightarrow> insert_by f x xs = insert_by g x xs"
  by (induction xs) auto

lemma sort_Sort_lt_cong:
  "\<forall>x \<in> set xs. \<forall>y \<in> set xs. f x y = g x y \<Longrightarrow> sort_Sort f xs = sort_Sort g xs"
proof (induction xs)
  case (Cons x xs)
  then have "sort_Sort f xs = sort_Sort g xs" by simp
  moreover have "insert_by f x (sort_Sort g xs) = insert_by g x (sort_Sort g xs)"
    by (rule insert_by_cong) (use Cons.prems in simp)
  ultimately show ?case by (simp add: sort_Sort_def)
qed (simp add: sort_Sort_def)

lemma sort_Sort_short: "length xs \<le> 1 \<Longrightarrow> sort_Sort lt xs = xs"
  by (cases xs) (auto simp: sort_Sort_def)

lemma recordSCC_quiet: "mgr_inv m \<Longrightarrow> quiet m (recordSCC scc iid m)"
proof (cases "instances m iid")
  case (Some i)
  assume "mgr_inv m"
  then have "InstanceID i = iid" using Some mgr_invD(1) by blast
  then show ?thesis
    using Some quiet_advance [of m i "i\<lparr>StronglyConnected := NewInstanceIDSet scc\<rparr>"]
    by (auto simp: recordSCC_def advances_def instance_le_def)
qed (simp add: recordSCC_def)

lemma fold_recordSCC_quiet: "mgr_inv m \<Longrightarrow> quiet m (fold (recordSCC scc) iids m)"
proof (induction iids arbitrary: m)
  case (Cons iid iids)
  note q = recordSCC_quiet [OF Cons.prems, of scc iid]
  from quiet_trans [OF q Cons.IH [OF quietD(1) [OF q Cons.prems]]] show ?case by simp
qed simp

text \<open>Components of which every compared member is known are sorted and appended.\<close>

lemma scc_loop_ok:
  assumes "mgr_inv m" and "\<forall>scc \<in> set sccs. length scc > 1 \<longrightarrow> (\<forall>x \<in> set scc. \<exists>i. dmap x = Some i \<and> InstanceID i = x)"
  shows "\<exists>m'. scc_loop uuid_time dmap unc sccs m exOrder = (m', Ret (exOrder @ exec_order (uuid_less uuid_time) sccs)) \<and>
    quiet m m'"
  using assms
proof (induction sccs arbitrary: m exOrder)
  case Nil
  then show ?case by (simp add: exec_order_def)
next
  case (Cons scc sccs)
  have known: "\<forall>x \<in> set scc. \<exists>i. dmap x = Some i \<and> InstanceID i = x" if "length scc > 1"
    using Cons.prems(2) that by simp
  have sort: "sort_Sort (iid_Less uuid_time dmap) scc = sort_Sort (uuid_less uuid_time) scc"
  proof (cases "length scc > 1")
    case True
    have "InstanceID (the (dmap x)) = x" if "x \<in> set scc" for x
      using known [OF True] that by force
    then have "\<forall>x \<in> set scc. \<forall>y \<in> set scc. iid_Less uuid_time dmap x y = uuid_less uuid_time x y"
      by (simp add: iid_Less_def uuid_less_def Let_def)
    then show ?thesis by (rule sort_Sort_lt_cong)
  qed (simp add: sort_Sort_short)
  let ?scc = "sort_Sort (uuid_less uuid_time) scc"
  let ?m = "if length ?scc > 1 \<and> \<not> unc then fold (recordSCC ?scc) ?scc m else m"
  have q: "quiet m ?m" using fold_recordSCC_quiet [OF Cons.prems(1)] by simp
  from Cons.IH [OF quietD(1) [OF q Cons.prems(1)], of "exOrder @ ?scc"] Cons.prems(2) obtain m' where
    m': "scc_loop uuid_time dmap unc sccs ?m (exOrder @ ?scc) =
      (m', Ret ((exOrder @ ?scc) @ exec_order (uuid_less uuid_time) sccs))" "quiet ?m m'"
    by (metis list.set_intros(2))
  have "\<not> (length scc > 1 \<and> list_ex (\<lambda>iid. dmap iid = None) scc)"
    using known by (auto simp: list_ex_iff)
  then have "scc_loop uuid_time dmap unc (scc # sccs) m exOrder = scc_loop uuid_time dmap unc sccs ?m (exOrder @ ?scc)"
    by (simp only: scc_loop.simps if_False Let_def sort)
  then show ?case using m' quiet_trans [OF q m'(2)] by (simp add: exec_order_def)
qed

section \<open>The execution order of an instance\<close>

text \<open>An iteration visits every entry of the map once.\<close>

definition iter_ok :: "('k \<times> 'a) list \<Rightarrow> ('k \<times> 'a) list \<Rightarrow> bool" where
  "iter_ok g g' \<longleftrightarrow> (distinct (map fst g) \<longrightarrow> set g' = set g \<and> distinct (map fst g'))"

lemma iter_map_of:
  assumes "distinct (map fst g)" and "iter_ok g g'"
  shows "map_of g' = map_of g"
proof
  fix k
  show "map_of g' k = map_of g k"
  proof (cases "map_of g k")
    case None
    then have "map_of g' k = None" using assms by (simp add: map_of_eq_None_iff iter_ok_def)
    then show ?thesis using None by simp
  next
    case (Some v)
    then have "(k, v) \<in> set g'" using assms map_of_SomeD by (fastforce simp: iter_ok_def)
    then show ?thesis using assms Some by (auto simp: iter_ok_def)
  qed
qed

lemma edge_cong: "map_of g' = map_of g \<Longrightarrow> edge g' = edge g"
  by (simp add: edge_def v_out_def fun_eq_iff)

lemma components_ok_cong: "map_of g' = map_of g \<Longrightarrow> components_ok g' cs = components_ok g cs"
  by (simp add: components_ok_def edge_cong [of g' g])

text \<open>Every member of a component with several members is the target of an edge.\<close>

lemma component_edge:
  assumes "components_ok g cs" and "c \<in> set cs" and "length c > 1" and "x \<in> set c"
  shows "\<exists>z. edge g z x"
proof -
  have "distinct c"
    using assms(1,2) by (metis components_ok_def distinct_concat_iff)
  then have "\<not> set c \<subseteq> {x}"
    using assms(3) card_mono [of "{x}" "set c"] by (auto simp: distinct_card)
  then obtain y where y: "y \<in> set c" "y \<noteq> x" by blast
  then have "reach g y x" using assms(1,2,4) unfolding components_ok_def by blast
  then show ?thesis using y(2) by (metis rtranclp.cases)
qed

text \<open>
  What the order is made of: a graph of known instances with their dependencies, from which
  only executed instances are left out, and its components in the order of execution.
\<close>

definition order_spec ::
    "(bytes \<Rightarrow> int) \<Rightarrow> InstanceMap \<Rightarrow> Instance \<Rightarrow> InstanceID graph \<Rightarrow> InstanceID list list \<Rightarrow> InstanceID list \<Rightarrow>
     InstanceID list \<Rightarrow> bool" where
  "order_spec uuid_time insts target g cs exOrder unc \<longleftrightarrow>
     components_ok g cs \<and> set (concat cs) = fst ` set g \<and>
     exOrder = exec_order (uuid_less uuid_time) cs \<and>
     (\<forall>k ds. map_of g k = Some ds \<longrightarrow> (\<exists>i. insts k = Some i \<and> ds = Dependencies i) \<and>
        (\<forall>d \<in> set ds. d \<in> fst ` set g \<or>
           (\<exists>i. insts d = Some i \<and> Status i = INSTANCE_EXECUTED \<and> d \<notin> set (Dependencies target)))) \<and>
     (Status target \<noteq> INSTANCE_EXECUTED \<longrightarrow> InstanceID target \<in> fst ` set g) \<and>
     set unc = {k \<in> fst ` set g. \<exists>i. insts k = Some i \<and> Status i < INSTANCE_COMMITTED}"

definition initial_state :: "InstanceMap \<Rightarrow> Instance \<Rightarrow> order_state" where
  "initial_state insts target =
     \<lparr>depMap = imap_GetMap insts Map.empty (Dependencies target), depGraph = [],
      uncommittedSet = NewInstanceIDSet [], requiredInstances = NewInstanceIDSet []\<rparr>"

lemma getExecutionOrder_ok:
  assumes inv: "mgr_inv m" and target: "instances m (InstanceID target) = Some target"
    and iter: "\<forall>g. iter_ok g (iter g)" and fuel: "card (dom (instances m)) \<le> fuel"
  shows "\<exists>m' r. getExecutionOrder uuid_time iter fuel m target = Some (m', r) \<and> quiet m m' \<and>
    (case r of
       Ret (exOrder, unc) \<Rightarrow>
         (\<exists>st cs. addInstance (instances m) (NewInstanceIDSet (Dependencies target)) fuel target
              (initial_state (instances m) target) = Some (Ret st) \<and>
            order_spec uuid_time (instances m) target (depGraph st) cs exOrder unc)
     | _ \<Rightarrow> \<not> deps_known (instances m))"
proof -
  let ?insts = "instances m" and ?tds = "NewInstanceIDSet (Dependencies target)"
  let ?st = "initial_state ?insts target"
  have inv0: "ord_inv ?insts ?st"
    by (auto simp: initial_state_def ord_inv_def map_le_def imap_GetMap_apply split: if_splits)
  have "ids_ok ?insts" using mgr_invD(1) [OF inv] by (simp add: ids_ok_def)
  from addInstance_ok [OF this mgr_invD(6) [OF inv] inv0 target, of fuel ?tds]
  have add: "add_ok ?insts ?tds {InstanceID target} ?st (addInstance ?insts ?tds fuel target ?st)"
    using fuel by (simp add: pending_def initial_state_def)
  then obtain r where r: "addInstance ?insts ?tds fuel target ?st = Some r" by (auto simp: add_ok_def split: option.splits)
  show ?thesis
  proof (cases r)
    case (Ret st)
    let ?g = "depGraph st"
    have st: "ord_inv ?insts st" "settled ?insts ?tds st (InstanceID target)" "closed_new ?insts ?tds ?st st"
      using add r Ret by (simp_all add: add_ok_Ret)
    note mo = iter_map_of [OF ord_invD(2) [OF st(1)] spec [OF iter]]
    obtain cs where cs: "tarjanConnect (iter ?g) = Some cs" "set (concat cs) = fst ` set ?g" "components_ok ?g cs"
      using tarjanConnect_ok [of "iter ?g"] iter components_ok_cong [OF mo] ord_invD(2) [OF st(1)]
      by (auto simp: iter_ok_def)
    have "\<exists>i. depMap st x = Some i \<and> InstanceID i = x" if c: "c \<in> set cs" "length c > 1" "x \<in> set c" for c x
    proof -
      obtain z where "edge ?g z x" using component_edge [OF cs(3) c] by blast
      then obtain ds where "map_of ?g z = Some ds" "x \<in> set ds" "in_graph st x"
        by (cases "map_of ?g z") (auto simp: edge_def v_out_def)
      then have "depMap st x = ?insts x" "\<exists>i. ?insts x = Some i"
        using ord_invD(3,4) [OF st(1)] by blast+
      then show ?thesis using mgr_invD(1) [OF inv] by auto
    qed
    then obtain m' where m': "scc_loop uuid_time (depMap st) (idset_Size (uncommittedSet st) > 0) cs m [] =
        (m', Ret (exec_order (uuid_less uuid_time) cs))" "quiet m m'"
      using scc_loop_ok [OF inv, of cs "depMap st" uuid_time "idset_Size (uncommittedSet st) > 0" "[]"]
      by auto
    have "order_spec uuid_time ?insts target ?g cs (exec_order (uuid_less uuid_time) cs) (uncommittedSet st)"
    proof -
      have keys: "in_graph st k \<longleftrightarrow> k \<in> fst ` set ?g" for k by (simp add: map_of_eq_None_iff)
      have "Status target \<noteq> INSTANCE_EXECUTED \<Longrightarrow> InstanceID target \<in> fst ` set ?g"
        using st(2) target keys by (auto simp: settled_def)
      moreover have "d \<in> fst ` set ?g \<or> (\<exists>i. ?insts d = Some i \<and> Status i = INSTANCE_EXECUTED \<and>
          d \<notin> set (Dependencies target))" if "map_of ?g k = Some ds" "d \<in> set ds" for k ds d
        using st(3) that keys by (auto simp: closed_new_def settled_def initial_state_def)
      moreover have "set (uncommittedSet st) =
          {k \<in> fst ` set ?g. \<exists>i. ?insts k = Some i \<and> Status i < INSTANCE_COMMITTED}"
        using ord_invD(5) [OF st(1)] keys by auto
      ultimately show ?thesis
        using cs(2,3) ord_invD(3) [OF st(1)] unfolding order_spec_def by blast
    qed
    moreover have "\<not> list_ex (\<lambda>iid. depMap st iid = None \<and> imap_Get (instances m') iid = None)
        (exec_order (uuid_less uuid_time) cs)"
    proof -
      have "\<exists>i. instances m' k = Some i" if "k \<in> set (concat cs)" for k
        using that cs(2) ord_invD(3) [OF st(1)] quietD(2) [OF m'(2) inv] map_of_eq_None_iff [of ?g k]
        unfolding mgr_le_def by blast
      then show ?thesis unfolding list_ex_iff imap_Get_def set_exec_order by force
    qed
    ultimately show ?thesis using r Ret cs(1) m'
      by (auto simp: getExecutionOrder_def getDependencies_def Let_def initial_state_def [symmetric])
  qed (use r add in \<open>auto simp: add_ok_def getExecutionOrder_def getDependencies_def Let_def
      initial_state_def [symmetric]\<close>)
qed

section \<open>Applying instances keeps the invariant\<close>

text \<open>The effect of an instance on the store.\<close>

definition instance_effect :: "('s, 'v) Store \<Rightarrow> Instance \<Rightarrow> 's \<Rightarrow> 's \<times> 'v option outcome" where
  "instance_effect S i s = (if \<not> Noop i then st_ExecuteInstruction S s (Command i) else (s, Ret None))"

lemma fold_snoc: "fold (\<lambda>x log. log @ [f x]) xs log = log @ map f xs"
  by (induction xs arbitrary: log) auto

lemma executed_step:
  assumes inv: "mgr_inv m" and i: "instances m (InstanceID i) = Some i" and c: "Status i = INSTANCE_COMMITTED"
  shows "mgr_inv ((put_instance (m\<lparr>store := s\<rparr>) (i\<lparr>Status := INSTANCE_EXECUTED\<rparr>))
      \<lparr>executed := executed m @ [InstanceID i]\<rparr>)" (is "mgr_inv ?m'")
    and "mgr_le m ((put_instance (m\<lparr>store := s\<rparr>) (i\<lparr>Status := INSTANCE_EXECUTED\<rparr>))
      \<lparr>executed := executed m @ [InstanceID i]\<rparr>)"
proof -
  have new: "InstanceID i \<notin> set (executed m)" using mgr_invD(4) [OF inv] i c by (auto simp: status_defs)
  let ?i = "i\<lparr>Status := INSTANCE_EXECUTED\<rparr>"
  have insts: "instances ?m' = (instances m)(InstanceID i \<mapsto> ?i)" by simp
  have "k \<in> set (executed ?m') \<longleftrightarrow> (\<exists>j. instances ?m' k = Some j \<and> Status j = INSTANCE_EXECUTED)" for k
    using mgr_invD(4) [OF inv, of k] unfolding insts by (cases "k = InstanceID i") simp_all
  then have "set (executed ?m') = {k. \<exists>j. instances ?m' k = Some j \<and> Status j = INSTANCE_EXECUTED}" by blast
  moreover have "InstanceID j = k \<and> Status j \<le> INSTANCE_EXECUTED" if "instances ?m' k = Some j" for k j
    using that mgr_invD(1,2) [OF inv] unfolding insts by (cases "k = InstanceID i") auto
  moreover have "distinct (executed ?m')" "dm_wf (depsMngr ?m')" "finite (dom (instances ?m'))"
    using mgr_invD(3,5,6) [OF inv] new by simp_all
  ultimately show "mgr_inv ?m'" unfolding mgr_inv_def by blast
  show "mgr_le m ?m'"
    using i c by (auto simp: mgr_le_def instance_le_def status_defs)
qed

lemma notify_inv: "mgr_inv (notify i val m) = mgr_inv m"
  by (simp add: notify_def mgr_inv_def)

lemma notify_le: "mgr_le m (notify i val m') = mgr_le m m'"
  by (simp add: notify_def mgr_le_def)

text \<open>The branches of \<^verbatim>\<open>applyInstance\<close>.\<close>

lemma applyInstance_executed: "Status i = INSTANCE_EXECUTED \<Longrightarrow> applyInstance S m i = (m, Ret None)"
  by (simp add: applyInstance_def)

lemma applyInstance_uncommitted:
  "Status i \<noteq> INSTANCE_EXECUTED \<Longrightarrow> Status i \<noteq> INSTANCE_COMMITTED \<Longrightarrow>
     applyInstance S m i = (m, Err (Errorf ''instance not committed''))"
  by (simp add: applyInstance_def)

lemma applyInstance_fails:
  assumes "Status i = INSTANCE_COMMITTED" and "instance_effect S i (store m) = (s, r)" and "\<forall>val. r \<noteq> Ret val"
  shows "applyInstance S m i = (m\<lparr>store := s\<rparr>, r)"
  using assms by (cases r) (auto simp: applyInstance_def instance_effect_def status_defs)

lemma applyInstance_succeeds:
  assumes inv: "mgr_inv m" and i: "instances m (InstanceID i) = Some i" and c: "Status i = INSTANCE_COMMITTED"
    and eff: "instance_effect S i (store m) = (s, Ret val)"
    and keys: "st_InterferingKeys S (Command i) \<noteq> []"
  shows "\<exists>m'. applyInstance S m i = (m', Ret val) \<and> mgr_inv m' \<and> mgr_le m m' \<and> store m' = s \<and>
    instances m' = (instances m)(InstanceID i \<mapsto> i\<lparr>Status := INSTANCE_EXECUTED\<rparr>) \<and>
    executed m' = executed m @ [InstanceID i] \<and>
    delivered m' = delivered m @ map (\<lambda>l. (l, val)) (ResultListeners i)"
proof -
  let ?i = "i\<lparr>Status := INSTANCE_EXECUTED\<rparr>"
  let ?m1 = "(put_instance (m\<lparr>store := s\<rparr>) ?i)\<lparr>executed := executed m @ [InstanceID i]\<rparr>"
  note ex = executed_step [OF inv i c, of s]
  obtain m2 err where m2: "mgr_ReportExecuted S ?m1 ?i = (m2, err)" by fastforce
  obtain k ks where "interferingKeys S ?i = k # ks"
    using keys by (metis Instance.select_convs(4) Instance.surjective Instance.update_convs(6) interferingKeys_def neq_Nil_conv)
  then have "err = None"
    using dm_ReportExecuted_upd [of "depsMngr ?m1" k ks ?i] m2 by (auto simp: mgr_ReportExecuted_def)
  have q: "quiet ?m1 m2" using quiet_ReportExecuted [of ?m1 S ?i] m2 by simp
  have inst2: "instances m2 = (instances m)(InstanceID i \<mapsto> ?i)"
    using instances_mgr_deps(3) [of S ?m1 ?i] m2 by simp
  let ?m3 = "notify ?i val m2"
  have "mgr_inv ?m3" "mgr_le m ?m3"
    unfolding notify_inv notify_le by (rule quietD(1) [OF q ex(1)], rule mgr_le_trans [OF ex(2) quietD(2) [OF q ex(1)]])
  moreover have "applyInstance S m i = (?m3, Ret val)"
    using c eff m2 \<open>err = None\<close>
    by (auto simp: applyInstance_def instance_effect_def Let_def status_defs split: if_splits)
  ultimately show ?thesis
    using inst2 quietD(3,4,7) [OF q] by (auto simp: notify_def fold_snoc)
qed

section \<open>The dependency chain\<close>

definition committed_in :: "('s, 'v) Manager \<Rightarrow> InstanceID \<Rightarrow> bool" where
  "committed_in m iid \<longleftrightarrow> (\<exists>i. instances m iid = Some i \<and> Status i = INSTANCE_COMMITTED)"

definition run_instances ::
    "('s, 'v) Store \<Rightarrow> InstanceMap \<Rightarrow> InstanceID list \<Rightarrow> 's \<Rightarrow> 's" where
  "run_instances S insts iids s =
     fold (\<lambda>iid s. case insts iid of None \<Rightarrow> s | Some i \<Rightarrow> fst (instance_effect S i s)) iids s"

lemma run_instances_simps [simp]:
  "run_instances S insts [] s = s"
  "run_instances S insts (iid # iids) s =
     run_instances S insts iids (case insts iid of None \<Rightarrow> s | Some i \<Rightarrow> fst (instance_effect S i s))"
  by (simp_all add: run_instances_def)

lemma run_instances_cong:
  "(\<And>iid. iid \<in> set iids \<Longrightarrow> insts iid = insts' iid) \<Longrightarrow> run_instances S insts iids s = run_instances S insts' iids s"
  by (induction iids arbitrary: s) auto

text \<open>
  A chain that succeeds has applied the committed instances of an initial part of the list,
  in this order and each once, and the part ends with the target or is the whole list.
\<close>

definition chain_done ::
    "('s, 'v) Store \<Rightarrow> ('s, 'v) Manager \<Rightarrow> InstanceID list \<Rightarrow> InstanceID \<Rightarrow> ('s, 'v) Manager \<Rightarrow> nat \<Rightarrow> bool" where
  "chain_done S m iids target m' n \<longleftrightarrow>
     n \<le> length iids \<and> (n = length iids \<or> 0 < n \<and> iids ! (n - 1) = target) \<and>
     executed m' = executed m @ filter (committed_in m) (take n iids) \<and>
     store m' = run_instances S (instances m) (filter (committed_in m) (take n iids)) (store m) \<and>
     (\<forall>iid \<in> set (take n iids). \<exists>i. instances m' iid = Some i \<and> Status i = INSTANCE_EXECUTED)"

lemma mgr_le_executed:
  assumes "mgr_le m m'" "instances m iid = Some i" "Status i = INSTANCE_EXECUTED"
  shows "\<exists>j. instances m' iid = Some j \<and> Status j = INSTANCE_EXECUTED"
  using assms unfolding mgr_le_def instance_le_def by blast

lemma chain_ok:
  assumes keys: "\<And>c. st_InterferingKeys S c \<noteq> []"
  shows "mgr_inv m \<Longrightarrow> distinct iids \<Longrightarrow> executeDependencyChain S m iids target = (m', Ret ()) \<Longrightarrow>
    mgr_inv m' \<and> mgr_le m m' \<and> (\<exists>n. chain_done S m iids target m' n)"
proof (induction iids arbitrary: m)
  case Nil
  then show ?case by (auto simp: chain_done_def)
next
  case (Cons iid iids)
  obtain i where i: "instances m iid = Some i"
    using Cons.prems(3) by (cases "instances m iid") auto
  have iid: "InstanceID i = iid" using mgr_invD(1) [OF Cons.prems(1) i] .
  consider (ex) "Status i = INSTANCE_EXECUTED" | (com) "Status i = INSTANCE_COMMITTED"
    using Cons.prems(3) i by (auto simp: getStatus_def split: if_splits)
  then show ?case
  proof cases
    case ex
    then have "executeDependencyChain S m iids target = (m', Ret ())"
      using Cons.prems(3) i by (simp add: getStatus_def status_defs)
    with Cons.IH [OF Cons.prems(1)] Cons.prems(2) obtain n where
      IH: "mgr_inv m'" "mgr_le m m'" "chain_done S m iids target m' n" by auto
    have "\<not> committed_in m iid" using i ex by (simp add: committed_in_def status_defs)
    moreover have "\<exists>j. instances m' iid = Some j \<and> Status j = INSTANCE_EXECUTED"
      by (rule mgr_le_executed [OF IH(2) i ex])
    ultimately have "chain_done S m (iid # iids) target m' (Suc n)"
      using IH(3) by (auto simp: chain_done_def nth_Cons')
    with IH(1,2) show ?thesis by blast
  next
    case com
    obtain s r where eff: "instance_effect S i (store m) = (s, r)" by fastforce
    obtain val where r: "r = Ret val"
    proof -
      have "False" if "\<forall>val. r \<noteq> Ret val"
        using applyInstance_fails [OF com eff that] that Cons.prems(3) i com
        by (cases r) (auto simp: getStatus_def)
      then show ?thesis using that by blast
    qed
    have "instances m (InstanceID i) = Some i" using i iid by simp
    from applyInstance_succeeds [OF Cons.prems(1) this com, of S s val] eff r keys obtain m1 where
      m1: "applyInstance S m i = (m1, Ret val)" "mgr_inv m1" "mgr_le m m1" "store m1 = s"
        "instances m1 = (instances m)(iid \<mapsto> i\<lparr>Status := INSTANCE_EXECUTED\<rparr>)"
        "executed m1 = executed m @ [iid]" using iid by auto
    have c: "committed_in m iid" using i com by (simp add: committed_in_def)
    show ?thesis
    proof (cases "iid = target")
      case True
      then have "m' = m1" using Cons.prems(3) i com m1(1) iid by (simp add: getStatus_def)
      moreover have "chain_done S m (iid # iids) target m1 1"
        using m1 c True i eff by (simp add: chain_done_def)
      ultimately show ?thesis using m1(2,3) by blast
    next
      case False
      then have "executeDependencyChain S m1 iids target = (m', Ret ())"
        using Cons.prems(3) i com m1(1) iid by (simp add: getStatus_def)
      with Cons.IH [OF m1(2)] Cons.prems(2) obtain n where
        IH: "mgr_inv m'" "mgr_le m1 m'" "chain_done S m1 iids target m' n" by auto
      have same: "instances m1 k = instances m k" if "k \<in> set iids" for k
        using that m1(5) Cons.prems(2) by auto
      have f: "filter (committed_in m1) (take n iids) = filter (committed_in m) (take n iids)"
        by (rule filter_cong) (auto simp: committed_in_def same dest: in_set_takeD)
      have "run_instances S (instances m1) (filter (committed_in m) (take n iids)) s =
          run_instances S (instances m) (filter (committed_in m) (take n iids)) s"
        by (rule run_instances_cong) (auto simp: same dest: in_set_takeD)
      moreover have "\<exists>j. instances m' iid = Some j \<and> Status j = INSTANCE_EXECUTED"
        by (rule mgr_le_executed [OF IH(2), where i = "i\<lparr>Status := INSTANCE_EXECUTED\<rparr>"]) (simp_all add: m1(5))
      ultimately have "chain_done S m (iid # iids) target m' (Suc n)"
        using IH(3) m1(4,6) c i eff f by (auto simp: chain_done_def nth_Cons')
      then show ?thesis using IH(1) mgr_le_trans [OF m1(3) IH(2)] by blast
    qed
  qed
qed

end
