(* ===== verification/Convergence.thy ===== *)
theory Convergence
  imports Execute
begin

text \<open>
  What execution (\<^verbatim>\<open>consensus/manager_execute.go\<close>) guarantees: the order that
  \<^verbatim>\<open>getExecutionOrder\<close> computes respects the dependencies, replicas that agree on the
  attributes of their instances compute orders with the same effect on the store, and
  \<^verbatim>\<open>executeDependencyChain\<close> applies each committed instance of an order once.
\<close>

section \<open>The order in terms of dependencies\<close>

text \<open>Dependency between the members of a set of instances.\<close>

definition dep_edge :: "InstanceMap \<Rightarrow> InstanceID set \<Rightarrow> InstanceID \<Rightarrow> InstanceID \<Rightarrow> bool" where
  "dep_edge insts A x y \<longleftrightarrow> x \<in> A \<and> y \<in> A \<and> (\<exists>i. insts x = Some i \<and> y \<in> set (Dependencies i))"

abbreviation dep_path :: "InstanceMap \<Rightarrow> InstanceID set \<Rightarrow> InstanceID \<Rightarrow> InstanceID \<Rightarrow> bool" where
  "dep_path insts A \<equiv> (dep_edge insts A)\<^sup>*\<^sup>*"

lemma order_spec_graph:
  assumes "order_spec uuid_time insts target g cs exOrder unc"
  shows "components_ok g cs" and "set exOrder = fst ` set g" and "set (concat cs) = set exOrder"
    and "exOrder = exec_order (uuid_less uuid_time) cs"
  using assms by (simp_all add: order_spec_def)

lemma order_spec_known:
  assumes spec: "order_spec uuid_time insts target g cs exOrder unc" and x: "x \<in> set exOrder"
  shows "\<exists>i. insts x = Some i \<and> (\<forall>d \<in> set (Dependencies i). d \<in> set exOrder \<or>
    (\<exists>j. insts d = Some j \<and> Status j = INSTANCE_EXECUTED))"
proof -
  obtain ds where ds: "map_of g x = Some ds"
    using x order_spec_graph(2) [OF spec] map_of_eq_None_iff [of g x] by fastforce
  have all: "\<forall>k ds. map_of g k = Some ds \<longrightarrow> (\<exists>i. insts k = Some i \<and> ds = Dependencies i) \<and>
      (\<forall>d \<in> set ds. d \<in> fst ` set g \<or>
        (\<exists>i. insts d = Some i \<and> Status i = INSTANCE_EXECUTED \<and> d \<notin> set (Dependencies target)))"
    using spec unfolding order_spec_def by (elim conjE)
  obtain i where i: "insts x = Some i" "ds = Dependencies i" using all ds by blast
  have "d \<in> fst ` set g \<or> (\<exists>j. insts d = Some j \<and> Status j = INSTANCE_EXECUTED)"
    if "d \<in> set (Dependencies i)" for d
    using all ds i that by blast
  then show ?thesis using i order_spec_graph(2) [OF spec] by simp
qed

lemma order_spec_edge:
  assumes "order_spec uuid_time insts target g cs exOrder unc"
  shows "edge g = dep_edge insts (set exOrder)"
proof (intro ext)
  fix x y
  have keys: "map_of g k \<noteq> None \<longleftrightarrow> k \<in> set exOrder" for k
    using order_spec_graph(2) [OF assms] by (simp add: map_of_eq_None_iff)
  have deps: "\<exists>i. insts x = Some i \<and> ds = Dependencies i" if "map_of g x = Some ds" for ds
    using assms that unfolding order_spec_def by blast
  show "edge g x y = dep_edge insts (set exOrder) x y"
  proof (cases "map_of g x")
    case None
    then show ?thesis using keys [of x] by (simp add: edge_def v_out_def dep_edge_def)
  next
    case (Some ds)
    then show ?thesis using keys [of x] keys [of y] deps [OF Some] by (auto simp: edge_def v_out_def dep_edge_def)
  qed
qed

lemma order_spec_before:
  assumes "order_spec uuid_time insts target g cs exOrder unc" and "x \<in> set exOrder" and "dep_path insts (set exOrder) x y"
  shows "\<not> dep_path insts (set exOrder) y x \<Longrightarrow> before exOrder y x"
    and "dep_path insts (set exOrder) y x \<Longrightarrow> uuid_less uuid_time x y \<Longrightarrow> before exOrder x y"
proof -
  note g = order_spec_graph [OF assms(1)] and e = order_spec_edge [OF assms(1)]
  have x: "x \<in> set (concat cs)" using assms(2) g(3) by simp
  show "\<not> dep_path insts (set exOrder) y x \<Longrightarrow> before exOrder y x"
    using exec_order_reach [OF g(1) x, of y "uuid_less uuid_time"] assms(3) unfolding e g(4) [symmetric] by simp
  show "dep_path insts (set exOrder) y x \<Longrightarrow> uuid_less uuid_time x y \<Longrightarrow> before exOrder x y"
    using exec_order_scc [OF iid_sorter.sort_total_axioms _ g(1) x, of y uuid_time] assms(3)
    unfolding e g(4) [symmetric] by simp
qed

text \<open>
  C6: the execution order.  When the dependencies of the known instances are known, and with
  fuel for each instance, computing the order of a known instance succeeds, whatever order
  Go iterates over the graph in.  The order has no repetitions and contains the instance
  unless it is executed.  It contains known instances, and each of their dependencies unless
  it is executed already.  A dependency comes before an instance that it does not depend on
  in turn, and instances that depend on each other come in the order of their identifiers.
  The instances reported as uncommitted are exactly those of the order that are.  The
  replica's log and store stay as they are.
\<close>

theorem execution_order:
  assumes "mgr_inv m" and "instances m (InstanceID target) = Some target" and "deps_known (instances m)"
    and "\<forall>g. iter_ok g (iter g)" and "card (dom (instances m)) \<le> fuel"
  shows "\<exists>m' exOrder unc. getExecutionOrder uuid_time iter fuel m target = Some (m', Ret (exOrder, unc)) \<and>
    mgr_inv m' \<and> mgr_le m m' \<and> executed m' = executed m \<and> store m' = store m \<and> distinct exOrder \<and>
    (Status target \<noteq> INSTANCE_EXECUTED \<longrightarrow> InstanceID target \<in> set exOrder) \<and>
    (\<forall>x \<in> set exOrder. \<exists>i. instances m x = Some i \<and> (\<forall>d \<in> set (Dependencies i). d \<in> set exOrder \<or>
       (\<exists>j. instances m d = Some j \<and> Status j = INSTANCE_EXECUTED))) \<and>
    (\<forall>x \<in> set exOrder. \<forall>y. dep_path (instances m) (set exOrder) x y \<longrightarrow>
       (\<not> dep_path (instances m) (set exOrder) y x \<longrightarrow> before exOrder y x) \<and>
       (dep_path (instances m) (set exOrder) y x \<longrightarrow> uuid_less uuid_time x y \<longrightarrow> before exOrder x y)) \<and>
    set unc = {x \<in> set exOrder. \<exists>i. instances m x = Some i \<and> Status i < INSTANCE_COMMITTED}"
proof -
  obtain m' r where res: "getExecutionOrder uuid_time iter fuel m target = Some (m', r)" "quiet m m'"
    and r: "case r of Ret (exOrder, unc) \<Rightarrow> (\<exists>g cs. order_spec uuid_time (instances m) target g cs exOrder unc)
       | _ \<Rightarrow> \<not> deps_known (instances m)"
    using getExecutionOrder_ok [OF assms(1,2,4,5), of uuid_time] by (fastforce split: outcome.splits)
  obtain exOrder unc g cs where ret: "r = Ret (exOrder, unc)"
    and spec: "order_spec uuid_time (instances m) target g cs exOrder unc"
    using r assms(3) by (auto split: outcome.splits)
  have "distinct exOrder" using spec by (simp add: order_spec_def components_ok_def)
  moreover have "(Status target \<noteq> INSTANCE_EXECUTED \<longrightarrow> InstanceID target \<in> set exOrder) \<and>
      set unc = {x \<in> set exOrder. \<exists>i. instances m x = Some i \<and> Status i < INSTANCE_COMMITTED}"
    using spec order_spec_graph(2) [OF spec] unfolding order_spec_def by simp
  ultimately show ?thesis
    using res(1) ret quietD(1-4) [OF res(2)] assms(1) order_spec_known [OF spec] order_spec_before [OF spec]
    by (intro exI [of _ m'] exI [of _ exOrder] exI [of _ unc]) simp
qed

section \<open>Replicas that agree\<close>

text \<open>
  The part of an instance that the execution order and its effect depend on: what the
  replicas agree on, and how far the instance has got.  Leader, ballot, listeners and
  timeouts are local matters.
\<close>

definition core :: "Instance \<Rightarrow> Instance" where
  "core i = i\<lparr>LeaderID := zero_B16, Successors := [], MaxBallot := 0, DependencyMatch := False,
     ReadOnly := False, ResultListeners := [], commitTimeout := zero_Time\<rparr>"

definition core_map :: "InstanceMap \<Rightarrow> InstanceMap" where
  "core_map insts = map_option core \<circ> insts"

definition core_state :: "order_state \<Rightarrow> order_state" where
  "core_state st = st\<lparr>depMap := core_map (depMap st)\<rparr>"

lemma core_fields [simp]:
  "InstanceID (core i) = InstanceID i" "Status (core i) = Status i" "Dependencies (core i) = Dependencies i"
  "StronglyConnected (core i) = StronglyConnected i" "Command (core i) = Command i" "Noop (core i) = Noop i"
  by (simp_all add: core_def)

lemma core_state_fields [simp]:
  "depMap (core_state st) k = map_option core (depMap st k)" "depGraph (core_state st) = depGraph st"
  "requiredInstances (core_state st) = requiredInstances st" "uncommittedSet (core_state st) = uncommittedSet st"
  by (simp_all add: core_state_def core_map_def)

lemma core_state_fetch [simp]:
  "(core_state st)\<lparr>depMap := imap_GetMap (core_map insts) (depMap (core_state st)) deps\<rparr> =
     core_state (st\<lparr>depMap := imap_GetMap insts (depMap st) deps\<rparr>)"
  by (simp add: core_state_def core_map_def fun_eq_iff imap_GetMap_apply)

lemma core_state_add_node [simp]: "add_node (core i) (core_state st) = core_state (add_node i st)"
  by (simp add: core_state_def add_node_def)

lemma connected_loop_core [simp]:
  "connected_loop tds (core_state st) iid deps conn = connected_loop tds st iid deps conn"
  by (induction deps arbitrary: conn) (simp_all add: getStatus_def split: option.split)

lemma addInstance_core:
  "addInstance (core_map insts) tds n (core inst) (core_state st) =
     map_option (map_outcome core_state) (addInstance insts tds n inst st)"
  and addDeps_core:
  "addDeps (core_map insts) tds n iids (core_state st) =
     map_option (map_outcome core_state) (addDeps insts tds n iids st)"
proof (induction insts tds n inst st and insts tds n iids st rule: addInstance_addDeps.induct)
  case (2 insts tds n inst st)
  then show ?case by (simp add: Let_def split: outcome.split bool.split)
next
  case (4 insts tds n iid iids st)
  then show ?case by (auto split: option.splits outcome.splits)
qed simp_all

lemma initial_state_core [simp]:
  "initial_state (core_map insts) (core i) = core_state (initial_state insts i)"
  by (simp add: initial_state_def core_state_def core_map_def fun_eq_iff imap_GetMap_apply)

lemma core_map_dep_edge: "core_map insts = core_map insts' \<Longrightarrow> dep_edge insts A = dep_edge insts' A"
proof (intro ext)
  fix x y assume "core_map insts = core_map insts'"
  then have "map_option core (insts x) = map_option core (insts' x)"
    by (simp add: core_map_def fun_eq_iff)
  then show "dep_edge insts A x y = dep_edge insts' A x y"
    by (cases "insts x"; cases "insts' x") (simp_all add: dep_edge_def, metis core_fields(3))
qed

lemma instance_effect_core [simp]: "instance_effect S (core i) = instance_effect S i"
  by (simp add: instance_effect_def fun_eq_iff)

lemma run_instances_core: "run_instances S (core_map insts) iids s = run_instances S insts iids s"
  by (induction iids arbitrary: s) (auto simp: core_map_def split: option.split)

lemma same_graph:
  assumes agree: "core_map insts = core_map insts'" and t: "core t = core t'"
    and add: "addInstance insts (NewInstanceIDSet (Dependencies t)) fuel t (initial_state insts t) = Some (Ret st)"
    and add': "addInstance insts' (NewInstanceIDSet (Dependencies t')) fuel t' (initial_state insts' t') = Some (Ret st')"
  shows "depGraph st = depGraph st'"
proof -
  have deps: "Dependencies t = Dependencies t'" using t by (metis core_fields(3))
  have "Some (Ret (core_state st)) = addInstance (core_map insts) (NewInstanceIDSet (Dependencies t)) fuel (core t)
      (core_state (initial_state insts t))"
    by (simp add: addInstance_core add)
  also have "\<dots> = addInstance (core_map insts') (NewInstanceIDSet (Dependencies t')) fuel (core t')
      (core_state (initial_state insts' t'))"
    unfolding initial_state_core [symmetric] by (simp only: agree t deps)
  also have "\<dots> = Some (Ret (core_state st'))"
    by (simp add: addInstance_core add')
  finally have "core_state st = core_state st'" by simp
  then show ?thesis by (metis core_state_fields(2))
qed

text \<open>The key-value store as the store of the replicas.\<close>

definition kv_store :: "(KVStore, Value) Store" where
  "kv_store = \<lparr>st_ExecuteInstruction = ExecuteInstruction, st_InterferingKeys = InterferingKeys\<rparr>"

lemma kv_store_keys [simp]: "st_InterferingKeys kv_store c = [Key c]"
  by (simp add: kv_store_def InterferingKeys_def)

lemma kv_effect_commute:
  assumes "Key (Command i) \<noteq> Key (Command j)"
  shows "fst (instance_effect kv_store i (fst (instance_effect kv_store j s))) =
    fst (instance_effect kv_store j (fst (instance_effect kv_store i s)))"
  using exec_commute(1) [OF assms, of s] by (simp add: instance_effect_def kv_store_def)

text \<open>Instances on the same key depend on each other, one way or the other.\<close>

definition conflicts_ordered :: "InstanceMap \<Rightarrow> InstanceID list \<Rightarrow> bool" where
  "conflicts_ordered insts iids \<longleftrightarrow>
     (\<forall>x \<in> set iids. \<forall>y \<in> set iids. \<forall>i j. insts x = Some i \<longrightarrow> insts y = Some j \<longrightarrow>
        Key (Command i) = Key (Command j) \<longrightarrow> dep_path insts (set iids) x y \<or> dep_path insts (set iids) y x)"

lemma conflicts_orderedD:
  "conflicts_ordered insts iids \<Longrightarrow> x \<in> set iids \<Longrightarrow> y \<in> set iids \<Longrightarrow> insts x = Some i \<Longrightarrow> insts y = Some j \<Longrightarrow>
     Key (Command i) = Key (Command j) \<Longrightarrow> dep_path insts (set iids) x y \<or> dep_path insts (set iids) y x"
  unfolding conflicts_ordered_def by blast

text \<open>
  C1: replicas converge.  Two replicas agree on their instances, up to leaders, ballots,
  listeners and timeouts, and each computes the order for the same instance, each with its
  own iteration over the graph.  Then both orders have the same members, and executing them
  on the same key-value store gives the same store, provided that of two instances on the
  same key one depends on the other.
\<close>

theorem replicas_converge:
  assumes inv: "mgr_inv m" "mgr_inv m'" and agree: "core_map (instances m) = core_map (instances m')"
    and known: "instances m (InstanceID t) = Some t" "instances m' (InstanceID t) = Some t'"
    and iter: "\<forall>g. iter_ok g (iter g)" "\<forall>g. iter_ok g (iter' g)" and fuel: "card (dom (instances m)) \<le> fuel"
    and order: "getExecutionOrder uuid_time iter fuel m t = Some (m1, Ret (exOrder, unc))"
      "getExecutionOrder uuid_time iter' fuel m' t' = Some (m1', Ret (exOrder', unc'))"
    and conflicts: "conflicts_ordered (instances m) exOrder"
  shows "set exOrder' = set exOrder \<and>
    run_instances kv_store (instances m') exOrder' s = run_instances kv_store (instances m) exOrder s"
proof -
  have same: "map_option core (instances m k) = map_option core (instances m' k)" for k
    using agree by (simp add: core_map_def fun_eq_iff)
  have t: "core t = core t'" using same [of "InstanceID t"] known by simp
  have "InstanceID t' = InstanceID t" using mgr_invD(1) [OF inv(2) known(2)] .
  with known(2) have known': "instances m' (InstanceID t') = Some t'" by simp
  have "k \<in> dom (instances m) \<longleftrightarrow> k \<in> dom (instances m')" for k
    using same [of k] by (metis domIff option.map_disc_iff)
  then have "dom (instances m) = dom (instances m')" by blast
  then have fuel': "card (dom (instances m')) \<le> fuel" using fuel by simp
  obtain st cs where st: "addInstance (instances m) (NewInstanceIDSet (Dependencies t)) fuel t
      (initial_state (instances m) t) = Some (Ret st)"
    and spec: "order_spec uuid_time (instances m) t (depGraph st) cs exOrder unc"
    using getExecutionOrder_ok [OF inv(1) known(1) iter(1) fuel, of uuid_time] order(1) by auto
  obtain st' cs' where st': "addInstance (instances m') (NewInstanceIDSet (Dependencies t')) fuel t'
      (initial_state (instances m') t') = Some (Ret st')"
    and spec': "order_spec uuid_time (instances m') t' (depGraph st') cs' exOrder' unc'"
    using getExecutionOrder_ok [OF inv(2) known' iter(2) fuel', of uuid_time] order(2) by auto
  note g = order_spec_graph [OF spec] and g' = order_spec_graph [OF spec', folded same_graph [OF agree t st st']]
  have sets: "set exOrder' = set exOrder" using g(2) g'(2) by simp
  let ?f = "\<lambda>iid s. case instances m iid of None \<Rightarrow> s | Some i \<Rightarrow> fst (instance_effect kv_store i s)"
  have "fold ?f (exec_order (uuid_less uuid_time) cs) s = fold ?f (exec_order (uuid_less uuid_time) cs') s"
  proof (rule exec_order_converges [OF iid_sorter.sort_total_axioms _ g(1) g'(1)])
    show "\<forall>x \<in> set (concat cs). \<forall>y \<in> set (concat cs). reach (depGraph st) x y \<or> reach (depGraph st) y x \<or>
        (\<forall>s. ?f x (?f y s) = ?f y (?f x s))"
      unfolding order_spec_edge [OF spec] g(3)
    proof (intro ballI)
      fix x y assume xy: "x \<in> set exOrder" "y \<in> set exOrder"
      obtain i where i: "instances m x = Some i"
        using order_spec_known [OF spec xy(1)] by (elim exE conjE)
      obtain j where j: "instances m y = Some j"
        using order_spec_known [OF spec xy(2)] by (elim exE conjE)
      show "dep_path (instances m) (set exOrder) x y \<or> dep_path (instances m) (set exOrder) y x \<or>
          (\<forall>s. ?f x (?f y s) = ?f y (?f x s))"
        using conflicts_orderedD [OF conflicts xy i j] kv_effect_commute [of i j] i j
        by (cases "Key (Command i) = Key (Command j)") (simp_all, blast)
    qed
  qed (use g(3) g'(3) sets in simp_all)
  then have "run_instances kv_store (instances m) exOrder' s = run_instances kv_store (instances m) exOrder s"
    by (simp add: run_instances_def g(4) g'(4))
  then show ?thesis using sets agree by (metis run_instances_core)
qed

section \<open>An example\<close>

text \<open>Two committed instances on one key that depend on each other.\<close>

definition ida :: InstanceID where "ida = \<lparr>b0 = 1, b1 = 1\<rparr>"
definition idb :: InstanceID where "idb = \<lparr>b0 = 1, b1 = 2\<rparr>"

definition ex_a :: Instance where
  "ex_a = zero_Instance\<lparr>InstanceID := ida, Command := NewInstruction ''SET'' ''k'' [''u''] (ex_time 5),
     Dependencies := [idb], Status := INSTANCE_COMMITTED\<rparr>"

definition ex_b :: Instance where
  "ex_b = zero_Instance\<lparr>InstanceID := idb, Command := NewInstruction ''SET'' ''k'' [''v''] (ex_time 6),
     Dependencies := [ida], Status := INSTANCE_COMMITTED, ResultListeners := [4]\<rparr>"

definition ex_empty :: "(KVStore, Value) Manager" where
  "ex_empty = NewManager (NewTopology \<lparr>b0 = 0, b1 = 1\<rparr> ''DC1'' string_bytes 3) NewKVStore"

definition ex_replica :: "Instance \<Rightarrow> Instance \<Rightarrow> (KVStore, Value) Manager" where
  "ex_replica i j = put_instance (put_instance ex_empty i) j"

lemma ex_replica_facts:
  assumes "Status i \<le> INSTANCE_COMMITTED" and "Status j \<le> INSTANCE_COMMITTED" and "InstanceID i \<noteq> InstanceID j"
  shows "mgr_inv (ex_replica i j)"
    and "instances (ex_replica i j) = [InstanceID i \<mapsto> i, InstanceID j \<mapsto> j]"
    and "store (ex_replica i j) = NewKVStore" and "executed (ex_replica i j) = []"
proof -
  have e: "mgr_inv ex_empty" "instances ex_empty = Map.empty"
    unfolding ex_empty_def by (rule mgr_inv_New) (simp add: NewManager_def NewInstanceMap_def)
  have "mgr_inv (put_instance ex_empty i)"
    by (rule quietD(1) [OF quiet_new e(1)]) (simp_all add: e assms)
  then show "mgr_inv (ex_replica i j)"
    unfolding ex_replica_def by (rule quietD(1) [OF quiet_new, rotated 2]) (use e assms in auto)
  show "instances (ex_replica i j) = [InstanceID i \<mapsto> i, InstanceID j \<mapsto> j]"
    by (simp add: ex_replica_def e)
  show "store (ex_replica i j) = NewKVStore" and "executed (ex_replica i j) = []"
    by (simp_all add: ex_replica_def ex_empty_def NewManager_def)
qed

lemma ex_ab:
  "mgr_inv (ex_replica ex_a ex_b)" "instances (ex_replica ex_a ex_b) = [ida \<mapsto> ex_a, idb \<mapsto> ex_b]"
  "store (ex_replica ex_a ex_b) = NewKVStore" "executed (ex_replica ex_a ex_b) = []"
  "InstanceID ex_a = ida" "InstanceID ex_b = idb" "ida \<noteq> idb" "Status ex_a = INSTANCE_COMMITTED" "Status ex_b = INSTANCE_COMMITTED"
  "Dependencies ex_a = [idb]" "Dependencies ex_b = [ida]"
  using ex_replica_facts [of ex_a ex_b] by (simp_all add: ex_a_def ex_b_def ida_def idb_def)

lemma iter_ok_id: "\<forall>g. iter_ok g (id g)" and iter_ok_rev: "\<forall>g. iter_ok g (rev g)"
  by (simp_all add: iter_ok_def rev_map [symmetric])

lemma ex_ab_order:
  "\<exists>m. getExecutionOrder (\<lambda>_. 0) id 2 (ex_replica ex_a ex_b) ex_a = Some (m, Ret ([ida, idb], []))"
  "\<exists>m. getExecutionOrder (\<lambda>_. 0) rev 2 (ex_replica ex_a ex_b) ex_a = Some (m, Ret ([ida, idb], []))"
proof -
  have "map_option snd (getExecutionOrder (\<lambda>_. 0) id 2 (ex_replica ex_a ex_b) ex_a) = Some (Ret ([ida, idb], []))"
    by code_simp
  then show "\<exists>m. getExecutionOrder (\<lambda>_. 0) id 2 (ex_replica ex_a ex_b) ex_a = Some (m, Ret ([ida, idb], []))" by auto
  have "map_option snd (getExecutionOrder (\<lambda>_. 0) rev 2 (ex_replica ex_a ex_b) ex_a) = Some (Ret ([ida, idb], []))"
    by code_simp
  then show "\<exists>m. getExecutionOrder (\<lambda>_. 0) rev 2 (ex_replica ex_a ex_b) ex_a = Some (m, Ret ([ida, idb], []))" by auto
qed

theorem execution_order_witness:
  "\<exists>m' exOrder unc. getExecutionOrder (\<lambda>_. 0) rev 2 (ex_replica ex_a ex_b) ex_a = Some (m', Ret (exOrder, unc)) \<and>
     distinct exOrder \<and> ida \<in> set exOrder"
proof -
  have "deps_known (instances (ex_replica ex_a ex_b))" by (simp add: deps_known_def ex_ab)
  moreover have "card (dom (instances (ex_replica ex_a ex_b))) \<le> 2" by (simp add: ex_ab card_insert_if)
  ultimately show ?thesis
    using execution_order [OF ex_ab(1) _ _ iter_ok_rev, of ex_a 2 "\<lambda>_. 0"] by (auto simp: ex_ab status_defs)
qed

theorem replicas_converge_witness:
  "\<exists>m1 m1' exOrder exOrder'.
     getExecutionOrder (\<lambda>_. 0) id 2 (ex_replica ex_a ex_b) ex_a = Some (m1, Ret (exOrder, [])) \<and>
     getExecutionOrder (\<lambda>_. 0) rev 2 (ex_replica ex_a ex_b) ex_a = Some (m1', Ret (exOrder', [])) \<and>
     run_instances kv_store (instances (ex_replica ex_a ex_b)) exOrder' NewKVStore =
     run_instances kv_store (instances (ex_replica ex_a ex_b)) exOrder NewKVStore"
proof -
  let ?m = "ex_replica ex_a ex_b"
  have "dep_path (instances ?m) {ida, idb} ida idb" "dep_path (instances ?m) {ida, idb} idb ida"
    by (rule r_into_rtranclp, simp add: dep_edge_def ex_ab)+
  then have c: "conflicts_ordered (instances ?m) [ida, idb]" by (auto simp: conflicts_ordered_def)
  obtain m1 m1' where
    m: "getExecutionOrder (\<lambda>_. 0) id 2 ?m ex_a = Some (m1, Ret ([ida, idb], []))"
    and m': "getExecutionOrder (\<lambda>_. 0) rev 2 ?m ex_a = Some (m1', Ret ([ida, idb], []))"
    using ex_ab_order by blast
  have "card (dom (instances ?m)) \<le> 2" by (simp add: ex_ab card_insert_if)
  with replicas_converge [OF ex_ab(1) ex_ab(1) refl _ _ iter_ok_id iter_ok_rev _ m m' c] m m' show ?thesis
    by (simp add: ex_ab)
qed

section \<open>Applying the order\<close>

text \<open>
  Applying an instance.  An executed instance is left alone and an instance that is not
  committed is refused.  A committed instance is executed against the store once: if the
  store returns a value, the instance becomes executed and is logged, its listeners get the
  value, and applying it again does nothing.  If the store fails, the instance stays
  committed, nothing is logged and no listener hears of it.
\<close>

theorem apply_instance:
  assumes "mgr_inv m" and "instances m (InstanceID i) = Some i" and "st_InterferingKeys S (Command i) \<noteq> []"
    and "applyInstance S m i = (m', r)"
  shows "(Status i = INSTANCE_EXECUTED \<longrightarrow> m' = m \<and> r = Ret None) \<and>
    (Status i < INSTANCE_COMMITTED \<longrightarrow> m' = m \<and> r = Err (Errorf ''instance not committed'')) \<and>
    (Status i = INSTANCE_COMMITTED \<longrightarrow> (store m', r) = instance_effect S i (store m) \<and>
       (case r of
          Ret val \<Rightarrow> mgr_inv m' \<and> executed m' = executed m @ [InstanceID i] \<and>
            instances m' = (instances m)(InstanceID i \<mapsto> i\<lparr>Status := INSTANCE_EXECUTED\<rparr>) \<and>
            delivered m' = delivered m @ map (\<lambda>l. (l, val)) (ResultListeners i) \<and>
            applyInstance S m' (i\<lparr>Status := INSTANCE_EXECUTED\<rparr>) = (m', Ret None)
        | _ \<Rightarrow> m' = m\<lparr>store := store m'\<rparr>))"
proof (intro conjI impI)
  assume c: "Status i = INSTANCE_COMMITTED"
  obtain s r' where eff: "instance_effect S i (store m) = (s, r')" by fastforce
  have "(store m', r) = (s, r') \<and> (case r of
          Ret val \<Rightarrow> mgr_inv m' \<and> executed m' = executed m @ [InstanceID i] \<and>
            instances m' = (instances m)(InstanceID i \<mapsto> i\<lparr>Status := INSTANCE_EXECUTED\<rparr>) \<and>
            delivered m' = delivered m @ map (\<lambda>l. (l, val)) (ResultListeners i)
        | _ \<Rightarrow> m' = m\<lparr>store := store m'\<rparr>)"
  proof (cases "\<exists>val. r' = Ret val")
    case True
    then obtain val where "r' = Ret val" ..
    with applyInstance_succeeds [OF assms(1,2) c _ assms(3)] eff assms(4) show ?thesis by auto
  next
    case False
    with applyInstance_fails [OF c eff] assms(4) show ?thesis by (cases r') auto
  qed
  then show "(store m', r) = instance_effect S i (store m)"
    and "case r of
          Ret val \<Rightarrow> mgr_inv m' \<and> executed m' = executed m @ [InstanceID i] \<and>
            instances m' = (instances m)(InstanceID i \<mapsto> i\<lparr>Status := INSTANCE_EXECUTED\<rparr>) \<and>
            delivered m' = delivered m @ map (\<lambda>l. (l, val)) (ResultListeners i) \<and>
            applyInstance S m' (i\<lparr>Status := INSTANCE_EXECUTED\<rparr>) = (m', Ret None)
        | _ \<Rightarrow> m' = m\<lparr>store := store m'\<rparr>"
    using eff by (auto simp: applyInstance_executed split: outcome.splits)
next
  assume "Status i < INSTANCE_COMMITTED"
  then have "applyInstance S m i = (m, Err (Errorf ''instance not committed''))"
    by (intro applyInstance_uncommitted) (auto simp: status_defs)
  then show "m' = m" "r = Err (Errorf ''instance not committed'')" using assms(4) by simp_all
qed (use assms(4) in \<open>simp_all add: applyInstance_executed\<close>)

theorem apply_instance_witness:
  "\<exists>m' val. applyInstance kv_store (ex_replica ex_a ex_b) ex_b = (m', Ret val) \<and>
     executed m' = [idb] \<and> delivered m' = [(4, val)]"
proof -
  let ?m = "ex_replica ex_a ex_b"
  obtain m' r where a: "applyInstance kv_store ?m ex_b = (m', r)" by fastforce
  have "snd (instance_effect kv_store ex_b (store ?m)) = Ret (Some (String ''v'' (ex_time 6)))"
    by code_simp
  then obtain s where eff: "instance_effect kv_store ex_b (store ?m) = (s, Ret (Some (String ''v'' (ex_time 6))))"
    by (metis surjective_pairing)
  have "delivered ?m = [] \<and> ResultListeners ex_b = [4]"
    by (simp add: ex_replica_def ex_empty_def NewManager_def ex_b_def)
  then show ?thesis
    using apply_instance [OF ex_ab(1) _ _ a] a eff ex_ab by auto
qed

text \<open>A chain of committed and executed instances that the store does not refuse succeeds.\<close>

definition applicable :: "('s, 'v) Store \<Rightarrow> InstanceMap \<Rightarrow> InstanceID \<Rightarrow> bool" where
  "applicable S insts iid \<longleftrightarrow>
     (\<exists>i. insts iid = Some i \<and> Status i \<in> {INSTANCE_COMMITTED, INSTANCE_EXECUTED} \<and>
        (\<forall>s. \<exists>s' val. instance_effect S i s = (s', Ret val)))"

lemma chain_succeeds:
  assumes keys: "\<And>c. st_InterferingKeys S c \<noteq> []"
  shows "mgr_inv m \<Longrightarrow> distinct iids \<Longrightarrow> \<forall>iid \<in> set iids. applicable S (instances m) iid \<Longrightarrow>
    \<exists>m'. executeDependencyChain S m iids target = (m', Ret ())"
proof (induction iids arbitrary: m)
  case (Cons iid iids)
  obtain i where i: "instances m iid = Some i" "Status i \<in> {INSTANCE_COMMITTED, INSTANCE_EXECUTED}"
    and eff: "\<forall>s. \<exists>s' val. instance_effect S i s = (s', Ret val)"
    using Cons.prems(3) unfolding applicable_def by auto
  show ?case
  proof (cases "Status i = INSTANCE_EXECUTED")
    case True
    then show ?thesis
      using Cons.IH [OF Cons.prems(1)] Cons.prems i(1) by (simp add: getStatus_def status_defs)
  next
    case False
    then have c: "Status i = INSTANCE_COMMITTED" using i(2) by simp
    have iid: "InstanceID i = iid" using mgr_invD(1) [OF Cons.prems(1) i(1)] .
    obtain s val where "instance_effect S i (store m) = (s, Ret val)" using eff by blast
    from applyInstance_succeeds [OF Cons.prems(1) _ c this keys] i(1) iid obtain m1 where
      m1: "applyInstance S m i = (m1, Ret val)" "mgr_inv m1"
        "instances m1 = (instances m)(iid \<mapsto> i\<lparr>Status := INSTANCE_EXECUTED\<rparr>)" by auto
    have "applicable S (instances m1) k" if "k \<in> set iids" for k
      using Cons.prems(2,3) that unfolding m1(3) applicable_def by auto
    then show ?thesis
      using Cons.IH [OF m1(2)] Cons.prems(2) i(1) c m1(1) by (simp add: getStatus_def)
  qed
qed simp


lemma ex_ab_applicable: "\<forall>iid \<in> set [ida, idb]. applicable kv_store (instances (ex_replica ex_a ex_b)) iid"
  by (simp add: applicable_def ex_ab)
    (auto simp: instance_effect_def kv_store_def ex_a_def ex_b_def zero_Instance_def NewInstruction_def ExecuteInstruction_def
      GET_def SET_def DEL_def validateSet_def kv_set_def ex_time_def Time_IsZero_def Let_def split: option.splits)


text \<open>Executed instances at the head of the list are skipped.\<close>

lemma chain_skip:
  "\<forall>iid \<in> set pre. \<exists>i. instances m iid = Some i \<and> Status i = INSTANCE_EXECUTED \<Longrightarrow>
     executeDependencyChain S m (pre @ iids) target = executeDependencyChain S m iids target"
  by (induction pre) (auto simp: getStatus_def status_defs)

text \<open>
  An instruction that the store refuses blocks its dependents.  When the first
  instance of the chain that is not executed carries an instruction that the key-value store
  answers with an error, the chain stops there with this error and leaves the replica
  exactly as it was: the instance stays committed, its listeners hear nothing, and every
  later attempt to execute a chain through it ends in the same way.
\<close>

theorem refused_instruction_blocks:
  assumes "\<forall>iid \<in> set pre. \<exists>j. instances m iid = Some j \<and> Status j = INSTANCE_EXECUTED"
    and "instances m x = Some i" and "Status i = INSTANCE_COMMITTED" and "\<not> Noop i"
    and "snd (ExecuteInstruction (store m) (Command i)) = Err e"
  shows "executeDependencyChain kv_store m (pre @ x # post) target = (m, Err e)"
proof -
  have "instance_effect kv_store i (store m) = (store m, Err e)"
    using assms(4,5) exec_error_unchanged [OF assms(5)]
    by (simp add: instance_effect_def kv_store_def prod_eq_iff)
  then have "applyInstance kv_store m i = (m, Err e)"
    using applyInstance_fails [OF assms(3)] by fastforce
  then show ?thesis using chain_skip [OF assms(1)] assms(2,3) by (simp add: getStatus_def)
qed

definition ex_bad :: Instance where
  "ex_bad = ex_a\<lparr>Command := NewInstruction ''SET'' ''k'' [] (ex_time 5)\<rparr>"

theorem refused_instruction_blocks_witness:
  "\<exists>e. executeDependencyChain kv_store (ex_replica ex_bad ex_b) [ida, idb] idb = (ex_replica ex_bad ex_b, Err e)"
proof -
  have i: "instances (ex_replica ex_bad ex_b) ida = Some ex_bad"
    by (subst ex_replica_facts(2)) (simp_all add: ex_bad_def ex_ab)
  obtain e where e: "snd (ExecuteInstruction (store (ex_replica ex_bad ex_b)) (Command ex_bad)) = Err e"
    by (auto simp: ex_bad_def NewInstruction_def ExecuteInstruction_def GET_def SET_def validateSet_def Let_def)
  have "Status ex_bad = INSTANCE_COMMITTED" "\<not> Noop ex_bad"
    by (simp_all add: ex_bad_def ex_a_def zero_Instance_def)
  with refused_instruction_blocks [of "[]", OF _ i _ _ e, of "[idb]" idb] show ?thesis by auto
qed

text \<open>
  An executed instance with an unknown dependency crashes the traversal.  Where an
  unknown dependency of an instance that still has to be executed is reported as an error,
  the loop over the dependencies of an executed instance reads the status of the missing
  entry of the map and panics.
\<close>

theorem executed_unknown_dependency_panics:
  assumes "Status i = INSTANCE_EXECUTED" and "InstanceID i \<notin> set targetDepSet"
    and "d \<in> set (Dependencies i)" and "insts d = None"
  shows "addInstance insts targetDepSet (Suc n) i st = Some (Panic ''nil pointer dereference'')"
proof -
  have "connected_loop targetDepSet st' iid deps conn = Panic ''nil pointer dereference''"
    if "d \<in> set deps" "depMap st' d = None" for st' iid deps conn
    using that by (induction deps arbitrary: conn) (auto simp: Let_def split: option.split)
  from this [OF assms(3)] show ?thesis
    using assms by (simp add: Let_def imap_GetMap_apply)
qed

theorem executed_unknown_dependency_panics_witness:
  "addInstance [ida \<mapsto> ex_a\<lparr>Status := INSTANCE_EXECUTED\<rparr>] [] (Suc 0) (ex_a\<lparr>Status := INSTANCE_EXECUTED\<rparr>)
     (initial_state Map.empty ex_b) = Some (Panic ''nil pointer dereference'')"
  by (rule executed_unknown_dependency_panics [where d = idb]) (use ex_ab in simp_all)

end
