(* ===== verification/Leader.thy ===== *)
theory Leader
  imports Prepare Convergence
begin

text \<open>
  A query from the client to its result: \<^verbatim>\<open>managerExecuteInstance\<close> of
  \<^verbatim>\<open>consensus/manager_execute.go\<close>, \<^verbatim>\<open>ExecutePaxos\<close> and \<^verbatim>\<open>ExecuteQuery\<close> of
  \<^verbatim>\<open>consensus/manager.go\<close>.

  The prepares of uncommitted dependencies, which the code runs in goroutines of their own
  and waits for, run one after the other here.  \<open>fuel\<close> gives the depth for
  \<^verbatim>\<open>getExecutionOrder\<close> in a state of the manager; the number of instances is enough.
\<close>

section \<open>Executing an instance\<close>

text \<open>
  The closure \<^verbatim>\<open>prepare\<close>: it retries while the ballot is refused, and gives the error
  that it reports.
\<close>

fun attemptPrepare ::
    "('s, 'v) Store \<Rightarrow> ('s, 'v) clock \<Rightarrow> InstanceID \<Rightarrow> nat \<Rightarrow> ('s, 'v, error option) proc" where
  "attemptPrepare S clock iid 0 = preturn (Some (Errorf ''Prepare failed to commit instance in %v tries''))"
| "attemptPrepare S clock iid (Suc n) =
     pcatch (pbind (managerPrepareInstance S clock iid) (\<lambda>_. preturn None)) (\<lambda>err.
       if is_BallotError err
       then pbind (pderef iid) (\<lambda>inst.
            pbind (select iid on_commit_or_timeout) (\<lambda>committed.
              if committed then preturn None else attemptPrepare S clock iid n))
       else preturn (Some err))"

fun prepare_all ::
    "('s, 'v) Store \<Rightarrow> ('s, 'v) clock \<Rightarrow> InstanceID list \<Rightarrow> error list \<Rightarrow> ('s, 'v, error list) proc" where
  "prepare_all S clock [] errors = preturn errors"
| "prepare_all S clock (iid # iids) errors =
     pbind (attemptPrepare S clock iid BALLOT_FAILURE_RETRIES) (\<lambda>err.
       prepare_all S clock iids (case err of None \<Rightarrow> errors | Some e \<Rightarrow> errors @ [e]))"

definition porder ::
    "(bytes \<Rightarrow> int) \<Rightarrow> (InstanceID graph \<Rightarrow> InstanceID graph) \<Rightarrow> (('s, 'v) Manager \<Rightarrow> nat) \<Rightarrow> Instance \<Rightarrow>
     ('s, 'v, InstanceID list \<times> InstanceID list) proc" where
  "porder uuid_time iter fuel instance m es =
     (case getExecutionOrder uuid_time iter (fuel m) m instance of
        None \<Rightarrow> None
      | Some (m, r) \<Rightarrow> Some (r, m, es))"

fun execute_loop ::
    "('s, 'v) Store \<Rightarrow> (bytes \<Rightarrow> int) \<Rightarrow> (InstanceID graph \<Rightarrow> InstanceID graph) \<Rightarrow> (('s, 'v) Manager \<Rightarrow> nat) \<Rightarrow>
     ('s, 'v) clock \<Rightarrow> InstanceID \<Rightarrow> nat \<Rightarrow> ('s, 'v, unit) proc" where
  "execute_loop S uuid_time iter fuel clock iid 0 = (\<lambda>m es. None)"
| "execute_loop S uuid_time iter fuel clock iid (Suc n) =
     pbind (pderef iid) (\<lambda>instance.
     pbind (porder uuid_time iter fuel instance) (\<lambda>(exOrder, uncommitted).
       if length uncommitted > 0
       then pbind (prepare_all S clock uncommitted []) (\<lambda>errors.
            case errors of
              err # _ \<Rightarrow> pfail err
            | [] \<Rightarrow> execute_loop S uuid_time iter fuel clock iid n)
       else pout (\<lambda>m. executeDependencyChain S m exOrder iid)))"

text \<open>Every prepare takes the event that grants its lock, so the schedule bounds the rounds.\<close>

definition managerExecuteInstance ::
    "('s, 'v) Store \<Rightarrow> (bytes \<Rightarrow> int) \<Rightarrow> (InstanceID graph \<Rightarrow> InstanceID graph) \<Rightarrow> (('s, 'v) Manager \<Rightarrow> nat) \<Rightarrow>
     ('s, 'v) clock \<Rightarrow> InstanceID \<Rightarrow> ('s, 'v, unit) proc" where
  "managerExecuteInstance S uuid_time iter fuel clock iid m es =
     execute_loop S uuid_time iter fuel clock iid (Suc (length es)) m es"

section \<open>Leading an instance\<close>

text \<open>Errors of the phases are logged only.\<close>

definition log_error :: "('s, 'v, unit) proc \<Rightarrow> ('s, 'v, unit) proc" where
  "log_error p = pcatch p (\<lambda>_. preturn ())"

definition ExecutePaxos ::
    "('s, 'v) Store \<Rightarrow> (bytes \<Rightarrow> int) \<Rightarrow> (InstanceID graph \<Rightarrow> InstanceID graph) \<Rightarrow> (('s, 'v) Manager \<Rightarrow> nat) \<Rightarrow>
     ('s, 'v) clock \<Rightarrow> Instance \<Rightarrow> ('s, 'v, unit) proc" where
  "ExecutePaxos S uuid_time iter fuel clock instance =
     (let iid = InstanceID instance in
      pbind (managerPreAcceptPhase S clock instance) (\<lambda>(acceptRequired, err).
      pbind (if acceptRequired
             then pbind (pderef iid) (\<lambda>instance. log_error (managerAcceptPhase S clock instance))
             else preturn ()) (\<lambda>_.
      pbind (pbind (pderef iid) (\<lambda>instance. log_error (managerCommitPhase S instance))) (\<lambda>_.
      log_error (managerExecuteInstance S uuid_time iter fuel clock iid)))))"

text \<open>
  The client waits for the first result on its channel.  \<open>iid\<close>, \<open>perm\<close> and \<open>ch\<close> are the fresh
  identifier, the random permutation and the new channel.
\<close>

fun await_result :: "result_chan \<Rightarrow> ('s, 'v, 'v option) proc" where
  "await_result ch m [] =
     (case map_of (delivered m) ch of Some val \<Rightarrow> Some (Ret val, m, []) | None \<Rightarrow> None)"
| "await_result ch m (e # es) =
     (case map_of (delivered m) ch of
        Some val \<Rightarrow> Some (Ret val, m, e # es)
      | None \<Rightarrow> (case e of Env f \<Rightarrow> await_result ch (f m) es | _ \<Rightarrow> await_result ch m es))"

definition ExecuteQuery ::
    "('s, 'v) Store \<Rightarrow> (bytes \<Rightarrow> int) \<Rightarrow> (InstanceID graph \<Rightarrow> InstanceID graph) \<Rightarrow> (('s, 'v) Manager \<Rightarrow> nat) \<Rightarrow>
     ('s, 'v) clock \<Rightarrow> InstanceID \<Rightarrow> nat list \<Rightarrow> result_chan \<Rightarrow> Instruction \<Rightarrow> ('s, 'v, 'v option) proc" where
  "ExecuteQuery S uuid_time iter fuel clock iid perm ch instruction m es =
     (if \<not> checkLocalKeyEligibility m (Key instruction)
      then Some (Panic ''Forward to eligible replica not implemented yet'', m, es)
      else
        let instance = addListener (makeInstance m iid perm instruction) ch
        in pbind (ExecutePaxos S uuid_time iter fuel clock instance) (\<lambda>_. await_result ch) m es)"

section \<open>Leading keeps the invariant\<close>

lemma mgr_le_step_ok:
  "(mgr_inv m \<Longrightarrow> mgr_inv m') \<Longrightarrow> mgr_le m m' \<Longrightarrow> outbox m' = outbox m \<Longrightarrow> topology m' = topology m \<Longrightarrow> nodeID m' = nodeID m \<Longrightarrow>
     step_ok m m'"
  unfolding step_ok_def mgr_le_def using instance_le_grows by fastforce

lemma applyInstance_step:
  assumes "mgr_inv m" and "instances m (InstanceID i) = Some i"
  shows "step_ok m (fst (applyInstance S m i))"
proof (cases "Status i = INSTANCE_COMMITTED")
  case True
  obtain s r where eff: "instance_effect S i (store m) = (s, r)" by fastforce
  show ?thesis
  proof (cases "\<exists>val. r = Ret val")
    case True
    then obtain val where r: "r = Ret val" ..
    let ?i = "i\<lparr>Status := INSTANCE_EXECUTED\<rparr>"
    let ?m1 = "(put_instance (m\<lparr>store := s\<rparr>) ?i)\<lparr>executed := executed m @ [InstanceID i]\<rparr>"
    obtain m2 err where m2: "mgr_ReportExecuted S ?m1 ?i = (m2, err)" by fastforce
    have q: "quiet ?m1 m2" using quiet_ReportExecuted [of ?m1 S ?i] m2 by simp
    have "step_ok m ?m1"
      using executed_step [OF assms \<open>Status i = INSTANCE_COMMITTED\<close>, of s] by (intro mgr_le_step_ok) simp_all
    then have s2: "step_ok m m2" using step_ok_trans quiet_step_ok [OF q] by blast
    have s3: "step_ok m2 (notify ?i val m2)"
      by (rule mgr_le_step_ok) (simp_all add: notify_inv notify_le, simp_all add: notify_def)
    have "fst (applyInstance S m i) \<in> {m2, notify ?i val m2}"
      using \<open>Status i = INSTANCE_COMMITTED\<close> eff r m2
      by (cases err) (auto simp: applyInstance_def instance_effect_def Let_def status_defs split: if_splits)
    then show ?thesis using s2 step_ok_trans [OF s2 s3] by auto
  next
    case False
    then have "fst (applyInstance S m i) = m\<lparr>store := s\<rparr>"
      using applyInstance_fails [OF \<open>Status i = INSTANCE_COMMITTED\<close> eff] by simp
    then show ?thesis by (simp add: step_ok_def mgr_inv_def instance_grows_def)
  qed
qed (simp add: applyInstance_def)

lemma executeDependencyChain_step: "mgr_inv m \<Longrightarrow> step_ok m (fst (executeDependencyChain S m iids target))"
proof (induction iids arbitrary: m)
  case (Cons iid iids)
  show ?case
  proof (cases "instances m iid")
    case (Some i)
    have i: "instances m (InstanceID i) = Some i" using mgr_invD(1) [OF Cons.prems Some] Some by simp
    obtain m1 r where a: "applyInstance S m i = (m1, r)" by fastforce
    have s: "step_ok m m1" using applyInstance_step [OF Cons.prems i, of S] a by simp
    have "step_ok m1 (fst (executeDependencyChain S m1 iids target))"
      using Cons.IH step_okD(1) [OF s Cons.prems] by blast
    then show ?thesis
      using s step_ok_trans [OF s] Cons.IH [OF Cons.prems] Some a by (auto split: outcome.split)
  qed simp
qed simp

lemma scc_loop_quiet: "mgr_inv m \<Longrightarrow> quiet m (fst (scc_loop uuid_time dmap b sccs m exOrder))"
proof (induction sccs arbitrary: m exOrder)
  case (Cons scc sccs)
  let ?scc = "sort_Sort (iid_Less uuid_time dmap) scc"
  let ?m = "if length ?scc > 1 \<and> \<not> b then fold (recordSCC ?scc) ?scc m else m"
  have q: "quiet m ?m" using fold_recordSCC_quiet [OF Cons.prems] by simp
  have "quiet ?m (fst (scc_loop uuid_time dmap b sccs ?m (exOrder @ ?scc)))"
    using Cons.IH quietD(1) [OF q Cons.prems] by blast
  from quiet_trans [OF q this] show ?case by (auto simp: Let_def)
qed simp

lemma safe_porder [safe_intros]: "safe (porder uuid_time iter fuel inst)"
proof (rule safeI)
  fix m es r m' es'
  assume run: "porder uuid_time iter fuel inst m es = Some (r, m', es')"
  have "step_ok m m'"
  proof (rule step_okI)
    assume inv: "mgr_inv m"
    have "m' = m \<or> (\<exists>dmap b sccs. m' = fst (scc_loop uuid_time dmap b sccs m []))"
      using run unfolding porder_def getExecutionOrder_def Let_def
      by (auto split: option.splits outcome.splits prod.splits if_splits) (metis fst_conv)+
    then show "step_ok m m'" using quiet_step_ok [OF scc_loop_quiet [OF inv]] by auto
  qed
  moreover have "es' = es" using run by (auto simp: porder_def split: option.splits)
  ultimately show "step_ok m m' \<and> (\<exists>used. es = used @ es')" by simp
qed

lemma safe_attemptPrepare [safe_intros]: "safe (attemptPrepare S clock iid n)"
  by (induction n) (auto intro!: safe_intros)

lemma safe_prepare_all [safe_intros]: "safe (prepare_all S clock iids errors)"
  by (induction iids arbitrary: errors) (auto intro!: safe_intros)

lemma safe_chain [safe_intros]: "safe (pout (\<lambda>m. executeDependencyChain S m iids target))"
  by (rule safe_out) (rule executeDependencyChain_step)

lemma safe_execute_loop: "safe (execute_loop S uuid_time iter fuel clock iid n)"
proof (induction n)
  case 0
  show ?case by (rule safeI) simp
next
  case (Suc n)
  then show ?case by (auto intro!: safe_intros split: list.split)
qed

lemma safe_managerExecuteInstance [safe_intros]: "safe (managerExecuteInstance S uuid_time iter fuel clock iid)"
  using safe_execute_loop unfolding safe_def managerExecuteInstance_def by blast

lemma safe_log_error [safe_intros]: "safe p \<Longrightarrow> safe (log_error p)"
  unfolding log_error_def by (intro safe_intros)

lemma safe_ExecutePaxos [safe_intros]: "safe (ExecutePaxos S uuid_time iter fuel clock instance)"
  unfolding ExecutePaxos_def Let_def by (auto intro!: safe_intros)

text \<open>Handling a message is a step that other goroutines may take.\<close>

lemma message_step: "step_ok m (fst (HandleMessage S now m msg))"
  by (rule step_okI) (intro quiet_step_ok HandleMessage_quiet)


section \<open>Executing\<close>

text \<open>A chain that succeeds and contains its target, or starts with the target executed, executes it.\<close>

lemma chain_executes_target:
  assumes keys: "\<forall>c. st_InterferingKeys S c \<noteq> []" and "mgr_inv m" and "distinct iids" and "executeDependencyChain S m iids target = (m', Ret ())"
    and "target \<in> set iids \<or> (\<exists>i. instances m target = Some i \<and> Status i = INSTANCE_EXECUTED)"
  shows "\<exists>i. instances m' target = Some i \<and> Status i = INSTANCE_EXECUTED"
proof -
  obtain n where le: "mgr_le m m'" and n: "chain_done S m iids target m' n"
    using chain_ok [OF _ assms(2-4)] keys by blast
  show ?thesis
  proof (cases "\<exists>i. instances m target = Some i \<and> Status i = INSTANCE_EXECUTED")
    case True
    then show ?thesis using mgr_le_executed [OF le] by blast
  next
    case False
    then have "target \<in> set (take n iids)"
      using n assms(5) unfolding chain_done_def
      by (metis diff_less in_set_conv_nth length_take min.absorb2 nth_take take_all zero_less_one order_refl)
    then show ?thesis using n unfolding chain_done_def by blast
  qed
qed

lemma execute_loop_executes:
  assumes keys: "\<forall>c. st_InterferingKeys S c \<noteq> []" and iter: "\<forall>g. iter_ok g (iter g)"
    and fuel: "\<forall>m. card (dom (instances m)) \<le> fuel m"
  shows "mgr_inv m \<Longrightarrow> sched_ok es \<Longrightarrow> execute_loop S uuid_time iter fuel clock iid n m es = Some (Ret (), m', es') \<Longrightarrow>
    \<exists>i. instances m' iid = Some i \<and> Status i = INSTANCE_EXECUTED"
proof (induction n arbitrary: m es)
  case (Suc n)
  obtain i where i: "instances m iid = Some i"
    using Suc.prems(3) by (cases "instances m iid") (auto simp: pbind_def pderef_def imap_Get_def)
  have id: "InstanceID i = iid" using mgr_invD(1) [OF Suc.prems(1) i] .
  let ?f = "\<lambda>(exOrder, uncommitted).
       if length uncommitted > 0
       then pbind (prepare_all S clock uncommitted []) (\<lambda>errors.
            case errors of
              err # _ \<Rightarrow> pfail err
            | [] \<Rightarrow> execute_loop S uuid_time iter fuel clock iid n)
       else pout (\<lambda>m. executeDependencyChain S m exOrder iid)"
  have "pbind (porder uuid_time iter fuel i) ?f m es = Some (Ret (), m', es')"
    using Suc.prems(3) i by (simp add: pbind_def [of "pderef iid"] pderef_def imap_Get_def)
  then obtain x m1 es1 where ord: "porder uuid_time iter fuel i m es = Some (Ret x, m1, es1)"
    and f: "?f x m1 es1 = Some (Ret (), m', es')" by (rule pbind_Ret)
  note s1 = safeD [OF safe_porder Suc.prems(2) ord] and inv1 = step_okD(1) [OF safeD(1) [OF safe_porder Suc.prems(2) ord] Suc.prems(1)]
  obtain exOrder unc where x: "x = (exOrder, unc)" by fastforce
  show ?case
  proof (cases "unc = []")
    case False
    then have "pbind (prepare_all S clock unc []) (\<lambda>errors. case errors of err # _ \<Rightarrow> pfail err
        | [] \<Rightarrow> execute_loop S uuid_time iter fuel clock iid n) m1 es1 = Some (Ret (), m', es')"
      using f x by simp
    then obtain errs m2 es2 where p: "prepare_all S clock unc [] m1 es1 = Some (Ret errs, m2, es2)"
      and e: "execute_loop S uuid_time iter fuel clock iid n m2 es2 = Some (Ret (), m', es')"
      by (auto elim!: pbind_Ret simp: pfail_def split: list.splits)
    show ?thesis
      using Suc.IH [OF _ _ e] step_okD(1) [OF safeD(1) [OF safe_prepare_all s1(2) p] inv1] safeD(2) [OF safe_prepare_all s1(2) p]
      by blast
  next
    case True
    have get: "getExecutionOrder uuid_time iter (fuel m) m i = Some (m1, Ret (exOrder, []))"
      using ord x True by (auto simp: porder_def split: option.splits prod.splits)
    have "instances m (InstanceID i) = Some i" using i id by simp
    from getExecutionOrder_ok [OF Suc.prems(1) this iter, of "fuel m" uuid_time] fuel get
    obtain g cs where q: "quiet m m1" and spec: "order_spec uuid_time (instances m) i g cs exOrder []"
      by auto
    have d: "distinct exOrder" using spec by (simp add: order_spec_def components_ok_def)
    have "iid \<in> set exOrder \<or> Status i = INSTANCE_EXECUTED"
      using spec id order_spec_graph(2) [OF spec] unfolding order_spec_def by auto
    then have t: "iid \<in> set exOrder \<or> (\<exists>j. instances m1 iid = Some j \<and> Status j = INSTANCE_EXECUTED)"
      using mgr_le_executed [OF quietD(2) [OF q Suc.prems(1)] i] by blast
    have "executeDependencyChain S m1 exOrder iid = (m', Ret ())"
      using f x True by (auto simp: pout_def split: prod.splits)
    from chain_executes_target [OF keys inv1 d this t] show ?thesis .
  qed
qed simp

text \<open>
  C14: executing an instance that returns without error has executed it.  This holds however
  many rounds of preparing uncommitted dependencies were needed, whatever was received in them
  and whatever other goroutines did.
\<close>

theorem execute_instance_executes:
  assumes "mgr_inv m" and "sched_ok es" and "\<forall>c. st_InterferingKeys S c \<noteq> []" and "\<forall>g. iter_ok g (iter g)"
    and "\<forall>m. card (dom (instances m)) \<le> fuel m"
    and "managerExecuteInstance S uuid_time iter fuel clock iid m es = Some (Ret (), m', es')"
  shows "iid \<in> set (executed m') \<and> mgr_inv m' \<and> prefix (executed m) (executed m')"
proof -
  have "\<exists>i. instances m' iid = Some i \<and> Status i = INSTANCE_EXECUTED"
    using execute_loop_executes [OF assms(3-5,1,2)] assms(6) unfolding managerExecuteInstance_def by blast
  moreover note step_okD [OF safeD(1) [OF safe_managerExecuteInstance assms(2,6)] assms(1)]
  ultimately show ?thesis using mgr_invD(4) by blast
qed

text \<open>Computing the order only records the components of instances.\<close>

definition strip :: "Instance \<Rightarrow> Instance" where
  "strip i = i\<lparr>StronglyConnected := []\<rparr>"

definition same_instances :: "('s, 'v) Manager \<Rightarrow> ('s, 'v) Manager \<Rightarrow> bool" where
  "same_instances m m' \<longleftrightarrow> (\<forall>k. map_option strip (instances m' k) = map_option strip (instances m k))"

lemma same_instances_refl [simp]: "same_instances m m"
  by (simp add: same_instances_def)

lemma same_instances_trans: "same_instances m m' \<Longrightarrow> same_instances m' m'' \<Longrightarrow> same_instances m m''"
  by (simp add: same_instances_def)

lemma same_recordSCC:
  assumes "mgr_inv m"
  shows "same_instances m (recordSCC scc iid m)"
proof (cases "instances m iid")
  case (Some i)
  then show ?thesis using mgr_invD(1) [OF assms Some] by (simp add: same_instances_def recordSCC_def strip_def)
qed (simp add: recordSCC_def)

lemma same_fold_recordSCC: "mgr_inv m \<Longrightarrow> same_instances m (fold (recordSCC scc) iids m)"
proof (induction iids arbitrary: m)
  case (Cons iid iids)
  have "same_instances (recordSCC scc iid m) (fold (recordSCC scc) iids (recordSCC scc iid m))"
    by (rule Cons.IH [OF quietD(1) [OF recordSCC_quiet]]) (rule Cons.prems)+
  from same_instances_trans [OF same_recordSCC [OF Cons.prems] this] show ?case by simp
qed simp

lemma same_scc_loop: "mgr_inv m \<Longrightarrow> same_instances m (fst (scc_loop uuid_time dmap b sccs m exOrder))"
proof (induction sccs arbitrary: m exOrder)
  case (Cons scc sccs)
  let ?scc = "sort_Sort (iid_Less uuid_time dmap) scc"
  let ?m = "if length ?scc > 1 \<and> \<not> b then fold (recordSCC ?scc) ?scc m else m"
  have *: "mgr_inv ?m" "same_instances m ?m"
    using quietD(1) [OF fold_recordSCC_quiet] same_fold_recordSCC Cons.prems by auto
  from same_instances_trans [OF *(2) Cons.IH [OF *(1)]] show ?case by (auto simp: Let_def)
qed simp

lemma same_getExecutionOrder:
  assumes "mgr_inv m" and "getExecutionOrder uuid_time iter fuel m i = Some (m', r)"
  shows "same_instances m m'"
proof -
  have "m' = m \<or> (\<exists>dmap b sccs. m' = fst (scc_loop uuid_time dmap b sccs m []))"
    using assms(2) unfolding getExecutionOrder_def Let_def
    by (auto split: option.splits outcome.splits prod.splits if_splits) (metis fst_conv)+
  then show ?thesis using same_scc_loop [OF assms(1)] by auto
qed

lemma strip_fields:
  assumes "strip j = strip i"
  shows "Status j = Status i" and "instance_effect S j = instance_effect S i" and "ResultListeners j = ResultListeners i"
    and "Command j = Command i"
proof -
  note eqs = arg_cong [OF assms, of Status] arg_cong [OF assms, of ResultListeners] arg_cong [OF assms, of Command]
    arg_cong [OF assms, of Noop]
  then show "Status j = Status i" "ResultListeners j = ResultListeners i" "Command j = Command i"
    by (simp_all add: strip_def)
  then show "instance_effect S j = instance_effect S i"
    using eqs(4) by (simp add: strip_def instance_effect_def fun_eq_iff)
qed

lemma same_instancesD:
  "same_instances m m' \<Longrightarrow> instances m k = Some i \<Longrightarrow> \<exists>j. instances m' k = Some j \<and> strip j = strip i"
  "same_instances m m' \<Longrightarrow> instances m' k = Some j \<Longrightarrow> \<exists>i. instances m k = Some i \<and> strip j = strip i"
  unfolding same_instances_def by (metis map_option_eq_Some option.map(2))+

lemma applicable_same:
  assumes "same_instances m m'" and "applicable S (instances m) k"
  shows "applicable S (instances m') k"
proof -
  obtain i where i: "instances m k = Some i" using assms(2) unfolding applicable_def by blast
  obtain j where j: "instances m' k = Some j" "strip j = strip i" using same_instancesD(1) [OF assms(1) i] by blast
  show ?thesis using assms(2) i j(1) strip_fields(1) [OF j(2)] strip_fields(2) [OF j(2), of S] by (simp add: applicable_def)
qed

lemma order_committed:
  assumes "mgr_inv m" and "instances m iid = Some i" and "deps_known (instances m)"
    and st: "\<forall>k j. instances m k = Some j \<longrightarrow> Status j \<in> {INSTANCE_COMMITTED, INSTANCE_EXECUTED}"
    and iter: "\<forall>g. iter_ok g (iter g)" and fuel: "\<forall>m. card (dom (instances m)) \<le> fuel m"
  shows "\<exists>m1 exOrder. porder uuid_time iter fuel i m es = Some (Ret (exOrder, []), m1, es) \<and> quiet m m1 \<and> same_instances m m1 \<and>
    distinct exOrder \<and> (\<forall>k \<in> set exOrder. instances m k \<noteq> None) \<and> (Status i \<noteq> INSTANCE_EXECUTED \<longrightarrow> iid \<in> set exOrder)"
proof -
  have id: "instances m (InstanceID i) = Some i" using mgr_invD(1) [OF assms(1,2)] assms(2) by simp
  obtain m1 r where get: "getExecutionOrder uuid_time iter (fuel m) m i = Some (m1, r)" "quiet m m1"
    and r: "case r of Ret (exOrder, unc) \<Rightarrow> (\<exists>g cs. order_spec uuid_time (instances m) i g cs exOrder unc)
       | _ \<Rightarrow> \<not> deps_known (instances m)"
    using getExecutionOrder_ok [OF assms(1) id iter, of "fuel m" uuid_time] fuel by (fastforce split: outcome.splits)
  obtain exOrder unc g cs where ret: "r = Ret (exOrder, unc)" and spec: "order_spec uuid_time (instances m) i g cs exOrder unc"
    using r assms(3) by (auto split: outcome.splits)
  have "\<not> Status j < INSTANCE_COMMITTED" if "instances m k = Some j" for k j
    using st [rule_format, OF that] by (auto simp: status_defs)
  then have "set unc = {}" using spec unfolding order_spec_def by auto
  moreover have "distinct exOrder" using spec by (simp add: order_spec_def components_ok_def)
  moreover have "\<forall>k \<in> set exOrder. instances m k \<noteq> None" using order_spec_known [OF spec] by blast
  moreover have "Status i \<noteq> INSTANCE_EXECUTED \<longrightarrow> iid \<in> set exOrder"
    using spec order_spec_graph(2) [OF spec] mgr_invD(1) [OF assms(1,2)] unfolding order_spec_def by auto
  ultimately show ?thesis
    using get ret same_getExecutionOrder [OF assms(1) get(1)] by (simp add: porder_def)
qed

lemma execute_loop_chain:
  assumes "mgr_inv m" and "instances m iid = Some i" and "deps_known (instances m)"
    and app: "\<forall>k \<in> dom (instances m). applicable S (instances m) k" and keys: "\<forall>c. st_InterferingKeys S c \<noteq> []"
    and iter: "\<forall>g. iter_ok g (iter g)" and fuel: "\<forall>m. card (dom (instances m)) \<le> fuel m"
  obtains m1 exOrder m' where "quiet m m1" and "same_instances m m1" and "distinct exOrder"
    and "Status i \<noteq> INSTANCE_EXECUTED \<Longrightarrow> iid \<in> set exOrder" and "executeDependencyChain S m1 exOrder iid = (m', Ret ())"
    and "execute_loop S uuid_time iter fuel clock iid (Suc n) m es = Some (Ret (), m', es)"
proof -
  have "\<forall>k j. instances m k = Some j \<longrightarrow> Status j \<in> {INSTANCE_COMMITTED, INSTANCE_EXECUTED}"
  proof (intro allI impI)
    fix k j assume j: "instances m k = Some j"
    then have "applicable S (instances m) k" using app by blast
    with j show "Status j \<in> {INSTANCE_COMMITTED, INSTANCE_EXECUTED}" by (simp add: applicable_def)
  qed
  from order_committed [OF assms(1-3) this iter fuel, where uuid_time = uuid_time and es = es] obtain m1 exOrder where
    ord: "porder uuid_time iter fuel i m es = Some (Ret (exOrder, []), m1, es)" "quiet m m1" "same_instances m m1"
      "distinct exOrder" "\<forall>k \<in> set exOrder. instances m k \<noteq> None" "Status i \<noteq> INSTANCE_EXECUTED \<longrightarrow> iid \<in> set exOrder"
    by blast
  have "applicable S (instances m1) k" if "k \<in> set exOrder" for k
    using ord(5) that app applicable_same [OF ord(3)] by blast
  then obtain m' where chain: "executeDependencyChain S m1 exOrder iid = (m', Ret ())"
    using chain_succeeds [OF _ quietD(1) [OF ord(2) assms(1)] ord(4), of S iid] keys by blast
  then have "execute_loop S uuid_time iter fuel clock iid (Suc n) m es = Some (Ret (), m', es)"
    using assms(2) ord(1) by (simp add: pbind_def pderef_def imap_Get_def pout_def)
  then show thesis using that [OF ord(2-4) _ chain] ord(6) by blast
qed

lemma execute_loop_total:
  assumes "mgr_inv m" and "instances m iid = Some i" and "deps_known (instances m)"
    and "\<forall>k \<in> dom (instances m). applicable S (instances m) k" and "\<forall>c. st_InterferingKeys S c \<noteq> []"
    and "\<forall>g. iter_ok g (iter g)" and "\<forall>m. card (dom (instances m)) \<le> fuel m"
  shows "\<exists>m'. execute_loop S uuid_time iter fuel clock iid (Suc n) m es = Some (Ret (), m', es)"
  by (rule execute_loop_chain [OF assms, of uuid_time clock n es]) blast

text \<open>
  C23: executing an instance does not wait when everything is committed.  If every known
  instance is committed or executed with known dependencies, and the store does not refuse
  their instructions, executing a known instance returns at once without error, and the
  instance is executed.
\<close>

theorem execute_instance_total:
  assumes "mgr_inv m" and "sched_ok es" and "instances m iid = Some i" and "deps_known (instances m)"
    and "\<forall>k \<in> dom (instances m). applicable S (instances m) k" and "\<forall>c. st_InterferingKeys S c \<noteq> []"
    and "\<forall>g. iter_ok g (iter g)" and "\<forall>m. card (dom (instances m)) \<le> fuel m"
  shows "\<exists>m' j. managerExecuteInstance S uuid_time iter fuel clock iid m es = Some (Ret (), m', es) \<and>
    instances m' iid = Some j \<and> Status j = INSTANCE_EXECUTED"
proof -
  obtain m' where run: "managerExecuteInstance S uuid_time iter fuel clock iid m es = Some (Ret (), m', es)"
    using execute_loop_total [OF assms(1,3-8)] unfolding managerExecuteInstance_def by blast
  moreover have "\<exists>j. instances m' iid = Some j \<and> Status j = INSTANCE_EXECUTED"
    using execute_loop_executes [OF assms(6-8,1,2)] run unfolding managerExecuteInstance_def by blast
  ultimately show ?thesis by blast
qed

text \<open>The replica of two committed instances.\<close>

definition ex_fuel :: "('s, 'v) Manager \<Rightarrow> nat" where
  "ex_fuel m = card (dom (instances m))"

lemma ex_ab_run:
  "mgr_inv (ex_replica ex_a ex_b)" "instances (ex_replica ex_a ex_b) ida = Some ex_a" "deps_known (instances (ex_replica ex_a ex_b))"
  "\<forall>k \<in> dom (instances (ex_replica ex_a ex_b)). applicable kv_store (instances (ex_replica ex_a ex_b)) k"
  "\<forall>c. st_InterferingKeys kv_store c \<noteq> []" "\<forall>m. card (dom (instances m)) \<le> ex_fuel m"
  using ex_ab_applicable by (auto simp: ex_ab ex_fuel_def deps_known_def split: if_splits)

theorem execute_instance_total_witness:
  "\<exists>m' j. managerExecuteInstance kv_store (\<lambda>_. 0) id ex_fuel ex_clock ida (ex_replica ex_a ex_b) [Timeout] = Some (Ret (), m', [Timeout]) \<and>
     instances m' ida = Some j \<and> Status j = INSTANCE_EXECUTED"
  by (rule execute_instance_total [OF ex_ab_run(1) _ ex_ab_run(2-5) iter_ok_id ex_ab_run(6)]) simp

theorem execute_instance_executes_witness:
  "\<exists>m'. managerExecuteInstance kv_store (\<lambda>_. 0) id ex_fuel ex_clock ida (ex_replica ex_a ex_b) [] = Some (Ret (), m', []) \<and>
     ida \<in> set (executed m')"
proof -
  obtain m' where run: "managerExecuteInstance kv_store (\<lambda>_. 0) id ex_fuel ex_clock ida (ex_replica ex_a ex_b) [] = Some (Ret (), m', [])"
    using execute_loop_total [OF ex_ab_run(1-5) iter_ok_id ex_ab_run(6), of "\<lambda>_. 0" ex_clock "length ([] :: (KVStore, Value) schedule)" "[]"]
    unfolding managerExecuteInstance_def by blast
  from execute_instance_executes [OF ex_ab_run(1) sched_ok_simps(1) ex_ab_run(5) iter_ok_id ex_ab_run(6) run] run
  show ?thesis by blast
qed

section \<open>A query from end to end\<close>

text \<open>A chain that executes its target executes it last, and its listeners get the value.\<close>

lemma chain_target_last:
  assumes keys: "\<forall>c. st_InterferingKeys S c \<noteq> []"
  shows "mgr_inv m \<Longrightarrow> distinct iids \<Longrightarrow> executeDependencyChain S m iids target = (m', Ret ()) \<Longrightarrow> target \<in> set iids \<Longrightarrow>
    instances m target = Some i \<Longrightarrow> Status i = INSTANCE_COMMITTED \<Longrightarrow> ch \<notin> fst ` set (delivered m) \<Longrightarrow>
    \<forall>k j. instances m k = Some j \<longrightarrow> k \<noteq> target \<longrightarrow> ch \<notin> set (ResultListeners j) \<Longrightarrow> ResultListeners i = [ch] \<Longrightarrow>
    \<exists>s val. instance_effect S i s = (store m', Ret val) \<and> map_of (delivered m') ch = Some val"
proof (induction iids arbitrary: m)
  case (Cons iid iids)
  obtain j where j: "instances m iid = Some j"
    using Cons.prems(3) by (cases "instances m iid") auto
  have jid: "InstanceID j = iid" "instances m (InstanceID j) = Some j" using mgr_invD(1) [OF Cons.prems(1) j] j by simp_all
  show ?case
  proof (cases "Status j = INSTANCE_COMMITTED")
    case True
    obtain s r where eff: "instance_effect S j (store m) = (s, r)" by fastforce
    obtain val where r: "r = Ret val"
    proof -
      have False if "\<forall>val. r \<noteq> Ret val"
        using applyInstance_fails [OF True eff that] that Cons.prems(3) j True by (cases r) (auto simp: getStatus_def)
      then show ?thesis using that by blast
    qed
    obtain m1 where m1: "applyInstance S m j = (m1, Ret val)" "mgr_inv m1" "store m1 = s"
        "instances m1 = (instances m)(iid \<mapsto> j\<lparr>Status := INSTANCE_EXECUTED\<rparr>)"
        "delivered m1 = delivered m @ map (\<lambda>l. (l, val)) (ResultListeners j)"
      using applyInstance_succeeds [OF Cons.prems(1) jid(2) True, of S s val] eff r keys jid(1) by auto
    show ?thesis
    proof (cases "iid = target")
      case True
      then have "m' = m1" "j = i"
        using Cons.prems(3,5) j m1(1) jid(1) \<open>Status j = INSTANCE_COMMITTED\<close> by (simp_all add: getStatus_def)
      moreover have "map_of (delivered m) ch = None" using Cons.prems(7) by (simp add: map_of_eq_None_iff)
      ultimately show ?thesis using eff r m1(3,5) Cons.prems(9) by (auto simp: map_add_Some_iff)
    next
      case False
      have rest: "executeDependencyChain S m1 iids target = (m', Ret ())"
        using Cons.prems(3) j m1(1) jid(1) False True by (simp add: getStatus_def)
      have "ch \<notin> fst ` set (delivered m1)" "\<forall>k j. instances m1 k = Some j \<longrightarrow> k \<noteq> target \<longrightarrow> ch \<notin> set (ResultListeners j)"
        using Cons.prems(7,8) False j m1(4,5) by auto
      then show ?thesis using Cons.IH [OF m1(2) _ rest] Cons.prems False m1(4) by auto
    qed
  next
    case False
    then have ex: "Status j = INSTANCE_EXECUTED" and ne: "iid \<noteq> target"
      using Cons.prems(3,5,6) j by (auto simp: getStatus_def split: if_splits)
    then have "executeDependencyChain S m iids target = (m', Ret ())"
      using Cons.prems(3) j by (simp add: getStatus_def status_defs)
    then show ?thesis using Cons.IH [OF Cons.prems(1)] Cons.prems ne by auto
  qed
qed simp

text \<open>What the parts of the state that the phases of a leader leave alone look like.\<close>

definition same_results :: "('s, 'v) Manager \<Rightarrow> ('s, 'v) Manager \<Rightarrow> bool" where
  "same_results m m' \<longleftrightarrow> store m' = store m \<and> executed m' = executed m \<and> delivered m' = delivered m"

lemma preAcceptInstance_exact:
  assumes "instances m (InstanceID inst) = None" and "Status inst \<le> INSTANCE_PREACCEPTED"
    and "getInstanceDeps S (depsMngr m) (inst\<lparr>Status := INSTANCE_PREACCEPTED\<rparr>) = (d, Inr deps)"
  shows "preAcceptInstance S now m inst True =
    (m\<lparr>depsMngr := d, instances := (instances m)(InstanceID inst \<mapsto> inst\<lparr>Status := INSTANCE_PREACCEPTED,
       Dependencies := deps, commitTimeout := makePreAcceptCommitTimeout now, MaxBallot := MaxBallot inst + 1\<rparr>)\<rparr>, None)"
proof -
  note le = leD [OF assms(2)]
  have "\<not> INSTANCE_COMMITTED < Status inst"
    using le status_order(4) by (meson less_trans)
  then have init: "initialize inst = inst" by (simp add: initialize_def)
  show ?thesis
    using le assms(1,3)
    by (simp add: preAcceptInstance_def getOrSetInstance_def imap_GetOrSet_def init Let_def preaccept_def setDeps_def
        bumpBallot_def put_instance_def imap_Add_def)
qed

lemma preaccept_phase_agreed:
  assumes inv: "mgr_inv m" and new: "instances m (InstanceID inst) = None" and st: "Status inst \<le> INSTANCE_PREACCEPTED"
    and deps: "getInstanceDeps S (depsMngr m) (inst\<lparr>Status := INSTANCE_PREACCEPTED\<rparr>) = (d, Inr deps)"
    and used: "Timeout \<notin> set used" "used = [] \<or> received sel_PreAcceptResponse [last used] \<noteq> []" "\<forall>f. Env f \<notin> set used"
      "1 + length (received sel_PreAcceptResponse used) = quorumSize (length (getInstanceReplicas m inst))"
    and rs: "\<forall>r \<in> set (received sel_PreAcceptResponse used). pa_Accepted r \<and> pa_MissingInstances r = [] \<and>
      set (Dependencies (pa_Instance r)) = set deps"
  shows "\<exists>m1 b t deps'. managerPreAcceptPhase S clock inst m (used @ rest) = Some (Ret (False, None), m1, rest) \<and>
    instances m1 = (instances m)(InstanceID inst \<mapsto> inst\<lparr>Status := INSTANCE_PREACCEPTED, commitTimeout := t,
       MaxBallot := b, Dependencies := deps'\<rparr>) \<and> set deps' = set deps \<and> same_results m m1"
proof -
  let ?now = "clock (used @ rest)" and ?rs = "received sel_PreAcceptResponse used" and ?iid = "InstanceID inst"
  let ?reps = "getInstanceReplicas m inst"
  let ?i = "inst\<lparr>Status := INSTANCE_PREACCEPTED, Dependencies := deps,
    commitTimeout := makePreAcceptCommitTimeout ?now, MaxBallot := MaxBallot inst + 1\<rparr>"
  let ?m1 = "m\<lparr>depsMngr := d, instances := (instances m)(?iid \<mapsto> ?i)\<rparr>"
  let ?m2 = "?m1\<lparr>outbox := outbox ?m1 @ map (\<lambda>n. (node_id n, PreAcceptRequest (Instance_Copy ?i))) ?reps\<rparr>"
  note pre = preAcceptInstance_exact [OF new st deps, of ?now]
  have skip: "skip_invalid_status (pstep (\<lambda>m. preAcceptInstance S ?now m inst True)) m (used @ rest) = Some (Ret (), ?m1, used @ rest)"
    using skip_invalid_status_succeeds [of "\<lambda>m. preAcceptInstance S ?now m inst True" m "used @ rest"] pre by simp
  obtain m3 where aw: "await sel_PreAcceptResponse ''Timeout while awaiting pre accept responses'' (quorumSize (length ?reps)) 1 []
      ?m2 (used @ rest) = Some (Ret ?rs, m3, rest)"
    using await_succeeds [OF used(1,4,2), of _ "[]" ?m2 rest] by auto
  have m3: "m3 = ?m2" using await_no_env [OF aw used(3)] .
  have send: "sendPreAccept ?iid ?reps ?m1 (used @ rest) = Some (Ret ?rs, ?m2, rest)"
    using aw rs m3
    by (simp add: sendPreAccept_def pbind_def pderef_def imap_Get_def psend_def Let_def fold_and preturn_def)
  have same: "(\<exists>r \<in> set ?rs. set (Dependencies (pa_Instance r)) \<noteq> set (Dependencies ?i)) = False" using rs by auto
  obtain deps' where merge: "merge_loop ?iid ?rs False ?m2 rest = Some (Ret (False, None), put_instance ?m2 (?i\<lparr>Dependencies := deps'\<rparr>), rest)"
    and deps': "set deps' = set deps \<union> (\<Union>r \<in> set ?rs. set (Dependencies (pa_Instance r)))"
    using merge_loop_spec [of ?m2 ?iid ?i ?rs False rest] unfolding same by auto
  have "managerPreAcceptPhase S clock inst m (used @ rest) = Some (Ret (False, None), put_instance ?m2 (?i\<lparr>Dependencies := deps'\<rparr>), rest)"
    using send skip merge add_missing_loop_none [of ?rs S ?m2 rest] rs
    by (simp add: managerPreAcceptPhase_def mergePreAcceptAttributes_def pcatch_def pbind_def pget_def pnow_def)
  moreover have "set deps' = set deps" using deps' rs by auto
  ultimately show ?thesis
    by (intro exI [of _ "put_instance ?m2 (?i\<lparr>Dependencies := deps'\<rparr>)"] exI [of _ "MaxBallot inst + 1"]
        exI [of _ "makePreAcceptCommitTimeout ?now"] exI [of _ deps']) (simp add: same_results_def put_instance_def imap_Add_def)
qed

lemma commit_phase_exact:
  assumes "instances m (InstanceID i) = Some i" and "Status i \<le> INSTANCE_COMMITTED" and "st_InterferingKeys S (Command i) \<noteq> []"
  shows "\<exists>m' b. managerCommitPhase S i m es = Some (Ret (), m', es) \<and>
    instances m' = (instances m)(InstanceID i \<mapsto> i\<lparr>Status := INSTANCE_COMMITTED, MaxBallot := b\<rparr>) \<and> same_results m m' \<and>
    (\<forall>n \<in> set (getInstanceReplicas m i).
       (node_id n, CommitRequest (Instance_Copy (i\<lparr>Status := INSTANCE_COMMITTED, MaxBallot := b\<rparr>))) \<in> set (outbox m'))"
proof -
  let ?j = "i\<lparr>Status := INSTANCE_COMMITTED, MaxBallot := MaxBallot i + 1\<rparr>"
  obtain m1 err where ack: "mgr_ReportAcknowledged S (put_instance m ?j) ?j = (m1, err)" by fastforce
  have "err = None" using ReportAcknowledged_ok [of S ?j "put_instance m ?j"] assms(3) ack by simp
  then have com: "commitInstance S m i True = (m1, None)"
    using leD [OF assms(2)] ack
    by (simp add: commitInstance_def getOrSetInstance_existing [OF assms(1)] commit_def Let_def setDeps_def bumpBallot_def)
  have q: "quiet (put_instance m ?j) m1" using quiet_ReportAcknowledged [of "put_instance m ?j" S ?j] ack by simp
  have inst: "instances m1 = (instances m)(InstanceID i \<mapsto> ?j)"
    using instances_mgr_deps(2) [of S "put_instance m ?j" ?j] ack by simp
  let ?m' = "m1\<lparr>outbox := outbox m1 @ map (\<lambda>n. (node_id n, CommitRequest (Instance_Copy ?j))) (getInstanceReplicas m i)\<rparr>"
  have "skip_invalid_status (pstep (\<lambda>m. commitInstance S m i True)) m es = Some (Ret (), m1, es)"
    using skip_invalid_status_succeeds [of "\<lambda>m. commitInstance S m i True" m es] com by simp
  then have "managerCommitPhase S i m es = Some (Ret (), ?m', es)"
    by (simp add: managerCommitPhase_def pbind_def pget_def sendCommit_def pderef_def imap_Get_def inst psend_def)
  then show ?thesis
    using inst quietD(3,4,7) [OF q] by (intro exI [of _ ?m'] exI [of _ "MaxBallot i + 1"]) (simp add: same_results_def)
qed

lemma execute_loop_delivers:
  assumes "mgr_inv m" and i: "instances m iid = Some i" "Status i = INSTANCE_COMMITTED" "ResultListeners i = [ch]"
    and "deps_known (instances m)" and "\<forall>k \<in> dom (instances m). applicable S (instances m) k"
    and keys: "\<forall>c. st_InterferingKeys S c \<noteq> []" and "\<forall>g. iter_ok g (iter g)" and "\<forall>m. card (dom (instances m)) \<le> fuel m"
    and ch: "ch \<notin> fst ` set (delivered m)" "\<forall>k j. instances m k = Some j \<longrightarrow> k \<noteq> iid \<longrightarrow> ch \<notin> set (ResultListeners j)"
  shows "\<exists>m' s val. execute_loop S uuid_time iter fuel clock iid (Suc n) m es = Some (Ret (), m', es) \<and>
    instance_effect S i s = (store m', Ret val) \<and> map_of (delivered m') ch = Some val"
proof -
  obtain m1 exOrder m' where m1: "quiet m m1" "same_instances m m1" and ord: "distinct exOrder" "iid \<in> set exOrder"
    and chain: "executeDependencyChain S m1 exOrder iid = (m', Ret ())"
    and run: "execute_loop S uuid_time iter fuel clock iid (Suc n) m es = Some (Ret (), m', es)"
    using execute_loop_chain [OF assms(1,2,5-9), of uuid_time clock n es] i(2) by (auto simp: status_defs)
  obtain j where j: "instances m1 iid = Some j" "strip j = strip i" using same_instancesD(1) [OF m1(2) i(1)] by blast
  have "ch \<notin> set (ResultListeners x)" if x: "instances m1 k = Some x" "k \<noteq> iid" for k x
  proof -
    obtain y where y: "instances m k = Some y" "strip x = strip y" using same_instancesD(2) [OF m1(2) x(1)] by blast
    then show ?thesis using ch(2) x(2) strip_fields(3) [OF y(2)] by simp
  qed
  then have "\<forall>k j. instances m1 k = Some j \<longrightarrow> k \<noteq> iid \<longrightarrow> ch \<notin> set (ResultListeners j)" by blast
  moreover have "ch \<notin> fst ` set (delivered m1)" using ch(1) quietD(7) [OF m1(1)] by simp
  ultimately obtain s val where "instance_effect S j s = (store m', Ret val)" "map_of (delivered m') ch = Some val"
    using chain_target_last [OF keys quietD(1) [OF m1(1) assms(1)] ord(1) chain ord(2) j(1), of ch] strip_fields(1,3) [OF j(2)] i(2,3)
    by auto
  then show ?thesis using run strip_fields(2) [OF j(2), of S] by auto
qed

lemma sched_ok_no_env: "\<forall>f. Env f \<notin> set es \<Longrightarrow> sched_ok es"
  by (simp add: sched_ok_def)

lemma await_result_here: "map_of (delivered m) ch = Some val \<Longrightarrow> await_result ch m es = Some (Ret val, m, es)"
  by (cases es) simp_all

text \<open>A quorum that agrees with the leader: the instance is committed with its dependencies.\<close>

definition agreed :: "('s, 'v) Manager \<Rightarrow> Instance \<Rightarrow> InstanceID list \<Rightarrow> ('s, 'v) schedule \<Rightarrow> bool" where
  "agreed m inst deps used \<longleftrightarrow>
     Timeout \<notin> set used \<and> (used = [] \<or> received sel_PreAcceptResponse [last used] \<noteq> []) \<and> (\<forall>f. Env f \<notin> set used) \<and>
     1 + length (received sel_PreAcceptResponse used) = quorumSize (length (getInstanceReplicas m inst)) \<and>
     (\<forall>r \<in> set (received sel_PreAcceptResponse used). pa_Accepted r \<and> pa_MissingInstances r = [] \<and>
        set (Dependencies (pa_Instance r)) = set deps)"

lemma paxos_agreed:
  assumes "mgr_inv m" and "instances m (InstanceID inst) = None" and "Status inst \<le> INSTANCE_PREACCEPTED"
    and "getInstanceDeps S (depsMngr m) (inst\<lparr>Status := INSTANCE_PREACCEPTED\<rparr>) = (d, Inr deps)"
    and "agreed m inst deps used" and "sched_ok es" and "st_InterferingKeys S (Command inst) \<noteq> []"
  obtains m2 i2 where "ExecutePaxos S uuid_time iter fuel clock inst m (used @ es) =
      log_error (managerExecuteInstance S uuid_time iter fuel clock (InstanceID inst)) m2 es"
    and "mgr_inv m2" and "same_results m m2" and "instances m2 = (instances m)(InstanceID inst \<mapsto> i2)"
    and "Status i2 = INSTANCE_COMMITTED" and "set (Dependencies i2) = set deps" and "Command i2 = Command inst"
    and "Noop i2 = Noop inst" and "ResultListeners i2 = ResultListeners inst"
proof -
  let ?iid = "InstanceID inst"
  note used = assms(5) [unfolded agreed_def]
  obtain m1 b t deps' where pre: "managerPreAcceptPhase S clock inst m (used @ es) = Some (Ret (False, None), m1, es)"
    and i1: "instances m1 = (instances m)(?iid \<mapsto> inst\<lparr>Status := INSTANCE_PREACCEPTED, commitTimeout := t, MaxBallot := b, Dependencies := deps'\<rparr>)"
    and deps': "set deps' = set deps" and r1: "same_results m m1"
    using preaccept_phase_agreed [OF assms(1-4), of used clock es] used by blast
  let ?i1 = "inst\<lparr>Status := INSTANCE_PREACCEPTED, commitTimeout := t, MaxBallot := b, Dependencies := deps'\<rparr>"
  obtain m2 b2 where com: "managerCommitPhase S ?i1 m1 es = Some (Ret (), m2, es)"
    and i2: "instances m2 = (instances m1)(?iid \<mapsto> ?i1\<lparr>Status := INSTANCE_COMMITTED, MaxBallot := b2\<rparr>)" and r2: "same_results m1 m2"
    using commit_phase_exact [of m1 ?i1 S es] assms(7) i1 by (auto simp: less_imp_le)
  have "sched_ok (used @ es)" using sched_ok_no_env [of used] used assms(6) by (simp add: sched_ok_append)
  note s1 = step_okD(1) [OF safeD(1) [OF safe_managerPreAcceptPhase this pre] assms(1)]
  have inv2: "mgr_inv m2" using step_okD(1) [OF safeD(1) [OF safe_managerCommitPhase assms(6) com] s1] .
  have "instances m1 ?iid = Some ?i1" using i1 by simp
  then have run: "ExecutePaxos S uuid_time iter fuel clock inst m (used @ es) =
      log_error (managerExecuteInstance S uuid_time iter fuel clock ?iid) m2 es"
    using pre com by (simp add: ExecutePaxos_def Let_def pbind_def preturn_def pderef_def imap_Get_def log_error_def pcatch_def)
  show thesis
    by (rule that [OF run inv2, of "?i1\<lparr>Status := INSTANCE_COMMITTED, MaxBallot := b2\<rparr>"])
      (use r1 r2 i1 i2 deps' in \<open>simp_all add: same_results_def\<close>)
qed

text \<open>The instance of a query.\<close>

lemma query_instance:
  assumes "inst = addListener (makeInstance m iid perm instruction) ch"
  shows "InstanceID inst = iid" "Status inst = 0" "Command inst = instruction" "\<not> Noop inst" "ResultListeners inst = [ch]"
    "Status inst \<le> INSTANCE_PREACCEPTED"
  by (simp_all add: assms addListener_def makeInstance_def Let_def zero_Instance_def)

lemma paxos_delivers:
  assumes "mgr_inv m" and "instances m iid = None" and "deps_known (instances m)"
    and "\<forall>k \<in> dom (instances m). applicable S (instances m) k" and "\<forall>c. st_InterferingKeys S c \<noteq> []"
    and "\<forall>g. iter_ok g (iter g)" and "\<forall>m. card (dom (instances m)) \<le> fuel m"
    and "\<forall>s. \<exists>s' val. st_ExecuteInstruction S s instruction = (s', Ret val)"
    and "inst = addListener (makeInstance m iid perm instruction) ch"
    and "getInstanceDeps S (depsMngr m) (inst\<lparr>Status := INSTANCE_PREACCEPTED\<rparr>) = (d, Inr deps)"
    and "set deps \<subseteq> dom (instances m)" and "ch \<notin> fst ` set (delivered m)"
    and "\<forall>k j. instances m k = Some j \<longrightarrow> ch \<notin> set (ResultListeners j)"
    and "agreed m inst deps used" and "sched_ok es"
  shows "\<exists>m' s val. ExecutePaxos S uuid_time iter fuel clock inst m (used @ es) = Some (Ret (), m', es) \<and>
    st_ExecuteInstruction S s instruction = (store m', Ret val) \<and> map_of (delivered m') ch = Some val \<and>
    (\<exists>j. instances m' iid = Some j \<and> Status j = INSTANCE_EXECUTED)"
proof -
  note inst = query_instance [OF assms(9)]
  obtain m2 i2 where run: "ExecutePaxos S uuid_time iter fuel clock inst m (used @ es) =
      log_error (managerExecuteInstance S uuid_time iter fuel clock iid) m2 es"
    and inv2: "mgr_inv m2" and r2: "same_results m m2" and m2: "instances m2 = (instances m)(iid \<mapsto> i2)"
    and i2: "Status i2 = INSTANCE_COMMITTED" "set (Dependencies i2) = set deps" "Command i2 = instruction" "\<not> Noop i2"
      "ResultListeners i2 = [ch]"
    using paxos_agreed [OF assms(1) _ inst(6) assms(10,14,15), of uuid_time iter fuel clock] assms(2,5) inst by (metis (no_types))
  have "deps_known (instances m2)"
    using assms(3,11) i2(2) unfolding m2 deps_known_def by auto
  moreover have "\<forall>k \<in> dom (instances m2). applicable S (instances m2) k"
  proof
    fix k assume "k \<in> dom (instances m2)"
    then show "applicable S (instances m2) k"
      using assms(4,8) i2 unfolding m2 applicable_def by (cases "k = iid") (auto simp: instance_effect_def)
  qed
  moreover have "ch \<notin> fst ` set (delivered m2)" using assms(12) r2 by (simp add: same_results_def)
  moreover have "\<forall>k j. instances m2 k = Some j \<longrightarrow> k \<noteq> iid \<longrightarrow> ch \<notin> set (ResultListeners j)" using assms(13) m2 by simp
  moreover have "instances m2 iid = Some i2" using m2 by simp
  ultimately obtain m' s val where ex: "managerExecuteInstance S uuid_time iter fuel clock iid m2 es = Some (Ret (), m', es)"
    and eff: "instance_effect S i2 s = (store m', Ret val)" and del: "map_of (delivered m') ch = Some val"
    using execute_loop_delivers [OF inv2, of iid i2 ch S iter fuel uuid_time clock "length es" es] assms(5-7) i2(1,5)
    unfolding managerExecuteInstance_def by blast
  have "ExecutePaxos S uuid_time iter fuel clock inst m (used @ es) = Some (Ret (), m', es)"
    using run ex by (simp add: log_error_def pcatch_def)
  moreover have "\<exists>j. instances m' iid = Some j \<and> Status j = INSTANCE_EXECUTED"
    using execute_loop_executes [OF assms(5-7) inv2 assms(15)] ex unfolding managerExecuteInstance_def by blast
  moreover have "st_ExecuteInstruction S s instruction = (store m', Ret val)"
    using eff i2(3,4) by (simp add: instance_effect_def)
  ultimately show ?thesis using del by blast
qed


text \<open>The first query of a leader with two peers.\<close>

definition ex_first :: "(KVStore, Value) Manager" where
  "ex_first = ex_leader NewKVStore"

definition ex_set :: Instruction where
  "ex_set = NewInstruction ''SET'' ''k'' [''v''] (ex_time 5)"

definition ex_query :: Instance where
  "ex_query = addListener (makeInstance ex_first ida [0, 1] ex_set) 7"

definition ex_agree :: "(KVStore, Value) schedule" where
  "ex_agree = [Recv (PreAcceptResp \<lparr>pa_Accepted = True, pa_MaxBallot = 1, pa_Instance = ex_query, pa_MissingInstances = []\<rparr>)]"

lemma ex_first_facts:
  "mgr_inv ex_first" "instances ex_first = Map.empty" "delivered ex_first = []" "checkLocalKeyEligibility ex_first (Key ex_set)"
  "\<exists>d. getInstanceDeps kv_store (depsMngr ex_first) (ex_query\<lparr>Status := INSTANCE_PREACCEPTED\<rparr>) = (d, Inr [])"
proof -
  show "mgr_inv ex_first" unfolding ex_first_def by (rule ex_leader_inv)
  show "instances ex_first = Map.empty" "delivered ex_first = []"
    by (simp_all add: ex_first_def ex_leader_def NewManager_def NewInstanceMap_def)
  show "checkLocalKeyEligibility ex_first (Key ex_set)" by code_simp
  have "snd (getInstanceDeps kv_store (depsMngr ex_first) (ex_query\<lparr>Status := INSTANCE_PREACCEPTED\<rparr>)) = Inr []" by code_simp
  then show "\<exists>d. getInstanceDeps kv_store (depsMngr ex_first) (ex_query\<lparr>Status := INSTANCE_PREACCEPTED\<rparr>) = (d, Inr [])"
    by (metis surjective_pairing)
qed

lemma ex_agreed: "agreed ex_first ex_query [] ex_agree"
proof -
  have "length (getInstanceReplicas ex_first ex_query) = 2" by code_simp
  moreover have "Dependencies ex_query = []" by code_simp
  ultimately show ?thesis by (simp add: agreed_def ex_agree_def quorumSize_def)
qed

lemma ex_set_accepted: "\<exists>s' val. st_ExecuteInstruction kv_store s ex_set = (s', Ret val)"
  by (auto simp: ex_set_def kv_store_def NewInstruction_def ExecuteInstruction_def
      GET_def SET_def DEL_def validateSet_def kv_set_def ex_time_def Time_IsZero_def Let_def split: option.splits)


text \<open>
  A chain that reaches an instance with a refused instruction, or does not reach it, tells its
  listeners nothing.
\<close>

lemma chain_refused_silent:
  assumes keys: "\<forall>c. st_InterferingKeys S c \<noteq> []" and np: "\<forall>s c p. snd (st_ExecuteInstruction S s c) \<noteq> Panic p"
  shows "mgr_inv m \<Longrightarrow> distinct iids \<Longrightarrow> executeDependencyChain S m iids target = (m', r) \<Longrightarrow>
    \<forall>k \<in> set iids. instances m k \<noteq> None \<Longrightarrow>
    instances m target = Some i \<Longrightarrow> Status i = INSTANCE_COMMITTED \<Longrightarrow> \<forall>s. \<exists>s' e. instance_effect S i s = (s', Err e) \<Longrightarrow>
    ch \<notin> fst ` set (delivered m) \<Longrightarrow>
    \<forall>k j. instances m k = Some j \<longrightarrow> k \<noteq> target \<longrightarrow> ch \<notin> set (ResultListeners j) \<Longrightarrow>
    ch \<notin> fst ` set (delivered m') \<and> (\<forall>p. r \<noteq> Panic p)"
proof (induction iids arbitrary: m)
  case (Cons iid iids)
  obtain j where j: "instances m iid = Some j" using Cons.prems(4) by auto
  have jid: "InstanceID j = iid" "instances m (InstanceID j) = Some j" using mgr_invD(1) [OF Cons.prems(1) j] j by simp_all
  have known: "\<forall>k \<in> set iids. instances m k \<noteq> None" using Cons.prems(4) by simp
  show ?case
  proof (cases "Status j = INSTANCE_COMMITTED")
    case True
    obtain s r1 where eff: "instance_effect S j (store m) = (s, r1)" by fastforce
    show ?thesis
    proof (cases "\<exists>val. r1 = Ret val")
      case False
      have "\<forall>p. r1 \<noteq> Panic p" using eff np by (auto simp: instance_effect_def split: if_splits) (metis snd_conv)
      then obtain e where "r1 = Err e" using False by (cases r1) auto
      then show ?thesis
        using applyInstance_fails [OF True eff] Cons.prems(3,8) j True by (auto simp: getStatus_def)
    next
      case val: True
      then obtain val where r1: "r1 = Ret val" ..
      have ne: "iid \<noteq> target"
      proof
        assume "iid = target"
        then show False using Cons.prems(5,7) j eff r1 by (metis Pair_inject option.inject outcome.distinct(1))
      qed
      obtain m1 where m1: "applyInstance S m j = (m1, Ret val)" "mgr_inv m1"
          "instances m1 = (instances m)(iid \<mapsto> j\<lparr>Status := INSTANCE_EXECUTED\<rparr>)"
          "delivered m1 = delivered m @ map (\<lambda>l. (l, val)) (ResultListeners j)"
        using applyInstance_succeeds [OF Cons.prems(1) jid(2) True, of S s val] eff r1 keys jid(1) by auto
      have rest: "executeDependencyChain S m1 iids target = (m', r)"
        using Cons.prems(3) j m1(1) jid(1) ne True by (simp add: getStatus_def)
      have "ch \<notin> fst ` set (delivered m1)" "\<forall>k j. instances m1 k = Some j \<longrightarrow> k \<noteq> target \<longrightarrow> ch \<notin> set (ResultListeners j)"
        "\<forall>k \<in> set iids. instances m1 k \<noteq> None"
        using Cons.prems(8,9) ne j m1(3,4) known by auto
      then show ?thesis using Cons.IH [OF m1(2) _ rest] Cons.prems ne m1(3) by auto
    qed
  next
    case False
    then show ?thesis
      using Cons.IH [OF Cons.prems(1)] Cons.prems known j by (auto simp: getStatus_def split: if_splits)
  qed
qed auto

lemma await_result_none:
  "map_of (delivered m) ch = None \<Longrightarrow> \<forall>f. Env f \<notin> set es \<Longrightarrow> await_result ch m es = None"
proof (induction es arbitrary: m)
  case (Cons e es)
  then show ?case by (cases e) auto
qed simp


lemma kv_store_no_panic: "snd (st_ExecuteInstruction kv_store s c) \<noteq> Panic p"
  by (auto simp: kv_store_def ExecuteInstruction_def kv_set_def kv_get_def kv_del_def validateSet_def validateGet_def validateDel_def
      Let_def split: option.splits if_splits prod.splits list.splits)

definition ex_refused :: Instruction where
  "ex_refused = NewInstruction ''SET'' ''k'' [] (ex_time 5)"

lemma ex_refused_err: "\<exists>s' e. st_ExecuteInstruction kv_store s ex_refused = (s', Err e)"
  by (auto simp: ex_refused_def kv_store_def NewInstruction_def ExecuteInstruction_def GET_def SET_def validateSet_def Let_def)


text \<open>
  C33: a leader commits without a quorum.  When the preaccept phase times out without a single
  response, the leader logs the error, commits the instance with its own dependencies, tells
  all the replicas to commit it, and goes on to execute it.
\<close>

theorem timeout_still_commits:
  assumes "instances m (InstanceID inst) = None" and "Status inst \<le> INSTANCE_PREACCEPTED"
    and "getInstanceDeps S (depsMngr m) (inst\<lparr>Status := INSTANCE_PREACCEPTED\<rparr>) = (d, Inr deps)"
    and "st_InterferingKeys S (Command inst) \<noteq> []" and "2 \<le> length (getInstanceReplicas m inst)"
  shows "\<exists>m2 j. ExecutePaxos S uuid_time iter fuel clock inst m (Timeout # es) =
      log_error (managerExecuteInstance S uuid_time iter fuel clock (InstanceID inst)) m2 es \<and>
    instances m2 (InstanceID inst) = Some j \<and> Status j = INSTANCE_COMMITTED \<and> Dependencies j = deps \<and>
    (\<forall>n \<in> set (getInstanceReplicas m inst). (node_id n, CommitRequest (Instance_Copy j)) \<in> set (outbox m2))"
proof -
  let ?iid = "InstanceID inst" and ?now = "clock (Timeout # es)" and ?reps = "getInstanceReplicas m inst"
  let ?i = "inst\<lparr>Status := INSTANCE_PREACCEPTED, Dependencies := deps,
    commitTimeout := makePreAcceptCommitTimeout ?now, MaxBallot := MaxBallot inst + 1\<rparr>"
  let ?m1 = "m\<lparr>depsMngr := d, instances := (instances m)(?iid \<mapsto> ?i)\<rparr>"
  let ?m2 = "?m1\<lparr>outbox := outbox ?m1 @ map (\<lambda>n. (node_id n, PreAcceptRequest (Instance_Copy ?i))) ?reps\<rparr>"
  note pre = preAcceptInstance_exact [OF assms(1-3), of ?now]
  have skip: "skip_invalid_status (pstep (\<lambda>m. preAcceptInstance S ?now m inst True)) m (Timeout # es) = Some (Ret (), ?m1, Timeout # es)"
    using skip_invalid_status_succeeds [of "\<lambda>m. preAcceptInstance S ?now m inst True" m "Timeout # es"] pre by simp
  have "1 < quorumSize (length ?reps)" using assms(5) by (auto simp: quorumSize_def)
  then have "sendPreAccept ?iid ?reps ?m1 (Timeout # es) = Some (Err (TimeoutError ''Timeout while awaiting pre accept responses''), ?m2, es)"
    by (simp add: sendPreAccept_def pbind_def pderef_def imap_Get_def psend_def)
  then have phase: "managerPreAcceptPhase S clock inst m (Timeout # es) =
      Some (Ret (False, Some (TimeoutError ''Timeout while awaiting pre accept responses'')), ?m2, es)"
    using skip by (simp add: managerPreAcceptPhase_def pcatch_def pbind_def pget_def pnow_def preturn_def)
  have i: "instances ?m2 (InstanceID ?i) = Some ?i" by simp
  obtain m3 b where com: "managerCommitPhase S ?i ?m2 es = Some (Ret (), m3, es)"
    and m3: "instances m3 = (instances ?m2)(InstanceID ?i \<mapsto> ?i\<lparr>Status := INSTANCE_COMMITTED, MaxBallot := b\<rparr>)"
      "\<forall>n \<in> set (getInstanceReplicas ?m2 ?i).
        (node_id n, CommitRequest (Instance_Copy (?i\<lparr>Status := INSTANCE_COMMITTED, MaxBallot := b\<rparr>))) \<in> set (outbox m3)"
    using commit_phase_exact [OF i, of S es] assms(4) by (auto simp: less_imp_le)
  have "getInstanceReplicas ?m2 ?i = ?reps" by (rule getInstanceReplicas_cong) simp_all
  moreover have "ExecutePaxos S uuid_time iter fuel clock inst m (Timeout # es) =
      log_error (managerExecuteInstance S uuid_time iter fuel clock ?iid) m3 es"
    using phase com by (simp add: ExecutePaxos_def Let_def pbind_def preturn_def pderef_def imap_Get_def log_error_def pcatch_def)
  ultimately show ?thesis using m3 by (intro exI [of _ m3] exI [of _ "?i\<lparr>Status := INSTANCE_COMMITTED, MaxBallot := b\<rparr>"]) simp
qed

theorem timeout_still_commits_witness:
  "\<exists>m2 j. ExecutePaxos kv_store (\<lambda>_. 0) id ex_fuel ex_clock ex_query ex_first [Timeout] =
       log_error (managerExecuteInstance kv_store (\<lambda>_. 0) id ex_fuel ex_clock (InstanceID ex_query)) m2 [] \<and>
     instances m2 (InstanceID ex_query) = Some j \<and> Status j = INSTANCE_COMMITTED"
proof -
  obtain d where d: "getInstanceDeps kv_store (depsMngr ex_first) (ex_query\<lparr>Status := INSTANCE_PREACCEPTED\<rparr>) = (d, Inr [])"
    using ex_first_facts(5) by blast
  have "length (getInstanceReplicas ex_first ex_query) = 2" by code_simp
  with timeout_still_commits [OF _ query_instance(6) [OF ex_query_def] d, of "\<lambda>_. 0" id ex_fuel ex_clock "[]"] show ?thesis
    by (auto simp: ex_first_facts)
qed

lemma ex_paxos_run:
  "\<exists>m' s val. ExecutePaxos kv_store (\<lambda>_. 0) id ex_fuel ex_clock ex_query ex_first (ex_agree @ []) = Some (Ret (), m', []) \<and>
     st_ExecuteInstruction kv_store s ex_set = (store m', Ret val) \<and> map_of (delivered m') 7 = Some val \<and>
     (\<exists>j. instances m' ida = Some j \<and> Status j = INSTANCE_EXECUTED)"
proof -
  obtain d where d: "getInstanceDeps kv_store (depsMngr ex_first) (ex_query\<lparr>Status := INSTANCE_PREACCEPTED\<rparr>) = (d, Inr [])"
    using ex_first_facts(5) by blast
  show ?thesis
    by (rule paxos_delivers [OF ex_first_facts(1) _ _ _ _ iter_ok_id ex_ab_run(6) _ ex_query_def d _ _ _ ex_agreed])
      (simp_all add: ex_first_facts deps_known_def ex_set_accepted)
qed


section \<open>Bounds\<close>

lemma select_bind_length:
  assumes run: "pbind (select iid pick) f m es = Some (r, m', es')" and es: "sched_ok es" and safe: "\<And>a. safe (f a)"
  shows "length es' < length es"
proof -
  obtain r1 m2 es2 where sel: "select iid pick m es = Some (r1, m2, es2)"
    using run by (cases "select iid pick m es") (auto simp: pbind_def)
  note len = select_length [OF sel] and ok = safeD(2) [OF safe_select es sel]
  show ?thesis
  proof (cases r1)
    case (Ret a)
    then have "f a m2 es2 = Some (r, m', es')" using run sel by (simp add: pbind_def)
    from safe_length [OF safe ok this] len show ?thesis by simp
  qed (use run sel len in \<open>auto simp: pbind_def\<close>)
qed

lemma prepare_consumes:
  assumes "sched_ok es" and "managerPrepareInstance S clock iid m es = Some (r, m', es')" and "\<forall>p. r \<noteq> Panic p"
  shows "length es' < length es"
proof -
  let ?f = "\<lambda>inst. pstep (\<lambda>m. (fst (getOrSetInstance S m inst), None))"
  let ?rest = "\<lambda>_ :: unit. pbind (prepareShouldProceed clock iid) (\<lambda>proceed.
       if \<not> proceed then preturn ()
       else
         pbind (\<lambda>m es. defer_loop S clock iid (Suc (length es)) m es) (\<lambda>go_on.
           if \<not> go_on then preturn ()
           else
             pbind (prepareShouldProceed clock iid) (\<lambda>proceed.
               if \<not> proceed then preturn () else managerPreparePhase S clock iid)))"
  obtain m1 where run: "pbind (select iid on_lock) ?rest m1 es = Some (r, m', es')"
    using assms(2,3) unfolding managerPrepareInstance_def
    by (auto simp: pbind_def [of "pderef iid"] pderef_def pbind_def [of "pstep _"] pstep_def split: option.splits)
  have "safe (?rest x)" for x
    by (intro safe_intros) (auto intro!: safe_intros simp del: defer_loop.simps)
  from select_bind_length [OF run assms(1) this] show ?thesis .
qed

lemma attempt_consumes:
  assumes "sched_ok es" and "attemptPrepare S clock iid (Suc n) m es = Some (Ret x, m', es')"
  shows "length es' < length es"
proof -
  obtain r m1 es1 where p: "managerPrepareInstance S clock iid m es = Some (r, m1, es1)"
    using assms(2) by (cases "managerPrepareInstance S clock iid m es") (auto simp: pcatch_def pbind_def)
  have np: "\<forall>q. r \<noteq> Panic q" using assms(2) p by (auto simp: pcatch_def pbind_def)
  note len = prepare_consumes [OF assms(1) p np] and ok = safeD(2) [OF safe_managerPrepareInstance assms(1) p]
  let ?h = "\<lambda>err. if is_BallotError err
       then pbind (pderef iid) (\<lambda>inst.
            pbind (select iid on_commit_or_timeout) (\<lambda>committed.
              if committed then preturn None else attemptPrepare S clock iid n))
       else preturn (Some err)"
  have safe: "safe (?h err)" for err by (auto intro!: safe_intros)
  show ?thesis
  proof (cases r)
    case (Ret a)
    then show ?thesis using assms(2) p len by (simp add: pcatch_def pbind_def preturn_def)
  next
    case (Err err)
    then have "?h err m1 es1 = Some (Ret x, m', es')" using assms(2) p by (simp add: pcatch_def pbind_def)
    from safe_length [OF safe ok this] len show ?thesis by simp
  qed (use np in blast)
qed



end
