(* ===== verification/System.thy ===== *)
theory System
  imports Leader
begin

text \<open>
  Several replicas and the network between them.  A replica takes the atomic steps of the
  package \<^verbatim>\<open>consensus\<close>: it handles a message that has reached it, and its goroutines
  run the sections of the phases that lie between two waits.  The steps of all replicas
  interleave in any order.  A message travels as bytes; the network loses, repeats and reorders
  messages at will, and a message may reach any replica.

  That the goroutines of a leader take such steps only is shown in the theory of runs, from the
  definition of \<^verbatim>\<open>ExecuteQuery\<close>.
\<close>

section \<open>One replica\<close>

text \<open>
  Besides the manager a replica has the messages that have reached it, the replies it has sent
  (requests are in the outbox of the manager), and the instances that it has made for clients.
\<close>

record ('s, 'v) Replica =
  r_mgr :: "('s, 'v) Manager"
  r_heard :: "consensus_msg set"
  r_replies :: "consensus_msg set"
  r_proposed :: "Instance set"

definition new_replica :: "Topology \<Rightarrow> 's \<Rightarrow> ('s, 'v) Replica" where
  "new_replica t s = \<lparr>r_mgr = NewManager t s, r_heard = {}, r_replies = {}, r_proposed = {}\<rparr>"

abbreviation set_mgr :: "('s, 'v) Replica \<Rightarrow> ('s, 'v) Manager \<Rightarrow> ('s, 'v) Replica" where
  "set_mgr \<rho> m \<equiv> \<rho>\<lparr>r_mgr := m\<rparr>"

text \<open>The instances in a message.\<close>

fun carried :: "consensus_msg \<Rightarrow> Instance set" where
  "carried (PreAcceptRequest i) = {i}"
| "carried (PreAcceptResp r) = insert (pa_Instance r) (set (pa_MissingInstances r))"
| "carried (AcceptRequest i missing) = insert i (set missing)"
| "carried (CommitRequest i) = {i}"
| "carried (PrepareResp r) = set_option (p_Instance r)"
| "carried (PrepareSuccessorResponse i) = set_option i"
| "carried (InstanceResponse is) = set is"
| "carried _ = {}"

text \<open>
  A goroutine works with an instance of the map, with one that was in a message, or with one
  that was made for a client.
\<close>

definition lasting :: "('s, 'v) Replica \<Rightarrow> Instance set" where
  "lasting \<rho> = (\<Union>msg \<in> r_heard \<rho>. carried msg) \<union> r_proposed \<rho>"

definition usable :: "('s, 'v) Replica \<Rightarrow> Instance set" where
  "usable \<rho> = ran (instances (r_mgr \<rho>)) \<union> lasting \<rho>"

datatype label =
    Internal
  | Hear consensus_msg
  | Propose InstanceID

inductive lstep ::
    "('s, 'v) Store \<Rightarrow> (bytes \<Rightarrow> int) \<Rightarrow> (InstanceID graph \<Rightarrow> InstanceID graph) \<Rightarrow>
     ('s, 'v) Replica \<Rightarrow> label \<Rightarrow> ('s, 'v) Replica \<Rightarrow> bool"
  for S uuid_time iter where
  hear: "lstep S uuid_time iter \<rho> (Hear msg) (\<rho>\<lparr>r_heard := insert msg (r_heard \<rho>)\<rparr>)"
| handle: "msg \<in> r_heard \<rho> \<Longrightarrow> HandleMessage S now (r_mgr \<rho>) msg = (m', r) \<Longrightarrow>
    lstep S uuid_time iter \<rho> Internal
      (\<rho>\<lparr>r_mgr := m', r_replies := r_replies \<rho> \<union> (case r of Ret reply \<Rightarrow> {reply} | _ \<Rightarrow> {})\<rparr>)"
| propose: "inst = addListener (makeInstance (r_mgr \<rho>) iid perm instruction) ch \<Longrightarrow>
    lstep S uuid_time iter \<rho> (Propose iid) (\<rho>\<lparr>r_proposed := insert inst (r_proposed \<rho>)\<rparr>)"
| know: "i \<in> usable \<rho> \<Longrightarrow>
    lstep S uuid_time iter \<rho> Internal (set_mgr \<rho> (fst (getOrSetInstance S (r_mgr \<rho>) i)))"
| preaccept: "i \<in> usable \<rho> \<Longrightarrow>
    lstep S uuid_time iter \<rho> Internal (set_mgr \<rho> (fst (preAcceptInstance S now (r_mgr \<rho>) i incr)))"
| accept: "i \<in> usable \<rho> \<Longrightarrow>
    lstep S uuid_time iter \<rho> Internal (set_mgr \<rho> (fst (acceptInstance S now (r_mgr \<rho>) i incr)))"
| commit: "i \<in> usable \<rho> \<Longrightarrow>
    lstep S uuid_time iter \<rho> Internal (set_mgr \<rho> (fst (commitInstance S (r_mgr \<rho>) i incr)))"
| missing: "set insts \<subseteq> usable \<rho> \<Longrightarrow>
    lstep S uuid_time iter \<rho> Internal (set_mgr \<rho> (fst (addMissingInstancesUnsafe S (r_mgr \<rho>) insts)))"
| raise: "instances (r_mgr \<rho>) k = Some i \<Longrightarrow>
    lstep S uuid_time iter \<rho> Internal (set_mgr \<rho> (put_instance (r_mgr \<rho>) (fst (updateBallot i ballot))))"
| increment: "instances (r_mgr \<rho>) k = Some i \<Longrightarrow>
    lstep S uuid_time iter \<rho> Internal (set_mgr \<rho> (put_instance (r_mgr \<rho>) (fst (incrementBallot i))))"
| merge: "instances (r_mgr \<rho>) k = Some i \<Longrightarrow>
    lstep S uuid_time iter \<rho> Internal (set_mgr \<rho> (put_instance (r_mgr \<rho>) (fst (mergeAttributes i deps))))"
| noop: "instances (r_mgr \<rho>) k = Some i \<Longrightarrow> Status i \<le> INSTANCE_PREACCEPTED \<Longrightarrow>
    lstep S uuid_time iter \<rho> Internal (set_mgr \<rho> (put_instance (r_mgr \<rho>) (setNoop i)))"
| send: "carried msg \<subseteq> Instance_Copy ` ran (instances (r_mgr \<rho>)) \<Longrightarrow>
    lstep S uuid_time iter \<rho> Internal
      (set_mgr \<rho> ((r_mgr \<rho>)\<lparr>outbox := outbox (r_mgr \<rho>) @ map (\<lambda>n. (n, msg)) ns\<rparr>))"
| order: "getExecutionOrder uuid_time iter fuel (r_mgr \<rho>) i = Some (m', r) \<Longrightarrow>
    lstep S uuid_time iter \<rho> Internal (set_mgr \<rho> m')"
| run: "instances (r_mgr \<rho>) k = Some i \<Longrightarrow>
    lstep S uuid_time iter \<rho> Internal (set_mgr \<rho> (fst (applyInstance S (r_mgr \<rho>) i)))"

section \<open>The network\<close>

type_synonym ('s, 'v) system = "NodeId \<rightharpoonup> ('s, 'v) Replica"

definition sent :: "('s, 'v) system \<Rightarrow> consensus_msg set" where
  "sent s = (\<Union>\<rho> \<in> ran s. r_replies \<rho> \<union> snd ` set (outbox (r_mgr \<rho>)))"

definition proposed :: "('s, 'v) system \<Rightarrow> Instance set" where
  "proposed s = (\<Union>\<rho> \<in> ran s. r_proposed \<rho>)"

text \<open>What is left of a message on the wire.\<close>

fun on_wire :: "consensus_msg \<Rightarrow> consensus_msg" where
  "on_wire (PreAcceptRequest i) = PreAcceptRequest (wire_limited i)"
| "on_wire (PreAcceptResp r) =
     PreAcceptResp (r\<lparr>pa_Instance := wire_limited (pa_Instance r),
       pa_MissingInstances := map wire_limited (pa_MissingInstances r)\<rparr>)"
| "on_wire (AcceptRequest i missing) = AcceptRequest (wire_limited i) (map wire_limited missing)"
| "on_wire (CommitRequest i) = CommitRequest (wire_limited i)"
| "on_wire (PrepareResp r) = PrepareResp (r\<lparr>p_Instance := map_option wire_limited (p_Instance r)\<rparr>)"
| "on_wire (PrepareSuccessorResponse i) = PrepareSuccessorResponse (map_option wire_limited i)"
| "on_wire (InstanceResponse is) = InstanceResponse (map wire_limited is)"
| "on_wire msg = msg"

text \<open>
  A message arrives when some replica has sent it and its bytes decode to it.  The lengths of
  its fields fit into the 32 bits that they have on the wire.
\<close>

definition arrives :: "('s, 'v) system \<Rightarrow> consensus_msg \<Rightarrow> bool" where
  "arrives s msg \<longleftrightarrow> (\<exists>msg0 \<in> sent s. consensus_ok (on_wire msg0) \<and>
     ReadMessage consensus_constructors (WriteMessage GetType consensus_Serialize msg0) = Inr (msg, []))"

text \<open>The identifiers of new instances are unique.\<close>

fun allowed :: "('s, 'v) system \<Rightarrow> label \<Rightarrow> bool" where
  "allowed s Internal = True"
| "allowed s (Hear msg) = arrives s msg"
| "allowed s (Propose iid) = (iid \<notin> InstanceID ` proposed s)"

inductive sys_step ::
    "('s, 'v) Store \<Rightarrow> (bytes \<Rightarrow> int) \<Rightarrow> (InstanceID graph \<Rightarrow> InstanceID graph) \<Rightarrow>
     ('s, 'v) system \<Rightarrow> ('s, 'v) system \<Rightarrow> bool"
  for S uuid_time iter where
  replica: "s n = Some \<rho> \<Longrightarrow> lstep S uuid_time iter \<rho> l \<rho>' \<Longrightarrow> allowed s l \<Longrightarrow>
    sys_step S uuid_time iter s (s(n \<mapsto> \<rho>'))"

text \<open>Every node starts with a new manager on the empty state \<open>st\<close> of the store.\<close>

definition started :: "'s \<Rightarrow> ('s, 'v) system \<Rightarrow> bool" where
  "started st s \<longleftrightarrow> (\<forall>n \<rho>. s n = Some \<rho> \<longrightarrow> (\<exists>t. localNodeID t = n \<and> \<rho> = new_replica t st))"

section \<open>Where instances come from\<close>

text \<open>What the changes of an instance leave alone.\<close>

definition origin :: "Instance \<Rightarrow> InstanceID \<times> NodeId \<times> Instruction" where
  "origin i = (InstanceID i, LeaderID i, Command i)"

lemma moves_origin: "moves i j \<Longrightarrow> origin j = origin i"
  by (simp add: moves_def advances_def instance_le_def origin_def)

lemma origin_simps [simp]:
  "origin (initialize i) = origin i" "origin (Instance_Copy i) = origin i"
  "origin (wire_limited i) = origin i" "origin (i\<lparr>Status := st\<rparr>) = origin i"
  "origin (i\<lparr>DependencyMatch := b\<rparr>) = origin i" "origin (i\<lparr>StronglyConnected := scc\<rparr>) = origin i"
  by (simp_all add: origin_def Instance_Copy_alt wire_limited_def)

lemma origin_copies: "X \<subseteq> Instance_Copy ` Y \<Longrightarrow> origin ` X \<subseteq> origin ` Y"
  by fastforce

text \<open>A call that executes nothing, sends nothing, and takes new instances from \<open>X\<close> only.\<close>

definition derives :: "Instance set \<Rightarrow> ('s, 'v) Manager \<Rightarrow> ('s, 'v) Manager \<Rightarrow> bool" where
  "derives X m m' \<longleftrightarrow>
     origin ` ran (instances m') \<subseteq> origin ` (ran (instances m) \<union> X) \<and>
     store m' = store m \<and> executed m' = executed m \<and> outbox m' = outbox m"

lemma derives_refl [simp]: "derives X m m"
  by (auto simp: derives_def)

lemma derives_trans: "derives X m m' \<Longrightarrow> derives X m' m'' \<Longrightarrow> derives X m m''"
  unfolding derives_def image_Un by (simp, blast)

lemma derives_mono: "derives X m m' \<Longrightarrow> X \<subseteq> Y \<Longrightarrow> derives Y m m'"
  unfolding derives_def by (meson Un_mono image_mono order.refl order.trans)

lemma ran_upd: "ran (f(k \<mapsto> v)) \<subseteq> insert v (ran f)"
  by (auto simp: ran_def)

lemma ran_same [simp]: "v \<in> ran (f(k \<mapsto> v))"
  by (auto simp: ran_def)

lemma derives_put:
  assumes "origin j \<in> origin ` (ran (instances m) \<union> X)"
  shows "derives X m (put_instance m j)"
proof -
  have "origin ` ran (instances (put_instance m j)) \<subseteq> insert (origin j) (origin ` ran (instances m))"
    using ran_upd [of "instances m" "InstanceID j" j] by auto
  then show ?thesis using assms by (auto simp: derives_def)
qed

lemma derives_update:
  "instances m k = Some i \<Longrightarrow> origin j = origin i \<Longrightarrow> derives X m (put_instance m j)"
  by (rule derives_put) (auto simp: ran_def)

lemma derives_deps [simp]:
  "derives X m (m\<lparr>depsMngr := d\<rparr>)" "derives X m (fst (mgr_AddDependency S m i))"
  "derives X m (fst (mgr_ReportAcknowledged S m i))"
  by (auto simp: derives_def mgr_AddDependency_def mgr_ReportAcknowledged_def split_beta)

lemma derives_getOrSet:
  assumes "getOrSetInstance S m inst = (m', i, existed)"
  shows "derives {inst} m m'" and "instances m' (InstanceID inst) = Some i"
    and "origin i \<in> origin ` (ran (instances m) \<union> {inst})"
proof -
  have *: "quiet m m'" "instances m' = (instances m)(InstanceID inst \<mapsto> i)"
    "if existed then instances m (InstanceID inst) = Some i \<and> m' = m
      else instances m (InstanceID inst) = None \<and> i = initialize inst"
    using getOrSetInstance_spec [of S m inst] assms by auto
  show o: "origin i \<in> origin ` (ran (instances m) \<union> {inst})"
    using *(3) by (auto simp: ran_def split: if_splits)
  show "instances m' (InstanceID inst) = Some i" using *(2) by simp
  have "origin ` ran (instances m') \<subseteq> insert (origin i) (origin ` ran (instances m))"
    using ran_upd [of "instances m" "InstanceID inst" i] *(2) by auto
  then show "derives {inst} m m'" using o quietD [OF *(1)] by (auto simp: derives_def)
qed

lemma derives_change:
  assumes "getOrSetInstance S m inst = (m', i, existed)" and "moves i j"
  shows "derives {inst} m (put_instance m' j)"
proof -
  have "derives {inst} m' (put_instance m' j)"
    by (rule derives_update [OF derives_getOrSet(2) [OF assms(1)] moves_origin [OF assms(2)]])
  then show ?thesis by (rule derives_trans [OF derives_getOrSet(1) [OF assms(1)]])
qed

lemma derives_preaccept: "derives {inst} m (fst (preAcceptInstance S now m inst incr))"
proof -
  obtain m' i e where get: "getOrSetInstance S m inst = (m', i, e)" by (metis prod_cases3)
  obtain j d err where pre: "preaccept (getInstanceDeps S) now (depsMngr m') i inst incr = (j, d, err)"
    by (metis prod_cases3)
  have "fst (preAcceptInstance S now m inst incr) = (put_instance m' j)\<lparr>depsMngr := d\<rparr>"
    by (simp add: preAcceptInstance_def get pre put_instance_def)
  then show ?thesis using derives_trans [OF derives_change [OF get preaccept_moves [OF pre]]] by simp
qed

lemma derives_accept: "derives {inst} m (fst (acceptInstance S now m inst incr))"
proof -
  obtain m' i e where get: "getOrSetInstance S m inst = (m', i, e)" by (metis prod_cases3)
  obtain j err where acc: "accept now i inst incr = (j, err)" by fastforce
  note d = derives_change [OF get accept_moves [OF acc]]
  show ?thesis
    using d derives_trans [OF d derives_deps(3)]
    by (auto simp: acceptInstance_def get acc split: option.split)
qed

lemma derives_commit: "derives {inst} m (fst (commitInstance S m inst incr))"
proof -
  obtain m' i e where get: "getOrSetInstance S m inst = (m', i, e)" by (metis prod_cases3)
  obtain j err where com: "commit i inst incr = (j, err)" by fastforce
  note d = derives_change [OF get commit_moves [OF com]]
  show ?thesis
    using d derives_trans [OF d derives_deps(3)]
    by (auto simp: commitInstance_def get com split: option.split)
qed

lemma derives_missing: "derives (set insts) m (fst (addMissingInstancesUnsafe S m insts))"
proof (induction insts arbitrary: m)
  case (Cons inst insts)
  obtain m1 i e where get: "getOrSetInstance S m inst = (m1, i, e)" by (metis prod_cases3)
  let ?j = "if Status i \<in> {INSTANCE_COMMITTED, INSTANCE_EXECUTED} then i\<lparr>Status := INSTANCE_COMMITTED\<rparr> else i"
  have 1: "derives (set (inst # insts)) m m1" using derives_mono [OF derives_getOrSet(1) [OF get]] by simp
  have "derives (set (inst # insts)) m1 (put_instance m1 ?j)"
    by (rule derives_update [OF derives_getOrSet(2) [OF get]]) simp
  note 2 = derives_trans [OF derives_trans [OF 1 this] derives_deps(2) [of _ _ S ?j]]
  have 3: "derives (set (inst # insts)) m' (fst (addMissingInstancesUnsafe S m' insts))" for m'
    by (rule derives_mono [OF Cons.IH]) auto
  obtain m3 err where add: "mgr_AddDependency S (put_instance m1 ?j) ?j = (m3, err)" by fastforce
  have "derives (set (inst # insts)) m m3" using 2 add by simp
  then show ?case
    using 1 3 derives_trans [OF 1 3] derives_trans [OF _ 3]
    by (simp add: get Let_def add split: option.split del: insert_iff list.set)
qed simp

lemma derives_recordSCC: "derives X m (fold (recordSCC scc) iids m)"
proof (induction iids arbitrary: m)
  case (Cons iid iids)
  have "derives X m (recordSCC scc iid m)"
    by (auto simp: recordSCC_def intro: derives_update split: option.split)
  with Cons.IH derives_trans show ?case by fastforce
qed simp

lemma derives_scc_loop: "derives X m (fst (scc_loop uuid_time dmap b sccs m exOrder))"
proof (induction sccs arbitrary: m exOrder)
  case (Cons scc sccs)
  let ?scc = "sort_Sort (iid_Less uuid_time dmap) scc"
  let ?m = "if length ?scc > 1 \<and> \<not> b then fold (recordSCC ?scc) ?scc m else m"
  have "derives X m ?m" by (simp add: derives_recordSCC)
  from derives_trans [OF this Cons.IH [of ?m "exOrder @ ?scc"]] show ?case by (auto simp: Let_def)
qed simp

lemma getExecutionOrder_mgr:
  assumes "getExecutionOrder uuid_time iter fuel m i = Some (m', r)"
  shows "m' = m \<or> (\<exists>dmap b sccs. m' = fst (scc_loop uuid_time dmap b sccs m []))"
  using assms unfolding getExecutionOrder_def Let_def
  by (auto split: option.splits outcome.splits prod.splits if_splits) (metis fst_conv)+

lemma derives_order: "getExecutionOrder uuid_time iter fuel m i = Some (m', r) \<Longrightarrow> derives X m m'"
  using getExecutionOrder_mgr derives_scc_loop by fastforce

lemma order_quiet:
  "mgr_inv m \<Longrightarrow> getExecutionOrder uuid_time iter fuel m i = Some (m', r) \<Longrightarrow> quiet m m'"
  using getExecutionOrder_mgr scc_loop_quiet by fastforce

text \<open>A reply carries instances of the replica.\<close>

lemma missing_instances_ran: "set (missing_instances m iids) \<subseteq> Instance_Copy ` ran (instances m)"
  by (auto simp: set_missing_instances ran_def)

lemma HandlePreAccept_derives:
  assumes "HandlePreAccept S now m i = (m', r)"
  shows "derives {i} m m'" and "r = Ret x \<Longrightarrow> carried (PreAcceptResp x) \<subseteq> Instance_Copy ` ran (instances m')"
proof -
  obtain m1 err where pre: "preAcceptInstance S now m i False = (m1, err)" by fastforce
  have 1: "derives {i} m m1" using derives_preaccept [of i m S now False] pre by simp
  have 2: "derives {i} m (put_instance m1 (j\<lparr>DependencyMatch := b\<rparr>))" if "instances m1 (InstanceID i) = Some j" for j b
    by (rule derives_trans [OF 1 derives_update [OF that]]) simp
  show "derives {i} m m'"
    using assms 1 2 by (auto simp: HandlePreAccept_def Let_def pre imap_Get_def split: option.splits if_splits)
  have nil: "\<exists>iids. [] = missing_instances m2 iids" for m2 :: "('a, 'b) Manager"
    by (rule exI [of _ "[]"]) (simp add: missing_instances_def)
  have "pa_Instance x \<in> Instance_Copy ` ran (instances m') \<and>
      (\<exists>iids. pa_MissingInstances x = missing_instances m' iids)" if "r = Ret x"
    using assms that nil
    by (auto simp: HandlePreAccept_def Let_def pre imap_Get_def ranI split: option.splits if_splits intro!: imageI)
  then show "carried (PreAcceptResp x) \<subseteq> Instance_Copy ` ran (instances m')" if "r = Ret x"
    using that missing_instances_ran by fastforce
qed

lemma HandleAccept_derives:
  assumes "HandleAccept S now m i missing = (m', r)"
  shows "derives (insert i (set missing)) m m'"
proof -
  let ?X = "insert i (set missing)"
  obtain m1 out where r: "(if length missing > 0 then addMissingInstancesUnsafe S m missing else (m, Ret ())) = (m1, out)"
    by fastforce
  have "m1 = fst (addMissingInstancesUnsafe S m missing) \<or> m1 = m" using r by (auto split: if_splits)
  then have 1: "derives ?X m m1" using derives_mono [OF derives_missing, of missing ?X m S] by auto
  obtain m2 err where acc: "acceptInstance S now m1 i False = (m2, err)" by fastforce
  have "derives ?X m1 m2" using derives_mono [OF derives_accept, of i ?X m1 S now False] acc by simp
  note 2 = derives_trans [OF 1 this]
  show ?thesis
    using assms 1 2 unfolding HandleAccept_def r
    by (cases out) (auto simp: acc Let_def split: option.splits if_splits)
qed

lemma HandlePrepare_derives:
  assumes "HandlePrepare m ballot iid = (m', r)"
  shows "derives X m m'" and "r = Ret x \<Longrightarrow> carried (PrepareResp x) \<subseteq> Instance_Copy ` ran (instances m')"
proof -
  have "derives X m (put_instance m (fst (updateBallot i ballot)))" if "instances m iid = Some i" for i
    by (rule derives_update [OF that moves_origin]) simp
  then show "derives X m m'"
    using assms by (auto simp: HandlePrepare_def getInstance_def imap_Get_def Let_def split: option.splits if_splits)
  show "carried (PrepareResp x) \<subseteq> Instance_Copy ` ran (instances m')" if "r = Ret x"
    using assms that
    by (auto simp: HandlePrepare_def getInstance_def imap_Get_def Let_def ranI split: option.splits if_splits)
qed

lemma HandleCommit_derives: "HandleCommit S m i = (m', r) \<Longrightarrow> derives {i} m m'"
  using derives_commit [of i m S False] by (auto simp: HandleCommit_def split: prod.splits if_splits)

lemma omap_Ret: "omap f r = Ret y \<longleftrightarrow> (\<exists>x. r = Ret x \<and> y = f x)"
  by (cases r) (auto simp: omap_def)

lemma HandleMessage_derives:
  assumes "HandleMessage S now m msg = (m', r)"
  shows "derives (carried msg) m m'"
    and "r = Ret reply \<Longrightarrow> carried reply \<subseteq> Instance_Copy ` ran (instances m')"
proof -
  show "derives (carried msg) m m'"
    using assms HandlePreAccept_derives(1) HandleAccept_derives HandlePrepare_derives(1)
      HandleCommit_derives
    by (cases msg) (auto simp: map_prod_def split: prod.splits)
  show "carried reply \<subseteq> Instance_Copy ` ran (instances m')" if "r = Ret reply"
    using assms that
    by (cases msg) (auto simp: map_prod_def omap_Ret HandlePrepareSuccessor_def imap_Get_def ranI
        split: prod.splits option.splits dest!: HandlePreAccept_derives(2) [OF _ refl] HandlePrepare_derives(2) [OF _ refl])
qed

section \<open>The invariant of a replica\<close>

text \<open>
  \<open>G\<close> is the set of the instances that clients have asked for.  Everything that a replica
  knows and everything that it sends belongs to it, and the store is the result of
  the log of executed instances.
\<close>

definition rep_inv ::
    "('s, 'v) Store \<Rightarrow> 's \<Rightarrow> (InstanceID \<times> NodeId \<times> Instruction) set \<Rightarrow> ('s, 'v) Replica \<Rightarrow> bool" where
  "rep_inv S st G \<rho> \<longleftrightarrow>
     mgr_inv (r_mgr \<rho>) \<and> origin ` usable \<rho> \<subseteq> G \<and>
     (\<forall>msg \<in> r_replies \<rho> \<union> snd ` set (outbox (r_mgr \<rho>)). origin ` carried msg \<subseteq> G) \<and>
     store (r_mgr \<rho>) = run_instances S (instances (r_mgr \<rho>)) (executed (r_mgr \<rho>)) st"

lemma lstep_step_ok:
  assumes "lstep S uuid_time iter \<rho> l \<rho>'" and "mgr_inv (r_mgr \<rho>)"
  shows "step_ok (r_mgr \<rho>) (r_mgr \<rho>')"
  using assms
proof cases
  case (handle msg now m' r)
  then show ?thesis using quiet_step_ok [OF HandleMessage_quiet [OF assms(2), of S now msg]] by simp
next
  case (know i)
  obtain m' j e where "getOrSetInstance S (r_mgr \<rho>) i = (m', j, e)" "quiet (r_mgr \<rho>) m'"
    using getOrSetInstance_spec by blast
  then show ?thesis using know by (simp add: quiet_step_ok)
next
  case (order fuel i m' r)
  then show ?thesis using quiet_step_ok [OF order_quiet [OF assms(2)]] by auto
next
  case (raise k i ballot)
  then show ?thesis using step_ok_move [of "r_mgr \<rho>" i] mgr_invD(1) [OF assms(2)] by auto
next
  case (increment k i)
  then show ?thesis using step_ok_move [of "r_mgr \<rho>" i] mgr_invD(1) [OF assms(2)] by auto
next
  case (merge k i deps)
  then show ?thesis using step_ok_move [OF _ mergeAttributes_moves, of "r_mgr \<rho>" i] mgr_invD(1) [OF assms(2)] by auto
next
  case (noop k i)
  then show ?thesis using step_ok_move [OF _ moves_setNoop, of "r_mgr \<rho>" i] mgr_invD(1) [OF assms(2)] by auto
next
  case (run k i)
  then show ?thesis using applyInstance_step [of "r_mgr \<rho>" i S] mgr_invD(1) [OF assms(2)] assms(2) by auto
qed (use assms(2) preAcceptInstance_step(1) acceptInstance_step(1) commitInstance_step(1)
    quiet_step_ok [OF addMissing_quiet] in \<open>simp_all\<close>)

lemma derives_usable: "i \<in> usable \<rho> \<Longrightarrow> derives {i} m m' \<Longrightarrow> derives (usable \<rho>) m m'"
  by (erule derives_mono) simp

text \<open>All steps but those that send or execute.\<close>

lemma lstep_derives:
  assumes "lstep S uuid_time iter \<rho> l \<rho>'"
  shows "derives (usable \<rho>) (r_mgr \<rho>) (r_mgr \<rho>') \<or>
    (\<exists>msg ns. carried msg \<subseteq> Instance_Copy ` ran (instances (r_mgr \<rho>)) \<and>
       r_mgr \<rho>' = (r_mgr \<rho>)\<lparr>outbox := outbox (r_mgr \<rho>) @ map (\<lambda>n. (n, msg)) ns\<rparr>) \<or>
    (\<exists>k i. instances (r_mgr \<rho>) k = Some i \<and> r_mgr \<rho>' = fst (applyInstance S (r_mgr \<rho>) i))"
  using assms
proof cases
  case (handle msg now m' r)
  then have "carried msg \<subseteq> usable \<rho>" by (auto simp: usable_def lasting_def)
  then show ?thesis using handle HandleMessage_derives(1) derives_mono by fastforce
next
  case (know i)
  obtain m' j e where "getOrSetInstance S (r_mgr \<rho>) i = (m', j, e)" by (metis prod_cases3)
  then show ?thesis using know derives_usable derives_getOrSet(1) by fastforce
next
  case (raise k i ballot)
  then show ?thesis using derives_update [OF _ moves_origin, of "r_mgr \<rho>" k i] by auto
next
  case (increment k i)
  then show ?thesis using derives_update [OF _ moves_origin, of "r_mgr \<rho>" k i] by auto
next
  case (merge k i deps)
  then show ?thesis using derives_update [OF _ moves_origin [OF mergeAttributes_moves], of "r_mgr \<rho>" k i] by auto
next
  case (noop k i)
  then show ?thesis using derives_update [OF _ moves_origin [OF moves_setNoop], of "r_mgr \<rho>" k i] by auto
qed (auto intro: derives_usable derives_preaccept derives_accept derives_commit derives_order
    derives_mono [OF derives_missing])

text \<open>Executing one instance, also where the dependency manager reports an error.\<close>

lemma applyInstance_fields:
  assumes "Status i = INSTANCE_COMMITTED" and "instance_effect S i (store m) = (s, Ret val)"
    and "applyInstance S m i = (m', r)"
  shows "store m' = s" and "executed m' = executed m @ [InstanceID i]" and "outbox m' = outbox m"
    and "instances m' = (instances m)(InstanceID i \<mapsto> i\<lparr>Status := INSTANCE_EXECUTED\<rparr>)"
proof -
  let ?i = "i\<lparr>Status := INSTANCE_EXECUTED\<rparr>"
  let ?m1 = "(put_instance (m\<lparr>store := s\<rparr>) ?i)\<lparr>executed := executed m @ [InstanceID i]\<rparr>"
  obtain m2 err where m2: "mgr_ReportExecuted S ?m1 ?i = (m2, err)" by fastforce
  note q = quietD [OF quiet_ReportExecuted [of ?m1 S ?i], unfolded m2 fst_conv]
  have "m' \<in> {m2, notify ?i val m2}"
    using assms m2
    by (cases err) (auto simp: applyInstance_def instance_effect_def Let_def status_defs split: if_splits)
  then have "store m' = store m2 \<and> executed m' = executed m2 \<and> outbox m' = outbox m2 \<and> instances m' = instances m2"
    by (auto simp: notify_def)
  moreover have "instances m2 = instances ?m1" using instances_mgr_deps(3) [of S ?m1 ?i] m2 by simp
  ultimately show "store m' = s" "executed m' = executed m @ [InstanceID i]" "outbox m' = outbox m"
    "instances m' = (instances m)(InstanceID i \<mapsto> ?i)" using q(3,4,8) by simp_all
qed

lemma run_executed:
  assumes "step_ok m m'" and "mgr_inv m"
  shows "run_instances S (instances m') (executed m) s = run_instances S (instances m) (executed m) s"
  unfolding run_instances_def
proof (rule fold_cong [OF refl refl])
  fix k
  assume "k \<in> set (executed m)"
  then obtain i where i: "instances m k = Some i" "Status i = INSTANCE_EXECUTED"
    using mgr_invD(4) [OF assms(2)] by blast
  then obtain j where j: "instances m' k = Some j" "instance_grows i j" using step_okD(2) [OF assms] by blast
  then have "Command j = Command i" "Noop j = Noop i" using i by (simp_all add: instance_grows_def instance_le_def)
  then show "(\<lambda>s. case instances m' k of None \<Rightarrow> s | Some i \<Rightarrow> fst (instance_effect S i s)) =
      (\<lambda>s. case instances m k of None \<Rightarrow> s | Some i \<Rightarrow> fst (instance_effect S i s))"
    using i j by (simp add: instance_effect_def fun_eq_iff)
qed

lemma rep_invD:
  assumes "rep_inv S st G \<rho>"
  shows "mgr_inv (r_mgr \<rho>)" and "i \<in> usable \<rho> \<Longrightarrow> origin i \<in> G"
    and "msg \<in> r_replies \<rho> \<union> snd ` set (outbox (r_mgr \<rho>)) \<Longrightarrow> origin ` carried msg \<subseteq> G"
    and "store (r_mgr \<rho>) = run_instances S (instances (r_mgr \<rho>)) (executed (r_mgr \<rho>)) st"
  using assms unfolding rep_inv_def by blast+

lemma rep_inv_mono: "rep_inv S st G \<rho> \<Longrightarrow> G \<subseteq> H \<Longrightarrow> rep_inv S st H \<rho>"
  unfolding rep_inv_def by blast

lemma lstep_replies:
  assumes "lstep S uuid_time iter \<rho> l \<rho>'" and "msg \<in> r_replies \<rho>'"
  shows "msg \<in> r_replies \<rho> \<or> carried msg \<subseteq> Instance_Copy ` ran (instances (r_mgr \<rho>'))"
  using assms by cases (auto dest: HandleMessage_derives(2) split: outcome.splits)

section \<open>Stores\<close>

text \<open>
  The consensus relies on the store in one respect: an instruction that fails has no effect.
  Then the store is the result of the log, and everything the replicas know and send comes from
  clients.
\<close>

locale failing_quietly =
  fixes S :: "('s, 'v) Store"
  assumes failure: "\<forall>val. snd (st_ExecuteInstruction S s c) \<noteq> Ret val \<Longrightarrow> fst (st_ExecuteInstruction S s c) = s"
begin

lemma apply_keeps:
  assumes inv: "rep_inv S st G \<rho>" and i: "instances (r_mgr \<rho>) k = Some i"
    and app: "applyInstance S (r_mgr \<rho>) i = (m', r)"
  shows "origin ` ran (instances m') \<subseteq> G" and "outbox m' = outbox (r_mgr \<rho>)"
    and "store m' = run_instances S (instances m') (executed m') st"
proof -
  let ?m = "r_mgr \<rho>"
  note inv' = rep_invD [OF inv]
  have k: "InstanceID i = k" using mgr_invD(1) [OF inv'(1) i] .
  have ran: "origin ` ran (instances ?m) \<subseteq> G" using inv'(2) by (auto simp: usable_def)
  obtain s x where eff: "instance_effect S i (store ?m) = (s, x)" by fastforce
  have "origin ` ran (instances m') \<subseteq> G \<and> outbox m' = outbox ?m \<and> store m' = run_instances S (instances m') (executed m') st"
  proof (cases "Status i = INSTANCE_COMMITTED \<and> (\<exists>val. x = Ret val)")
    case True
    then obtain val where x: "x = Ret val" by blast
    note f = applyInstance_fields [OF conjunct1 [OF True] eff [unfolded x] app]
    have "step_ok ?m m'" using applyInstance_step [OF inv'(1), of i S] i k app by simp
    from run_executed [OF this inv'(1), of S st]
    have "run_instances S (instances m') (executed m') st = fst (instance_effect S i (store ?m))"
      using inv'(4) k unfolding f(2) by (simp add: run_instances_def f(4) instance_effect_def)
    moreover have "ran (instances m') \<subseteq> insert (i\<lparr>Status := INSTANCE_EXECUTED\<rparr>) (ran (instances ?m))"
      unfolding f(4) by (rule ran_upd)
    moreover have "origin i \<in> G" using inv'(2) i by (auto simp: usable_def ran_def)
    ultimately show ?thesis using eff f ran by fastforce
  next
    case False
    have "m' = ?m"
    proof (cases "Status i = INSTANCE_COMMITTED")
      case True
      then have no: "\<forall>val. x \<noteq> Ret val" using False by blast
      then have "s = store ?m" using eff failure [of "store ?m" "Command i"] by (auto simp: instance_effect_def split: if_splits)
      then show ?thesis using applyInstance_fails [OF True eff no] app by simp
    qed (use app in \<open>auto simp: applyInstance_def split: if_splits\<close>)
    then show ?thesis using inv'(4) ran by simp
  qed
  then show "origin ` ran (instances m') \<subseteq> G" and "outbox m' = outbox ?m"
    and "store m' = run_instances S (instances m') (executed m') st" by blast+
qed

lemma lstep_keeps:
  assumes inv: "rep_inv S st G \<rho>" and step: "lstep S uuid_time iter \<rho> l \<rho>'" and "origin ` lasting \<rho>' \<subseteq> G"
  shows "rep_inv S st G \<rho>'"
proof -
  let ?m = "r_mgr \<rho>" and ?m' = "r_mgr \<rho>'"
  note inv' = rep_invD [OF inv] and ok = lstep_step_ok [OF step rep_invD(1) [OF inv]]
  have ran: "origin ` ran (instances ?m) \<subseteq> G" using inv'(2) by (auto simp: usable_def)
  have "origin ` ran (instances ?m') \<subseteq> G \<and>
      (\<forall>msg \<in> snd ` set (outbox ?m') - snd ` set (outbox ?m). origin ` carried msg \<subseteq> origin ` ran (instances ?m)) \<and>
      store ?m' = run_instances S (instances ?m') (executed ?m') st"
    using lstep_derives [OF step]
  proof (elim disjE exE conjE)
    assume d: "derives (usable \<rho>) ?m ?m'"
    have "origin ` (ran (instances ?m) \<union> usable \<rho>) \<subseteq> G" using inv'(2) ran by auto
    then have "origin ` ran (instances ?m') \<subseteq> G" using d order.trans unfolding derives_def by blast
    then show ?thesis using d run_executed [OF ok inv'(1), of S st] inv'(4) by (simp add: derives_def)
  next
    fix msg ns
    assume "carried msg \<subseteq> Instance_Copy ` ran (instances ?m)"
      and m': "?m' = ?m\<lparr>outbox := outbox ?m @ map (\<lambda>n. (n, msg)) ns\<rparr>"
    then have "origin ` carried msg \<subseteq> origin ` ran (instances ?m)" by (intro origin_copies)
    then show ?thesis using m' inv'(4) ran by auto
  next
    fix k i
    assume i: "instances ?m k = Some i" and "?m' = fst (applyInstance S ?m i)"
    then have "applyInstance S ?m i = (?m', snd (applyInstance S ?m i))" by simp
    from apply_keeps [OF inv i this] show ?thesis by simp
  qed
  note * = this
  have "origin ` carried msg \<subseteq> G" if "msg \<in> r_replies \<rho>' \<union> snd ` set (outbox ?m')" for msg
  proof (cases "msg \<in> r_replies \<rho> \<union> snd ` set (outbox ?m)")
    case False
    then have "carried msg \<subseteq> Instance_Copy ` ran (instances ?m') \<or> origin ` carried msg \<subseteq> origin ` ran (instances ?m)"
      using that lstep_replies [OF step, of msg] * by blast
    then have "origin ` carried msg \<subseteq> origin ` ran (instances ?m') \<or> origin ` carried msg \<subseteq> origin ` ran (instances ?m)"
      using origin_copies by blast
    then show ?thesis using conjunct1 [OF *] ran by (elim disjE) (erule order.trans, assumption)+
  qed (rule inv'(3))
  then show ?thesis
    using * step_okD(1) [OF ok inv'(1)] assms(3) by (simp add: rep_inv_def usable_def image_Un)
qed

end

section \<open>The wire\<close>

lemma SerializeLimited_wire [simp]: "SerializeLimited (wire_limited i) = SerializeLimited i"
  by (simp add: SerializeLimited_def SerializeLimitedUnsafe_def wire_limited_def)

lemma write_instances_wire [simp]: "write_instances (map wire_limited is) = write_instances is"
  by (simp add: write_instances_def comp_def len32_def)

lemma write_nilable_wire [simp]: "write_nilable (map_option wire_limited i) = write_nilable i"
  by (cases i) (simp_all add: write_nilable_def)

lemma WriteMessage_on_wire:
  "WriteMessage GetType consensus_Serialize (on_wire msg) = WriteMessage GetType consensus_Serialize msg"
  by (cases msg) (simp_all add: WriteMessage_def consensus_Serialize_defs)

lemma origin_on_wire: "origin ` carried (on_wire msg) = origin ` carried msg"
  by (cases msg) (auto simp: image_comp comp_def option.set_map)

lemma arrives_on_wire:
  assumes "arrives s msg"
  obtains msg0 where "msg0 \<in> sent s" and "msg = on_wire msg0"
proof -
  from assms obtain msg0 where msg0: "msg0 \<in> sent s" "consensus_ok (on_wire msg0)"
    "ReadMessage consensus_constructors (WriteMessage GetType consensus_Serialize msg0) = Inr (msg, [])"
    unfolding arrives_def by blast
  from consensus_messages.framed.roundtrip [OF msg0(2), of "[]"] msg0 that show thesis
    by (simp add: WriteMessage_on_wire)
qed

lemma arrivesI:
  assumes "msg \<in> sent s" and "consensus_ok (on_wire msg)"
  shows "arrives s (on_wire msg)"
  using assms consensus_messages.framed.roundtrip [OF assms(2), of "[]", unfolded WriteMessage_on_wire]
  unfolding arrives_def by auto

section \<open>The invariant of the system\<close>

definition sys_inv :: "('s, 'v) Store \<Rightarrow> 's \<Rightarrow> ('s, 'v) system \<Rightarrow> bool" where
  "sys_inv S st s \<longleftrightarrow>
     (\<forall>n \<rho>. s n = Some \<rho> \<longrightarrow> nodeID (r_mgr \<rho>) = n \<and> rep_inv S st (origin ` proposed s) \<rho> \<and>
        (\<forall>inst \<in> r_proposed \<rho>. LeaderID inst = n)) \<and>
     inj_on InstanceID (proposed s)"

lemma made_instance:
  "InstanceID (addListener (makeInstance m iid perm instruction) ch) = iid"
  "LeaderID (addListener (makeInstance m iid perm instruction) ch) = nodeID m"
  "Command (addListener (makeInstance m iid perm instruction) ch) = instruction"
  by (simp_all add: makeInstance_def addListener_def Let_def)

text \<open>What a label says about the step.\<close>

lemma lstep_label:
  assumes "lstep S uuid_time iter \<rho> l \<rho>'"
  shows "case l of
      Internal \<Rightarrow> r_heard \<rho>' = r_heard \<rho> \<and> r_proposed \<rho>' = r_proposed \<rho>
    | Hear msg \<Rightarrow> r_heard \<rho>' = insert msg (r_heard \<rho>) \<and> r_proposed \<rho>' = r_proposed \<rho>
    | Propose iid \<Rightarrow> r_heard \<rho>' = r_heard \<rho> \<and>
        (\<exists>inst. InstanceID inst = iid \<and> LeaderID inst = nodeID (r_mgr \<rho>) \<and> r_proposed \<rho>' = insert inst (r_proposed \<rho>))"
  using assms
proof cases
  case (propose inst iid perm instruction ch)
  then show ?thesis using made_instance [of "r_mgr \<rho>" iid perm instruction ch] by auto
qed simp_all

lemma proposed_upd: "s n = Some \<rho> \<Longrightarrow> r_proposed \<rho> \<subseteq> r_proposed \<rho>' \<Longrightarrow>
    proposed (s(n \<mapsto> \<rho>')) = proposed s \<union> r_proposed \<rho>'"
  unfolding proposed_def ran_def by (auto split: if_splits) (metis option.inject subsetD)+

lemma sys_invD:
  assumes "sys_inv S st s" and "s n = Some \<rho>"
  shows "nodeID (r_mgr \<rho>) = n" and "rep_inv S st (origin ` proposed s) \<rho>"
    and "inst \<in> r_proposed \<rho> \<Longrightarrow> LeaderID inst = n"
  using assms unfolding sys_inv_def by blast+

lemma proposed_inj: "sys_inv S st s \<Longrightarrow> inj_on InstanceID (proposed s)"
  by (simp add: sys_inv_def)

lemma sent_origin:
  assumes "sys_inv S st s" and "msg \<in> sent s"
  shows "origin ` carried msg \<subseteq> origin ` proposed s"
proof -
  obtain n \<rho> where "s n = Some \<rho>" "msg \<in> r_replies \<rho> \<union> snd ` set (outbox (r_mgr \<rho>))"
    using assms(2) unfolding sent_def ran_def by blast
  then show ?thesis using rep_invD(3) [OF sys_invD(2) [OF assms(1)]] by blast
qed

lemma rep_inv_new: "rep_inv S st G (new_replica t st)"
  by (simp add: rep_inv_def new_replica_def mgr_inv_New usable_def lasting_def run_instances_def)
    (simp add: NewManager_def NewInstanceMap_def)

lemma sys_inv_started:
  assumes "started st s"
  shows "sys_inv S st s"
proof -
  have new: "\<exists>t. localNodeID t = n \<and> \<rho> = new_replica t st" if "s n = Some \<rho>" for n \<rho>
    using assms that by (simp add: started_def)
  have "r_proposed \<rho> = {} \<and> nodeID (r_mgr \<rho>) = n \<and> rep_inv S st G \<rho>" if \<rho>: "s n = Some \<rho>" for n \<rho> G
    using new [OF \<rho>] rep_inv_new by (auto simp: new_replica_def NewManager_def)
  moreover from this have "proposed s = {}" by (auto simp: proposed_def ran_def)
  ultimately show ?thesis unfolding sys_inv_def by auto
qed

context failing_quietly
begin

lemma sys_step_keeps:
  assumes inv: "sys_inv S st s" and "sys_step S uuid_time iter s s'"
  shows "sys_inv S st s'"
  using assms(2)
proof cases
  case (replica n \<rho> l \<rho>')
  note rep = sys_invD [OF inv replica(2)] and lab = lstep_label [OF replica(3)]
  let ?G = "origin ` proposed s'"
  have up: "r_proposed \<rho> \<subseteq> r_proposed \<rho>'" using lab by (cases l) auto
  note props = proposed_upd [of s n \<rho>, OF replica(2) up, folded replica(1)]
  have "r_proposed \<rho> \<subseteq> proposed s" using replica(2) by (auto simp: proposed_def ran_def)
  have "origin ` lasting \<rho> \<subseteq> ?G" 
    using rep_invD(2) [OF rep(2)] unfolding usable_def image_Un props by blast
  moreover have "origin ` carried msg \<subseteq> ?G" if "l = Hear msg" for msg
  proof -
    have "arrives s msg" using replica(4) that by simp
    then obtain msg0 where "msg0 \<in> sent s" "msg = on_wire msg0" by (rule arrives_on_wire)
    then show ?thesis using sent_origin [OF inv] unfolding props image_Un by (simp add: origin_on_wire le_supI1)
  qed
  ultimately have "origin ` lasting \<rho>' \<subseteq> ?G"
    using lab props by (cases l) (auto simp: lasting_def image_Un image_UN)
  then have "rep_inv S st ?G \<rho>'"
    using lstep_keeps [OF rep_inv_mono [OF rep(2)] replica(3)] props by (simp add: image_mono)
  moreover have "nodeID (r_mgr \<rho>') = n"
    using step_okD(6) [OF lstep_step_ok [OF replica(3)]] rep_invD(1) [OF rep(2)] rep(1) by simp
  moreover have "LeaderID inst = n" if "inst \<in> r_proposed \<rho>'" for inst
    using that lab rep by (cases l) auto
  moreover have "rep_inv S st ?G \<rho>1" if "s n1 = Some \<rho>1" for n1 \<rho>1
    by (rule rep_inv_mono [OF sys_invD(2) [OF inv that]]) (use props in auto)
  moreover have "inj_on InstanceID (proposed s')"
    using proposed_inj [OF inv] lab replica(4) props \<open>r_proposed \<rho> \<subseteq> proposed s\<close>
    by (cases l) (auto simp: Un_absorb2)
  ultimately show ?thesis
    using sys_invD(1,3) [OF inv] unfolding sys_inv_def replica(1) by auto
qed

lemma reachable_inv:
  assumes "started st s0" and "(sys_step S uuid_time iter)\<^sup>*\<^sup>* s0 s"
  shows "sys_inv S st s"
  using assms(2) by induction (auto intro: sys_inv_started [OF assms(1)] sys_step_keeps)

end

section \<open>What the replicas agree on\<close>

interpretation kv_failures: failing_quietly kv_store
proof
  fix s c
  assume "\<forall>val. snd (st_ExecuteInstruction kv_store s c) \<noteq> Ret val"
  then show "fst (st_ExecuteInstruction kv_store s c) = s"
    using exec_error_unchanged [of s c] exec_no_panic [of s c]
    by (cases "snd (ExecuteInstruction s c)") (auto simp: kv_store_def)
qed

lemma sys_inv_agreement:
  assumes inv: "sys_inv S st s" and n: "s n = Some \<rho>" and i: "instances (r_mgr \<rho>) k = Some i"
  shows "\<exists>\<rho>' inst. s (LeaderID i) = Some \<rho>' \<and> inst \<in> r_proposed \<rho>' \<and> origin inst = origin i"
    and "InstanceID i = k"
    and "s n' = Some \<rho>'' \<Longrightarrow> instances (r_mgr \<rho>'') k = Some j \<Longrightarrow> origin j = origin i"
proof -
  have from_client: "\<exists>inst \<in> proposed s. origin inst = origin i"
    if "s n = Some \<rho>" "instances (r_mgr \<rho>) k = Some i" for n \<rho> i
    using rep_invD(2) [OF sys_invD(2) [OF inv that(1)], of i] that(2) by (auto simp: usable_def ranI)
  have key: "InstanceID i = k" if "s n = Some \<rho>" "instances (r_mgr \<rho>) k = Some i" for n \<rho> i
    using mgr_invD(1) [OF rep_invD(1) [OF sys_invD(2) [OF inv that(1)]] that(2)] .
  show "InstanceID i = k" using key [OF n i] .
  obtain inst where inst: "inst \<in> proposed s" "origin inst = origin i" using from_client [OF n i] ..
  obtain p \<rho>' where p: "s p = Some \<rho>'" "inst \<in> r_proposed \<rho>'" using inst(1) by (auto simp: proposed_def ran_def)
  have "LeaderID i = p" using sys_invD(3) [OF inv p] inst(2) by (simp add: origin_def)
  then show "\<exists>\<rho>' inst. s (LeaderID i) = Some \<rho>' \<and> inst \<in> r_proposed \<rho>' \<and> origin inst = origin i"
    using p inst(2) by blast
  show "origin j = origin i" if j: "s n' = Some \<rho>''" "instances (r_mgr \<rho>'') k = Some j"
  proof -
    obtain inst' where inst': "inst' \<in> proposed s" "origin inst' = origin j" using from_client [OF j] ..
    have "InstanceID inst' = InstanceID inst" using key [OF n i] key [OF j] inst(2) inst'(2) by (simp add: origin_def)
    then have "inst' = inst" using inj_onD [OF proposed_inj [OF inv]] inst(1) inst'(1) by blast
    then show ?thesis using inst(2) inst'(2) by simp
  qed
qed

text \<open>
  C2: what the replicas know was asked for by clients, and they agree on it.  In every
  interleaving of the replicas, over a network that loses, repeats, reorders and misdirects messages,
  an instance that any replica knows was made for a client by the node that it names as its
  leader, with the command that it has there; and any two replicas that know an instance under
  the same identifier know the same leader and the same command.
\<close>

theorem commands_agree:
  assumes "started st s0" and "(sys_step kv_store uuid_time iter)\<^sup>*\<^sup>* s0 s"
    and "s n = Some \<rho>" and "instances (r_mgr \<rho>) k = Some i"
  shows "(\<exists>\<rho>' inst. s (LeaderID i) = Some \<rho>' \<and> inst \<in> r_proposed \<rho>' \<and>
      InstanceID inst = k \<and> Command inst = Command i) \<and>
    (\<forall>n' \<rho>' j. s n' = Some \<rho>' \<longrightarrow> instances (r_mgr \<rho>') k = Some j \<longrightarrow>
      LeaderID j = LeaderID i \<and> Command j = Command i)"
proof (intro conjI allI impI)
  note agree = sys_inv_agreement [OF kv_failures.reachable_inv [OF assms(1,2)] assms(3,4)]
  show "\<exists>\<rho>' inst. s (LeaderID i) = Some \<rho>' \<and> inst \<in> r_proposed \<rho>' \<and> InstanceID inst = k \<and> Command inst = Command i"
    using agree(1,2) unfolding origin_def by blast
  show "LeaderID j = LeaderID i" "Command j = Command i"
    if "s n' = Some \<rho>'" "instances (r_mgr \<rho>') k = Some j" for n' \<rho>' j
    using agree(3) [OF that] by (simp_all add: origin_def)
qed


lemma sys_step_grows:
  assumes inv: "sys_inv S st s" and "sys_step S uuid_time iter s s'" and "s n = Some \<rho>"
  shows "\<exists>\<rho>'. s' n = Some \<rho>' \<and> step_ok (r_mgr \<rho>) (r_mgr \<rho>')"
  using assms(2)
proof cases
  case (replica n' \<rho>1 l \<rho>1')
  have "step_ok (r_mgr \<rho>1) (r_mgr \<rho>1')"
    using lstep_step_ok [OF replica(3) rep_invD(1) [OF sys_invD(2) [OF inv replica(2)]]] .
  then show ?thesis using replica(1,2) assms(3) by (cases "n = n'") auto
qed

context failing_quietly
begin

lemma run_grows:
  assumes "sys_inv S st s" and "(sys_step S uuid_time iter)\<^sup>*\<^sup>* s s'" and "s n = Some \<rho>"
  shows "sys_inv S st s' \<and> (\<exists>\<rho>'. s' n = Some \<rho>' \<and> step_ok (r_mgr \<rho>) (r_mgr \<rho>'))"
  using assms(2)
proof induction
  case base
  then show ?case using assms(1,3) by auto
next
  case (step s1 s2)
  then obtain \<rho>1 where "sys_inv S st s1" "s1 n = Some \<rho>1" "step_ok (r_mgr \<rho>) (r_mgr \<rho>1)" by blast
  with sys_step_grows [OF _ step(2)] sys_step_keeps [OF _ step(2)] show ?case by (meson step_ok_trans)
qed

end


section \<open>A run\<close>

text \<open>
  Two nodes.  The first one makes an instance for a client, preaccepts it, sends the request,
  commits and executes it; the second one receives the request and handles it.
\<close>

definition ex_topology :: Topology where
  "ex_topology = add_nodes (NewTopology \<lparr>b0 = 0, b1 = 1\<rparr> ''DC1'' string_bytes 3) [ex_node 1, ex_node 2, ex_node 3]"

definition ex_system :: "(KVStore, Value) system" where
  "ex_system = [\<lparr>b0 = 0, b1 = 1\<rparr> \<mapsto> new_replica ex_topology NewKVStore,
     \<lparr>b0 = 0, b1 = 2\<rparr> \<mapsto> new_replica (NewTopology \<lparr>b0 = 0, b1 = 2\<rparr> ''DC1'' string_bytes 3) NewKVStore]"

lemma ex_system_started: "started NewKVStore ex_system"
proof -
  have "localNodeID ex_topology = \<lparr>b0 = 0, b1 = 1\<rparr>" by code_simp
  moreover have "localNodeID (NewTopology \<lparr>b0 = 0, b1 = 2\<rparr> ''DC1'' string_bytes 3) = \<lparr>b0 = 0, b1 = 2\<rparr>" by code_simp
  ultimately show ?thesis by (auto simp: started_def ex_system_def split: if_splits)
qed

lemma sys_internal:
  "s n = Some \<rho> \<Longrightarrow> lstep S u it \<rho> Internal \<rho>' \<Longrightarrow> (sys_step S u it)\<^sup>*\<^sup>* s0 s \<Longrightarrow> (sys_step S u it)\<^sup>*\<^sup>* s0 (s(n \<mapsto> \<rho>'))"
  by (erule rtranclp.rtrancl_into_rtrancl) (rule sys_step.replica, auto)

lemma sys_hear:
  "s n = Some \<rho> \<Longrightarrow> arrives s msg \<Longrightarrow> (sys_step S u it)\<^sup>*\<^sup>* s0 s \<Longrightarrow>
     (sys_step S u it)\<^sup>*\<^sup>* s0 (s(n \<mapsto> \<rho>\<lparr>r_heard := insert msg (r_heard \<rho>)\<rparr>))"
  by (erule rtranclp.rtrancl_into_rtrancl) (rule sys_step.replica [OF _ lstep.hear], auto)

lemma Instance_ok_query:
  assumes "i = wire_limited (Instance_Copy (ex_query\<lparr>Status := st, Dependencies := [], commitTimeout := t, MaxBallot := b\<rparr>))"
  shows "wire_ok i"
proof -
  have "length (Successors ex_query) = 2" by code_simp
  then show ?thesis
    using assms query_instance(3) [OF ex_query_def]
    by (simp add: wire_ok_def Instance_ok_def Instance_Copy_alt wire_limited_def fits32_def Instruction_ok_def ex_set_def NewInstruction_def)
qed

text \<open>The first node, up to the request.\<close>

lemma ex_system_sends:
  obtains \<rho> i where "(sys_step kv_store (\<lambda>_. 0) id)\<^sup>*\<^sup>* ex_system (ex_system(\<lparr>b0 = 0, b1 = 1\<rparr> \<mapsto> \<rho>))"
    and "instances (r_mgr \<rho>) ida = Some i" and "executed (r_mgr \<rho>) = []" and "mgr_inv (r_mgr \<rho>)"
    and "(\<lparr>b0 = 0, b1 = 2\<rparr>, PreAcceptRequest (Instance_Copy i)) \<in> set (outbox (r_mgr \<rho>))"
    and "wire_ok (wire_limited (Instance_Copy i))" and "InstanceID i = ida" and "Command i = ex_set"
proof -
  let ?A = "\<lparr>b0 = 0, b1 = 1\<rparr> :: NodeId" and ?B = "\<lparr>b0 = 0, b1 = 2\<rparr> :: NodeId"
  let ?\<rho>0 = "new_replica ex_topology NewKVStore :: (KVStore, Value) Replica"
  let ?\<rho>1 = "?\<rho>0\<lparr>r_proposed := insert ex_query (r_proposed ?\<rho>0)\<rparr>"
  have mgr: "r_mgr ?\<rho>0 = ex_first" by (simp add: new_replica_def ex_topology_def ex_first_def ex_leader_def)
  have s0: "ex_system ?A = Some ?\<rho>0" by (simp add: ex_system_def)
  have "lstep kv_store (\<lambda>_. 0) id ?\<rho>0 (Propose ida) ?\<rho>1" by (rule lstep.propose) (simp add: mgr ex_query_def)
  moreover have "proposed ex_system = {}" by (auto simp: proposed_def ran_def ex_system_def new_replica_def split: if_splits)
  ultimately have 1: "(sys_step kv_store (\<lambda>_. 0) id)\<^sup>*\<^sup>* ex_system (ex_system(?A \<mapsto> ?\<rho>1))"
    using sys_step.replica [of ex_system ?A ?\<rho>0] s0 by (intro r_into_rtranclp) auto
  obtain d where d: "getInstanceDeps kv_store (depsMngr ex_first) (ex_query\<lparr>Status := INSTANCE_PREACCEPTED\<rparr>) = (d, Inr [])"
    using ex_first_facts(5) by blast
  note q = query_instance [OF ex_query_def]
  let ?i = "ex_query\<lparr>Status := INSTANCE_PREACCEPTED, Dependencies := [],
      commitTimeout := makePreAcceptCommitTimeout zero_Time, MaxBallot := MaxBallot ex_query + 1\<rparr>"
  let ?m2 = "fst (preAcceptInstance kv_store zero_Time ex_first ex_query True)"
  have first: "executed ex_first = []" "outbox ex_first = []" by (simp_all add: ex_first_def ex_leader_def NewManager_def)
  have m2: "instances ?m2 = [ida \<mapsto> ?i]" "executed ?m2 = []" "outbox ?m2 = []"
    using preAcceptInstance_exact [OF _ q(6) d, of zero_Time] ex_first_facts(2) q(1) first by simp_all
  let ?\<rho>2 = "set_mgr ?\<rho>1 ?m2"
  have "lstep kv_store (\<lambda>_. 0) id ?\<rho>1 Internal ?\<rho>2"
    using lstep.preaccept [of ex_query ?\<rho>1 kv_store "\<lambda>_. 0" id zero_Time True] by (simp add: usable_def lasting_def mgr)
  from sys_internal [of "ex_system(?A \<mapsto> ?\<rho>1)" ?A, OF _ this 1] have 2: "(sys_step kv_store (\<lambda>_. 0) id)\<^sup>*\<^sup>* ex_system (ex_system(?A \<mapsto> ?\<rho>2))" by simp
  let ?msg = "PreAcceptRequest (Instance_Copy ?i)"
  let ?\<rho>3 = "set_mgr ?\<rho>2 (?m2\<lparr>outbox := outbox ?m2 @ map (\<lambda>n. (n, ?msg)) [?B]\<rparr>)"
  have "lstep kv_store (\<lambda>_. 0) id ?\<rho>2 Internal ?\<rho>3"
    using lstep.send [of ?msg ?\<rho>2 kv_store "\<lambda>_. 0" id "[?B]"] m2(1) by (simp add: ran_def)
  from sys_internal [of "ex_system(?A \<mapsto> ?\<rho>2)" ?A, OF _ this 2] have 3: "(sys_step kv_store (\<lambda>_. 0) id)\<^sup>*\<^sup>* ex_system (ex_system(?A \<mapsto> ?\<rho>3))" by simp
  have "mgr_inv ?m2" using step_okD(1) [OF preAcceptInstance_step(1) ex_first_facts(1)] ex_first_facts(1) by blast
  then have inv: "mgr_inv (r_mgr ?\<rho>3)" using step_okD(1) [OF step_ok_outbox] by simp
  show thesis
    by (rule that [OF 3 _ _ inv _ Instance_ok_query [OF refl]]) (use m2 q(1,3) in simp_all)
qed

lemma HandlePreAccept_known:
  assumes "mgr_inv m" and "instances m (InstanceID i) = None" and "HandlePreAccept S now m i = (m', r)"
  shows "\<exists>j. instances m' (InstanceID i) = Some j"
proof -
  obtain m1 err where pre: "preAcceptInstance S now m i False = (m1, err)" by fastforce
  obtain j where j: "instances m1 (InstanceID i) = Some j" using preAcceptInstance_step(2) [OF assms(1), of S now i False] pre by auto
  have "mgr_inv m1" using step_okD(1) [OF preAcceptInstance_step(1) [OF assms(1), of S now i False] assms(1)] pre by simp
  then have "InstanceID j = InstanceID i" using mgr_invD(1) j by blast
  then show ?thesis
    using assms(2,3) j by (auto simp: HandlePreAccept_def Let_def pre imap_Get_def split: if_splits)
qed

lemma ex_system_hears:
  obtains s \<rho> \<rho>' i j where "(sys_step kv_store (\<lambda>_. 0) id)\<^sup>*\<^sup>* ex_system s"
    and "s \<lparr>b0 = 0, b1 = 1\<rparr> = Some \<rho>" and "s \<lparr>b0 = 0, b1 = 2\<rparr> = Some \<rho>'"
    and "instances (r_mgr \<rho>) ida = Some i" and "instances (r_mgr \<rho>') ida = Some j" and "Command i = ex_set"
proof -
  let ?A = "\<lparr>b0 = 0, b1 = 1\<rparr> :: NodeId" and ?B = "\<lparr>b0 = 0, b1 = 2\<rparr> :: NodeId"
  obtain \<rho> i where run: "(sys_step kv_store (\<lambda>_. 0) id)\<^sup>*\<^sup>* ex_system (ex_system(?A \<mapsto> \<rho>))"
    and i: "instances (r_mgr \<rho>) ida = Some i" and "executed (r_mgr \<rho>) = []" and "mgr_inv (r_mgr \<rho>)"
    and out: "(?B, PreAcceptRequest (Instance_Copy i)) \<in> set (outbox (r_mgr \<rho>))"
    and ok: "wire_ok (wire_limited (Instance_Copy i))" and id: "InstanceID i = ida" and cmd: "Command i = ex_set"
    by (rule ex_system_sends)
  let ?s = "ex_system(?A \<mapsto> \<rho>)" and ?msg = "on_wire (PreAcceptRequest (Instance_Copy i))"
  let ?\<rho>B = "new_replica (NewTopology ?B ''DC1'' string_bytes 3) NewKVStore :: (KVStore, Value) Replica"
  let ?\<rho>1 = "?\<rho>B\<lparr>r_heard := insert ?msg (r_heard ?\<rho>B)\<rparr>"
  have "PreAcceptRequest (Instance_Copy i) \<in> sent ?s" using out by (force simp: sent_def ran_def)
  then have "arrives ?s ?msg" by (rule arrivesI) (simp add: ok)
  then have run1: "(sys_step kv_store (\<lambda>_. 0) id)\<^sup>*\<^sup>* ex_system (?s(?B \<mapsto> ?\<rho>1))"
    by (intro sys_hear [OF _ _ run]) (simp_all add: ex_system_def)
  obtain m r where h: "HandlePreAccept kv_store zero_Time (r_mgr ?\<rho>1) (wire_limited (Instance_Copy i)) = (m, r)" by fastforce
  let ?\<rho>2 = "?\<rho>1\<lparr>r_mgr := m, r_replies := r_replies ?\<rho>1 \<union> (case omap PreAcceptResp r of Ret reply \<Rightarrow> {reply} | _ \<Rightarrow> {})\<rparr>"
  have "lstep kv_store (\<lambda>_. 0) id ?\<rho>1 Internal ?\<rho>2" by (rule lstep.handle [of ?msg _ _ zero_Time]) (use h in simp_all)
  from sys_internal [of "?s(?B \<mapsto> ?\<rho>1)" ?B, OF _ this run1]
  have run2: "(sys_step kv_store (\<lambda>_. 0) id)\<^sup>*\<^sup>* ex_system (?s(?B \<mapsto> ?\<rho>2))" by simp
  have "instances (r_mgr ?\<rho>1) ida = None" "mgr_inv (r_mgr ?\<rho>1)"
    by (simp_all add: new_replica_def mgr_inv_New) (simp add: NewManager_def NewInstanceMap_def)
  then obtain j where j: "instances m ida = Some j"
    using HandlePreAccept_known [OF _ _ h] id by (auto simp: wire_limited_def Instance_Copy_alt)
  have "r_mgr ?\<rho>2 = m" by simp
  then show thesis using that [OF run2 _ _ i _ cmd, of ?\<rho>2 j] j by simp
qed

lemma ex_system_executes:
  obtains s \<rho> where "(sys_step kv_store (\<lambda>_. 0) id)\<^sup>*\<^sup>* ex_system s"
    and "s \<lparr>b0 = 0, b1 = 1\<rparr> = Some \<rho>" and "executed (r_mgr \<rho>) = [ida]"
proof -
  let ?A = "\<lparr>b0 = 0, b1 = 1\<rparr> :: NodeId"
  obtain \<rho> i where run: "(sys_step kv_store (\<lambda>_. 0) id)\<^sup>*\<^sup>* ex_system (ex_system(?A \<mapsto> \<rho>))"
    and i: "instances (r_mgr \<rho>) ida = Some i" and ex: "executed (r_mgr \<rho>) = []" and inv: "mgr_inv (r_mgr \<rho>)"
    and "(\<lparr>b0 = 0, b1 = 2\<rparr>, PreAcceptRequest (Instance_Copy i)) \<in> set (outbox (r_mgr \<rho>))"
    and "wire_ok (wire_limited (Instance_Copy i))" and id: "InstanceID i = ida" and cmd: "Command i = ex_set"
    by (rule ex_system_sends)
  let ?m1 = "fst (commitInstance kv_store (r_mgr \<rho>) i True)"
  have "lstep kv_store (\<lambda>_. 0) id \<rho> Internal (set_mgr \<rho> ?m1)"
    by (rule lstep.commit) (use i in \<open>simp add: usable_def ranI\<close>)
  from sys_internal [of "ex_system(?A \<mapsto> \<rho>)" ?A, OF _ this run]
  have run1: "(sys_step kv_store (\<lambda>_. 0) id)\<^sup>*\<^sup>* ex_system (ex_system(?A \<mapsto> set_mgr \<rho> ?m1))" by simp
  note com = commitInstance_step [OF inv, of kv_store i True]
  note inv1 = step_okD(1) [OF com(1) inv]
  obtain j where j: "instances ?m1 ida = Some j" "INSTANCE_COMMITTED \<le> Status j" using com(2) id by auto
  have ex1: "executed ?m1 = []" using derives_commit [of i "r_mgr \<rho>" kv_store True] ex by (simp add: derives_def)
  then have "Status j \<noteq> INSTANCE_EXECUTED" using mgr_invD(4) [OF inv1, of ida] j(1) by auto
  then have st: "Status j = INSTANCE_COMMITTED"
    using j(2) mgr_invD(2) [OF inv1 j(1)] by (simp add: status_defs word_le_nat_alt word_unat_eq_iff)
  have "Command j = ex_set" using step_okD(2) [OF com(1) inv i] j(1) cmd instance_grows_fields by fastforce
  then obtain s val where eff: "instance_effect kv_store j (store ?m1) = (s, Ret val)"
    using ex_set_accepted [of "store ?m1"] by (cases "Noop j") (auto simp: instance_effect_def)
  obtain m2 r where app: "applyInstance kv_store ?m1 j = (m2, r)" by fastforce
  have "lstep kv_store (\<lambda>_. 0) id (set_mgr \<rho> ?m1) Internal (set_mgr \<rho> m2)"
    using lstep.run [of "set_mgr \<rho> ?m1" ida j kv_store "\<lambda>_. 0" id] j(1) app by simp
  from sys_internal [of "ex_system(?A \<mapsto> set_mgr \<rho> ?m1)" ?A, OF _ this run1]
  have run2: "(sys_step kv_store (\<lambda>_. 0) id)\<^sup>*\<^sup>* ex_system (ex_system(?A \<mapsto> set_mgr \<rho> m2))" by simp
  show thesis
    by (rule that [OF run2, of "set_mgr \<rho> m2"]) (use applyInstance_fields(2) [OF st eff app] ex1 mgr_invD(1) [OF inv1 j(1)] in simp_all)
qed

theorem commands_agree_witness:
  "\<exists>s \<rho> \<rho>' i j. started NewKVStore ex_system \<and> (sys_step kv_store (\<lambda>_. 0) id)\<^sup>*\<^sup>* ex_system s \<and>
     s \<lparr>b0 = 0, b1 = 1\<rparr> = Some \<rho> \<and> s \<lparr>b0 = 0, b1 = 2\<rparr> = Some \<rho>' \<and>
     instances (r_mgr \<rho>) ida = Some i \<and> instances (r_mgr \<rho>') ida = Some j \<and> LeaderID j = LeaderID i \<and> Command j = ex_set"
proof -
  obtain s \<rho> \<rho>' i j where run: "(sys_step kv_store (\<lambda>_. 0) id)\<^sup>*\<^sup>* ex_system s"
    and A: "s \<lparr>b0 = 0, b1 = 1\<rparr> = Some \<rho>" and B: "s \<lparr>b0 = 0, b1 = 2\<rparr> = Some \<rho>'"
    and i: "instances (r_mgr \<rho>) ida = Some i" and j: "instances (r_mgr \<rho>') ida = Some j" and cmd: "Command i = ex_set"
    by (rule ex_system_hears)
  have "LeaderID j = LeaderID i \<and> Command j = Command i"
    using commands_agree [OF ex_system_started run A i] B j by blast
  then show ?thesis using ex_system_started run A B i j cmd by auto
qed



end
