(* ===== verification/Runs.thy ===== *)
theory Runs
  imports System
begin

text \<open>
  The goroutines of a leader as steps of the system.  A run of \<^verbatim>\<open>ExecuteQuery\<close>, from
  the call to the result or an error, with the prepares that it starts, is a sequence of the
  atomic steps of its replica; so what holds in every interleaving of these steps
  holds of the code.

  The rules follow the constructs of the processes.  \<open>follows L X P p Y\<close> says that \<open>p\<close>, started
  where the instances in \<open>X\<close> came from messages or clients and the manager satisfies \<open>P\<close>, takes
  steps with labels in \<open>L\<close> only and returns a value \<open>a\<close> for which the instances in \<open>Y a\<close> came
  from messages or clients as well.
\<close>

named_theorems follows_intros \<open>processes that take steps of the system\<close>

section \<open>Paths\<close>

definition lpath ::
    "('s, 'v) Store \<Rightarrow> (bytes \<Rightarrow> int) \<Rightarrow> (InstanceID graph \<Rightarrow> InstanceID graph) \<Rightarrow> label set \<Rightarrow>
     ('s, 'v) Replica \<Rightarrow> ('s, 'v) Replica \<Rightarrow> bool" where
  "lpath S uuid_time iter L = (\<lambda>\<rho> \<rho>'. \<exists>l \<in> insert Internal L. lstep S uuid_time iter \<rho> l \<rho>')\<^sup>*\<^sup>*"

text \<open>The other goroutines of the replica take such steps, and the messages are among the labels.\<close>

definition sched_in ::
    "('s, 'v) Store \<Rightarrow> (bytes \<Rightarrow> int) \<Rightarrow> (InstanceID graph \<Rightarrow> InstanceID graph) \<Rightarrow> label set \<Rightarrow>
     ('s, 'v) schedule \<Rightarrow> bool" where
  "sched_in S uuid_time iter L es \<longleftrightarrow>
     (\<forall>msg. Recv msg \<in> set es \<longrightarrow> Hear msg \<in> L) \<and>
     (\<forall>f. Env f \<in> set es \<longrightarrow> (\<forall>\<rho>. \<exists>\<rho>'. lpath S uuid_time iter L \<rho> \<rho>' \<and> r_mgr \<rho>' = f (r_mgr \<rho>)))"

definition follows ::
    "('s, 'v) Store \<Rightarrow> (bytes \<Rightarrow> int) \<Rightarrow> (InstanceID graph \<Rightarrow> InstanceID graph) \<Rightarrow> label set \<Rightarrow>
     Instance set \<Rightarrow> (('s, 'v) Manager \<Rightarrow> bool) \<Rightarrow> ('s, 'v, 'a) proc \<Rightarrow> ('a \<Rightarrow> Instance set) \<Rightarrow> bool" where
  "follows S uuid_time iter L X P p Y \<longleftrightarrow>
     (\<forall>\<rho> es r m' es'. X \<subseteq> lasting \<rho> \<longrightarrow> P (r_mgr \<rho>) \<longrightarrow> sched_in S uuid_time iter L es \<longrightarrow>
        p (r_mgr \<rho>) es = Some (r, m', es') \<longrightarrow>
        (\<exists>\<rho>'. lpath S uuid_time iter L \<rho> \<rho>' \<and> r_mgr \<rho>' = m' \<and> (\<exists>used. es = used @ es') \<and>
           (\<forall>a. r = Ret a \<longrightarrow> Y a \<subseteq> lasting \<rho>')))"

lemma lpath_refl [simp]: "lpath S u it L \<rho> \<rho>"
  by (simp add: lpath_def)

lemma lpath_trans: "lpath S u it L \<rho> \<rho>' \<Longrightarrow> lpath S u it L \<rho>' \<rho>'' \<Longrightarrow> lpath S u it L \<rho> \<rho>''"
  unfolding lpath_def by (rule rtranclp_trans)

lemma lpath_step: "lstep S u it \<rho> l \<rho>' \<Longrightarrow> l \<in> insert Internal L \<Longrightarrow> lpath S u it L \<rho> \<rho>'"
  unfolding lpath_def by (rule r_into_rtranclp) blast

lemma lstep_lasting: "lstep S u it \<rho> l \<rho>' \<Longrightarrow> lasting \<rho> \<subseteq> lasting \<rho>'"
  by (drule lstep_label) (cases l; auto simp: lasting_def)

lemma lpath_lasting: "lpath S u it L \<rho> \<rho>' \<Longrightarrow> lasting \<rho> \<subseteq> lasting \<rho>'"
  unfolding lpath_def by (induction rule: rtranclp_induct) (auto dest: lstep_lasting)

lemma sched_in_append:
  "sched_in S u it L (es @ es') \<longleftrightarrow> sched_in S u it L es \<and> sched_in S u it L es'"
  unfolding sched_in_def set_append by blast

section \<open>Rules\<close>

lemma followsI:
  "(\<And>\<rho> es r m' es'. X \<subseteq> lasting \<rho> \<Longrightarrow> P (r_mgr \<rho>) \<Longrightarrow> sched_in S u it L es \<Longrightarrow> p (r_mgr \<rho>) es = Some (r, m', es') \<Longrightarrow>
     \<exists>\<rho>'. lpath S u it L \<rho> \<rho>' \<and> r_mgr \<rho>' = m' \<and> (\<exists>used. es = used @ es') \<and> (\<forall>a. r = Ret a \<longrightarrow> Y a \<subseteq> lasting \<rho>')) \<Longrightarrow>
   follows S u it L X P p Y"
  unfolding follows_def by blast

lemma followsE:
  assumes "follows S u it L X P p Y" and "X \<subseteq> lasting \<rho>" and "P (r_mgr \<rho>)" and "sched_in S u it L es"
    and "p (r_mgr \<rho>) es = Some (r, m', es')"
  obtains \<rho>' used where "lpath S u it L \<rho> \<rho>'" and "r_mgr \<rho>' = m'" and "es = used @ es'" and "sched_in S u it L es'"
    and "\<forall>a. r = Ret a \<longrightarrow> Y a \<subseteq> lasting \<rho>'" and "lasting \<rho> \<subseteq> lasting \<rho>'"
proof -
  obtain \<rho>' used where *: "lpath S u it L \<rho> \<rho>'" "r_mgr \<rho>' = m'" "es = used @ es'" "\<forall>a. r = Ret a \<longrightarrow> Y a \<subseteq> lasting \<rho>'"
    using assms(1) [unfolded follows_def, rule_format, OF assms(2-5)] by blast
  have "sched_in S u it L es'" using assms(4) *(3) sched_in_append by blast
  then show thesis using that [OF *(1-3)] *(4) lpath_lasting [OF *(1)] by blast
qed

lemma follows_weaken:
  "follows S u it L X P p Y \<Longrightarrow> X \<subseteq> X' \<Longrightarrow> (\<And>m. P' m \<Longrightarrow> P m) \<Longrightarrow> (\<And>a. Y' a \<subseteq> Y a) \<Longrightarrow> follows S u it L X' P' p Y'"
  unfolding follows_def by (meson order.trans)

text \<open>A process that does not wait and takes at most one step.\<close>

lemma follows_atomic:
  assumes "\<And>\<rho> es r m' es'. X \<subseteq> lasting \<rho> \<Longrightarrow> P (r_mgr \<rho>) \<Longrightarrow> p (r_mgr \<rho>) es = Some (r, m', es') \<Longrightarrow>
    es' = es \<and> (m' = r_mgr \<rho> \<or> lstep S u it \<rho> Internal (set_mgr \<rho> m')) \<and> (\<forall>a. r = Ret a \<longrightarrow> Y a \<subseteq> X)"
  shows "follows S u it L X P p Y"
proof (rule followsI)
  fix \<rho> es r m' es'
  assume X: "X \<subseteq> lasting \<rho>" and "P (r_mgr \<rho>)" and "p (r_mgr \<rho>) es = Some (r, m', es')"
  note * = assms [OF this]
  have "lpath S u it L \<rho> (set_mgr \<rho> m')"
    using * lpath_step [of S u it \<rho> Internal "set_mgr \<rho> m'" L] by (elim conjE disjE) simp_all
  moreover have "lasting (set_mgr \<rho> m') = lasting \<rho>" by (simp add: lasting_def)
  ultimately show "\<exists>\<rho>'. lpath S u it L \<rho> \<rho>' \<and> r_mgr \<rho>' = m' \<and> (\<exists>used. es = used @ es') \<and> (\<forall>a. r = Ret a \<longrightarrow> Y a \<subseteq> lasting \<rho>')"
    using * X by (intro exI [of _ "set_mgr \<rho> m'"]) auto
qed

lemma follows_return: "Y a \<subseteq> X \<Longrightarrow> follows S u it L X P (preturn a) Y"
  by (rule follows_atomic) (auto simp: preturn_def)

lemma follows_basic [follows_intros]:
  "follows S u it L X P (preturn a) (\<lambda>_. {})" "follows S u it L X P (pfail e) Y"
  by (rule follows_atomic; auto simp: preturn_def pfail_def)+

lemma follows_bind:
  assumes "follows S u it L X P p Y" and "\<And>a. follows S u it L (X \<union> Y a) (\<lambda>_. True) (f a) Z"
  shows "follows S u it L X P (pbind p f) Z"
proof (rule followsI)
  fix \<rho> es r m' es'
  assume X: "X \<subseteq> lasting \<rho>" and P: "P (r_mgr \<rho>)" and es: "sched_in S u it L es" and run: "pbind p f (r_mgr \<rho>) es = Some (r, m', es')"
  obtain r1 m1 es1 where p: "p (r_mgr \<rho>) es = Some (r1, m1, es1)"
    using run by (cases "p (r_mgr \<rho>) es") (auto simp: pbind_def)
  obtain \<rho>1 used where 1: "lpath S u it L \<rho> \<rho>1" "r_mgr \<rho>1 = m1" "es = used @ es1" "sched_in S u it L es1"
    "\<forall>a. r1 = Ret a \<longrightarrow> Y a \<subseteq> lasting \<rho>1" "lasting \<rho> \<subseteq> lasting \<rho>1"
    by (rule followsE [OF assms(1) X P es p])
  show "\<exists>\<rho>'. lpath S u it L \<rho> \<rho>' \<and> r_mgr \<rho>' = m' \<and> (\<exists>used. es = used @ es') \<and> (\<forall>a. r = Ret a \<longrightarrow> Z a \<subseteq> lasting \<rho>')"
  proof (cases r1)
    case (Ret a)
    then have f: "f a (r_mgr \<rho>1) es1 = Some (r, m', es')" using run p 1(2) by (simp add: pbind_def)
    have "X \<union> Y a \<subseteq> lasting \<rho>1" using X 1(5) Ret 1(6) by blast
    from followsE [OF assms(2) this TrueI 1(4) f] show ?thesis
      using lpath_trans [OF 1(1)] 1(3) by (metis append.assoc)
  qed (use run p 1 in \<open>auto simp: pbind_def\<close>)
qed

lemma follows_catch:
  assumes "follows S u it L X P p Y" and "\<And>e. follows S u it L X (\<lambda>_. True) (h e) Y"
  shows "follows S u it L X P (pcatch p h) Y"
proof (rule followsI)
  fix \<rho> es r m' es'
  assume X: "X \<subseteq> lasting \<rho>" and P: "P (r_mgr \<rho>)" and es: "sched_in S u it L es" and run: "pcatch p h (r_mgr \<rho>) es = Some (r, m', es')"
  obtain r1 m1 es1 where p: "p (r_mgr \<rho>) es = Some (r1, m1, es1)"
    using run by (cases "p (r_mgr \<rho>) es") (auto simp: pcatch_def)
  obtain \<rho>1 used where 1: "lpath S u it L \<rho> \<rho>1" "r_mgr \<rho>1 = m1" "es = used @ es1" "sched_in S u it L es1"
    "\<forall>a. r1 = Ret a \<longrightarrow> Y a \<subseteq> lasting \<rho>1" "lasting \<rho> \<subseteq> lasting \<rho>1"
    by (rule followsE [OF assms(1) X P es p])
  show "\<exists>\<rho>'. lpath S u it L \<rho> \<rho>' \<and> r_mgr \<rho>' = m' \<and> (\<exists>used. es = used @ es') \<and> (\<forall>a. r = Ret a \<longrightarrow> Y a \<subseteq> lasting \<rho>')"
  proof (cases r1)
    case (Err e)
    then have h: "h e (r_mgr \<rho>1) es1 = Some (r, m', es')" using run p 1(2) by (simp add: pcatch_def)
    have "X \<subseteq> lasting \<rho>1" using X 1(6) by blast
    from followsE [OF assms(2) this TrueI 1(4) h] show ?thesis
      using lpath_trans [OF 1(1)] 1(3) by (metis append.assoc)
  qed (use run p 1 in \<open>auto simp: pcatch_def\<close>)
qed

text \<open>Reading the manager keeps what is known about it.\<close>

lemma follows_get:
  "(\<And>a. follows S u it L X P (f a) Z) \<Longrightarrow> follows S u it L X P (pbind (pget g) f) Z"
  "(\<And>a. follows S u it L X P (h a) Z) \<Longrightarrow> follows S u it L X P (pbind (pnow clock) h) Z"
  unfolding follows_def pbind_def pget_def pnow_def by simp_all

lemma follows_deref:
  assumes "\<And>i. follows S u it L X (\<lambda>m. instances m k = Some i) (f i) Z"
  shows "follows S u it L X P (pbind (pderef k) f) Z"
proof (rule followsI)
  fix \<rho> es r m' es'
  assume X: "X \<subseteq> lasting \<rho>" and es: "sched_in S u it L es" and run: "pbind (pderef k) f (r_mgr \<rho>) es = Some (r, m', es')"
  show "\<exists>\<rho>'. lpath S u it L \<rho> \<rho>' \<and> r_mgr \<rho>' = m' \<and> (\<exists>used. es = used @ es') \<and> (\<forall>a. r = Ret a \<longrightarrow> Z a \<subseteq> lasting \<rho>')"
  proof (cases "instances (r_mgr \<rho>) k")
    case None
    then have "r_mgr \<rho> = m' \<and> es' = es \<and> (\<forall>a. r \<noteq> Ret a)" using run by (auto simp: pbind_def pderef_def imap_Get_def)
    then show ?thesis by (intro exI [of _ \<rho>]) simp
  next
    case (Some i)
    then have "f i (r_mgr \<rho>) es = Some (r, m', es')" using run by (simp add: pbind_def pderef_def imap_Get_def)
    from followsE [OF assms X Some es this] show ?thesis by blast
  qed
qed

text \<open>The steps.\<close>

lemma follows_pstep:
  assumes "\<And>\<rho>. X \<subseteq> lasting \<rho> \<Longrightarrow> P (r_mgr \<rho>) \<Longrightarrow> lstep S u it \<rho> Internal (set_mgr \<rho> (fst (f (r_mgr \<rho>))))"
  shows "follows S u it L X P (pstep f) (\<lambda>_. {})"
proof (rule follows_atomic)
  fix \<rho> es r m' es'
  assume *: "X \<subseteq> lasting \<rho>" "P (r_mgr \<rho>)" and "pstep f (r_mgr \<rho>) es = Some (r, m', es')"
  then have "m' = fst (f (r_mgr \<rho>)) \<and> es' = es" by (auto simp: pstep_def split: prod.splits option.splits)
  then show "es' = es \<and> (m' = r_mgr \<rho> \<or> lstep S u it \<rho> Internal (set_mgr \<rho> m')) \<and> (\<forall>a. r = Ret a \<longrightarrow> {} \<subseteq> X)"
    using assms [OF *] by simp
qed

lemma follows_pout:
  assumes "\<And>\<rho>. X \<subseteq> lasting \<rho> \<Longrightarrow> P (r_mgr \<rho>) \<Longrightarrow> lstep S u it \<rho> Internal (set_mgr \<rho> (fst (f (r_mgr \<rho>))))"
  shows "follows S u it L X P (pout f) (\<lambda>_. {})"
proof (rule follows_atomic)
  fix \<rho> es r m' es'
  assume *: "X \<subseteq> lasting \<rho>" "P (r_mgr \<rho>)" and "pout f (r_mgr \<rho>) es = Some (r, m', es')"
  then have "m' = fst (f (r_mgr \<rho>)) \<and> es' = es" by (auto simp: pout_def split: prod.splits)
  then show "es' = es \<and> (m' = r_mgr \<rho> \<or> lstep S u it \<rho> Internal (set_mgr \<rho> m')) \<and> (\<forall>a. r = Ret a \<longrightarrow> {} \<subseteq> X)"
    using assms [OF *] by simp
qed

lemma usableI: "X \<subseteq> lasting \<rho> \<Longrightarrow> i \<in> X \<union> ran (instances (r_mgr \<rho>)) \<Longrightarrow> i \<in> usable \<rho>"
  by (auto simp: usable_def)

lemma follows_instance_steps:
  assumes "\<And>m. P m \<Longrightarrow> i \<in> X \<union> ran (instances m)"
  shows "follows S u it L X P (pstep (\<lambda>m. preAcceptInstance S now m i incr)) (\<lambda>_. {})"
    and "follows S u it L X P (pstep (\<lambda>m. acceptInstance S now m i incr)) (\<lambda>_. {})"
    and "follows S u it L X P (pstep (\<lambda>m. commitInstance S m i incr)) (\<lambda>_. {})"
    and "follows S u it L X P (pstep (\<lambda>m. (fst (getOrSetInstance S m i), None))) (\<lambda>_. {})"
  by (rule follows_pstep, rule lstep.preaccept, erule usableI, erule assms)
    (rule follows_pstep, rule lstep.accept, erule usableI, erule assms,
     rule follows_pstep, rule lstep.commit, erule usableI, erule assms,
     rule follows_pstep, unfold fst_conv, rule lstep.know, erule usableI, erule assms)

lemma follows_missing:
  "set insts \<subseteq> X \<Longrightarrow> follows S u it L X P (pout (\<lambda>m. addMissingInstancesUnsafe S m insts)) (\<lambda>_. {})"
  by (rule follows_pout, rule lstep.missing) (auto simp: usable_def)

lemma follows_put:
  assumes "\<And>\<rho>. P (r_mgr \<rho>) \<Longrightarrow> lstep S u it \<rho> Internal (set_mgr \<rho> (put_instance (r_mgr \<rho>) j))"
  shows "follows S u it L X P (pput j) (\<lambda>_. {})"
  by (rule follows_atomic) (auto simp: pput_def dest: assms)

lemma follows_puts:
  "follows S u it L X (\<lambda>m. instances m k = Some i) (pput (fst (updateBallot i b))) (\<lambda>_. {})"
  "follows S u it L X (\<lambda>m. instances m k = Some i) (pput (fst (incrementBallot i))) (\<lambda>_. {})"
  "follows S u it L X (\<lambda>m. instances m k = Some i) (pput (fst (mergeAttributes i deps))) (\<lambda>_. {})"
  "Status i \<le> INSTANCE_PREACCEPTED \<Longrightarrow> follows S u it L X (\<lambda>m. instances m k = Some i) (pput (setNoop i)) (\<lambda>_. {})"
  by (intro follows_put lstep.raise lstep.increment lstep.merge lstep.noop; assumption)+

lemma follows_ballots:
  "follows S u it L X (\<lambda>m. instances m k = Some i)
     (pstep (\<lambda>m. (updateInstanceBallotFromResponses m i ballots, None))) (\<lambda>_. {})"
  by (rule follows_pstep) (simp add: updateInstanceBallotFromResponses_def Let_def, rule lstep.raise)

text \<open>A message is sent with copies of instances that the replica has.\<close>

lemma follows_send:
  assumes "\<And>m. P m \<Longrightarrow> carried msg \<subseteq> Instance_Copy ` ran (instances m)"
  shows "follows S u it L X P (psend replicas msg) (\<lambda>_. {})" and "follows S u it L X P (psend_id nid msg) (\<lambda>_. {})"
proof -
  have step: "lstep S u it \<rho> Internal (set_mgr \<rho> ((r_mgr \<rho>)\<lparr>outbox := outbox (r_mgr \<rho>) @ map (\<lambda>n. (n, msg)) ns\<rparr>))"
    if "P (r_mgr \<rho>)" for \<rho> ns
    by (rule lstep.send) (rule assms [OF that])
  show "follows S u it L X P (psend replicas msg) (\<lambda>_. {})"
    by (rule follows_atomic) (use step [of _ "map node_id replicas"] in \<open>auto simp: psend_def comp_def\<close>)
  show "follows S u it L X P (psend_id nid msg) (\<lambda>_. {})"
    by (rule follows_atomic) (use step [of _ "[nid]"] in \<open>auto simp: psend_id_def\<close>)
qed

section \<open>Waiting\<close>

text \<open>What an event does to the replica: a message is heard, another goroutine takes its steps.\<close>

lemma event_step:
  assumes "sched_in S u it L (e # es)"
  obtains \<rho>1 where "sched_in S u it L es" and "lpath S u it L \<rho> \<rho>1" and "lasting \<rho> \<subseteq> lasting \<rho>1"
    and "r_mgr \<rho>1 = (case e of Env f \<Rightarrow> f (r_mgr \<rho>) | _ \<Rightarrow> r_mgr \<rho>)"
    and "\<forall>msg. e = Recv msg \<longrightarrow> carried msg \<subseteq> lasting \<rho>1"
proof -
  have es: "sched_in S u it L es" using assms sched_in_append [of S u it L "[e]" es] by simp
  have "\<exists>\<rho>1. lpath S u it L \<rho> \<rho>1 \<and> r_mgr \<rho>1 = (case e of Env f \<Rightarrow> f (r_mgr \<rho>) | _ \<Rightarrow> r_mgr \<rho>) \<and>
      (\<forall>msg. e = Recv msg \<longrightarrow> carried msg \<subseteq> lasting \<rho>1)"
  proof (cases e)
    case (Recv msg)
    then have "Hear msg \<in> L" using assms by (simp add: sched_in_def)
    then have "lpath S u it L \<rho> (\<rho>\<lparr>r_heard := insert msg (r_heard \<rho>)\<rparr>)" by (intro lpath_step [OF lstep.hear]) simp
    then show ?thesis using Recv by (intro exI [of _ "\<rho>\<lparr>r_heard := insert msg (r_heard \<rho>)\<rparr>"]) (auto simp: lasting_def)
  next
    case (Env f)
    then show ?thesis using assms by (auto simp: sched_in_def)
  qed (auto intro: exI [of _ \<rho>])
  then show thesis using that es lpath_lasting by blast
qed

lemma await_path:
  assumes C: "\<And>msg r. sel msg = Some r \<Longrightarrow> C r \<subseteq> carried msg"
  shows "sched_in S u it L es \<Longrightarrow> await sel t q n rs (r_mgr \<rho>) es = Some (r, m', es') \<Longrightarrow>
    (\<Union>x \<in> set rs. C x) \<subseteq> lasting \<rho> \<Longrightarrow>
    \<exists>\<rho>'. lpath S u it L \<rho> \<rho>' \<and> r_mgr \<rho>' = m' \<and> (\<exists>used. es = used @ es') \<and>
      (\<forall>a. r = Ret a \<longrightarrow> (\<Union>x \<in> set a. C x) \<subseteq> lasting \<rho>')"
proof (induction es arbitrary: \<rho> n rs)
  case Nil
  then show ?case by (auto split: if_splits intro!: exI [of _ \<rho>])
next
  case (Cons e es)
  show ?case
  proof (cases "n < q")
    case True
    obtain \<rho>1 where 1: "sched_in S u it L es" "lpath S u it L \<rho> \<rho>1" "lasting \<rho> \<subseteq> lasting \<rho>1"
      "r_mgr \<rho>1 = (case e of Env f \<Rightarrow> f (r_mgr \<rho>) | _ \<Rightarrow> r_mgr \<rho>)"
      "\<forall>msg. e = Recv msg \<longrightarrow> carried msg \<subseteq> lasting \<rho>1"
      by (rule event_step [OF Cons.prems(1)])
    have more: ?thesis
      if run: "await sel t q n' rs' (r_mgr \<rho>1) es = Some (r, m', es')" and rs': "(\<Union>x \<in> set rs'. C x) \<subseteq> lasting \<rho>1" for n' rs'
    proof -
      obtain \<rho>' used where "lpath S u it L \<rho>1 \<rho>'" "r_mgr \<rho>' = m'" "es = used @ es'"
        "\<forall>a. r = Ret a \<longrightarrow> (\<Union>x \<in> set a. C x) \<subseteq> lasting \<rho>'"
        using Cons.IH [OF 1(1) run rs'] by blast
      then show ?thesis using lpath_trans [OF 1(2)] by (intro exI [of _ \<rho>'] conjI exI [of _ "e # used"]) auto
    qed
    have rs: "(\<Union>x \<in> set rs. C x) \<subseteq> lasting \<rho>1" using Cons.prems(3) 1(3) by blast
    have stop: ?thesis if "m' = r_mgr \<rho>" "es' = es" "\<forall>a. r \<noteq> Ret a"
      using that by (intro exI [of _ \<rho>] conjI exI [of _ "[e]"]) auto
    show ?thesis
    proof (cases e)
      case (Recv msg)
      then show ?thesis
        using Cons.prems(2) True 1(4,5) rs C [of msg] more [of n rs] more [of "n + 1" "rs @ [the (sel msg)]"]
        by (cases "sel msg") auto
    qed (use Cons.prems(2) True 1(4) rs more [of n rs] stop in auto)
  qed (use Cons.prems in \<open>auto intro!: exI [of _ \<rho>]\<close>)
qed

lemma follows_await:
  assumes "\<And>msg r. sel msg = Some r \<Longrightarrow> C r \<subseteq> carried msg"
  shows "follows S u it L X P (await sel t q n []) (\<lambda>rs. \<Union>x \<in> set rs. C x)"
  by (rule followsI) (rule await_path [OF assms], auto)

lemma follows_select [follows_intros]:
  fixes S :: "('s, 'v) Store"
  shows "follows S u it L X P (select k pick) (\<lambda>_. {})"
proof (rule followsI)
  fix \<rho> :: "('s, 'v) Replica" and es r m' es'
  assume "sched_in S u it L es" and "select k pick (r_mgr \<rho>) es = Some (r, m', es')"
  then show "\<exists>\<rho>'. lpath S u it L \<rho> \<rho>' \<and> r_mgr \<rho>' = m' \<and> (\<exists>used. es = used @ es') \<and> (\<forall>a. r = Ret a \<longrightarrow> {} \<subseteq> lasting \<rho>')"
  proof (induction es arbitrary: \<rho>)
    case (Cons e es)
    obtain \<rho>1 where 1: "sched_in S u it L es" "lpath S u it L \<rho> \<rho>1"
      "r_mgr \<rho>1 = (case e of Env f \<Rightarrow> f (r_mgr \<rho>) | _ \<Rightarrow> r_mgr \<rho>)"
      by (rule event_step [OF Cons.prems(1)]) blast
    have "select k pick (r_mgr \<rho>1) es = Some (r, m', es') \<or> m' = r_mgr \<rho>1 \<and> es' = es"
      using Cons.prems(2) 1(3) by (cases e) (auto split: option.splits if_splits)
    then show ?case
    proof
      assume "select k pick (r_mgr \<rho>1) es = Some (r, m', es')"
      from Cons.IH [OF 1(1) this] obtain \<rho>' used where "lpath S u it L \<rho>1 \<rho>'" "r_mgr \<rho>' = m'" "es = used @ es'" by blast
      then show ?thesis using lpath_trans [OF 1(2)] by (intro exI [of _ \<rho>'] conjI exI [of _ "e # used"]) auto
    next
      assume "m' = r_mgr \<rho>1 \<and> es' = es"
      then show ?thesis using 1(2) by (intro exI [of _ \<rho>1] conjI exI [of _ "[e]"]) auto
    qed
  qed simp
qed

lemma drain_path:
  assumes C: "\<And>msg r. sel msg = Some r \<Longrightarrow> C r \<subseteq> carried msg"
  shows "sched_in S u it L es \<Longrightarrow> drain sel rs (r_mgr \<rho>) es = Some (r, m', es') \<Longrightarrow>
    (\<Union>x \<in> set rs. C x) \<subseteq> lasting \<rho> \<Longrightarrow>
    \<exists>\<rho>'. lpath S u it L \<rho> \<rho>' \<and> r_mgr \<rho>' = m' \<and> (\<exists>used. es = used @ es') \<and>
      (\<forall>a. r = Ret a \<longrightarrow> (\<Union>x \<in> set a. C x) \<subseteq> lasting \<rho>')"
proof (induction es arbitrary: \<rho> rs)
  case Nil
  then show ?case by (auto intro!: exI [of _ \<rho>])
next
  case (Cons e es)
  show ?case
  proof (cases "\<exists>msg x. e = Recv msg \<and> sel msg = Some x")
    case True
    then obtain msg x where e: "e = Recv msg" "sel msg = Some x" by blast
    obtain \<rho>1 where 1: "sched_in S u it L es" "lpath S u it L \<rho> \<rho>1" "lasting \<rho> \<subseteq> lasting \<rho>1"
      "r_mgr \<rho>1 = (case e of Env f \<Rightarrow> f (r_mgr \<rho>) | _ \<Rightarrow> r_mgr \<rho>)"
      "\<forall>msg. e = Recv msg \<longrightarrow> carried msg \<subseteq> lasting \<rho>1"
      by (rule event_step [OF Cons.prems(1)])
    have "(\<Union>x \<in> set (rs @ [x]). C x) \<subseteq> lasting \<rho>1" using Cons.prems(3) 1(3,5) e C [OF e(2)] by auto
    moreover have "drain sel (rs @ [x]) (r_mgr \<rho>1) es = Some (r, m', es')" using Cons.prems(2) 1(4) e by simp
    ultimately obtain \<rho>' used where "lpath S u it L \<rho>1 \<rho>'" "r_mgr \<rho>' = m'" "es = used @ es'"
      "\<forall>a. r = Ret a \<longrightarrow> (\<Union>x \<in> set a. C x) \<subseteq> lasting \<rho>'"
      using Cons.IH [OF 1(1)] by blast
    then show ?thesis using lpath_trans [OF 1(2)] by (intro exI [of _ \<rho>'] conjI exI [of _ "e # used"]) auto
  next
    case False
    then have "r = Ret rs \<and> m' = r_mgr \<rho> \<and> es' = e # es"
      using Cons.prems(2) by (cases e) (auto split: option.splits)
    then show ?thesis using Cons.prems(3) by (intro exI [of _ \<rho>]) auto
  qed
qed

lemma follows_drain:
  assumes "\<And>msg r. sel msg = Some r \<Longrightarrow> C r \<subseteq> carried msg" and "(\<Union>x \<in> set rs. C x) \<subseteq> X"
  shows "follows S u it L X P (drain sel rs) (\<lambda>rs. \<Union>x \<in> set rs. C x)"
  by (rule followsI) (rule drain_path [OF assms(1)], use assms(2) in auto)

section \<open>The phases\<close>

lemma follows_skip: "follows S u it L X P p (\<lambda>_. {}) \<Longrightarrow> follows S u it L X P (skip_invalid_status p) (\<lambda>_. {})"
  unfolding skip_invalid_status_def by (rule follows_catch) (auto intro: follows_intros)

text \<open>Going on after a step, of whose result nothing more is needed.\<close>

lemma follows_seq:
  "follows S u it L X P p (\<lambda>_. {}) \<Longrightarrow> (\<And>a. follows S u it L X (\<lambda>_. True) (f a) Z) \<Longrightarrow> follows S u it L X P (pbind p f) Z"
  by (rule follows_bind [where Y = "\<lambda>_. {}"]) simp_all

lemma sel_carried:
  "sel_PreAcceptResponse msg = Some r \<Longrightarrow> set (pa_MissingInstances r) \<subseteq> carried msg"
  "sel_PrepareResponse msg = Some pr \<Longrightarrow> set_option (p_Instance pr) \<subseteq> carried msg"
  by (cases msg; auto)+

lemma carried_copy:
  "instances m k = Some i \<Longrightarrow> carried (PreAcceptRequest (Instance_Copy i)) \<subseteq> Instance_Copy ` ran (instances m)"
  "instances m k = Some i \<Longrightarrow> carried (AcceptRequest (Instance_Copy i) []) \<subseteq> Instance_Copy ` ran (instances m)"
  "instances m k = Some i \<Longrightarrow> carried (CommitRequest (Instance_Copy i)) \<subseteq> Instance_Copy ` ran (instances m)"
  by (auto simp: ranI)

lemma follows_reject:
  "follows S u it L X P (pbind (pderef k) (\<lambda>i.
     pbind (pstep (\<lambda>m. (updateInstanceBallotFromResponses m i ballots, None))) (\<lambda>_. pfail e))) Y"
  by (intro follows_deref follows_seq follows_ballots follows_intros)

lemma follows_sendPreAccept:
  "follows S u it L X P (sendPreAccept k replicas) (\<lambda>rs. \<Union>r \<in> set rs. set (pa_MissingInstances r))"
  unfolding sendPreAccept_def Let_def
  by (rule follows_deref, rule follows_seq, rule follows_send(1), erule carried_copy(1),
      rule follows_bind [OF follows_await [where C = "\<lambda>r. set (pa_MissingInstances r)", OF sel_carried(1)]], assumption)
    (auto intro: follows_reject follows_return)

lemma follows_sendAccept: "follows S u it L X P (sendAccept k replicas) (\<lambda>_. {})"
  unfolding sendAccept_def Let_def
  by (rule follows_deref, rule follows_seq, rule follows_send(1), erule carried_copy(2),
      rule follows_bind [OF follows_await [where C = "\<lambda>r. {}"]])
    (auto intro: follows_reject follows_intros)

lemma follows_sendCommit: "follows S u it L X P (sendCommit k replicas) (\<lambda>_. {})"
  unfolding sendCommit_def by (intro follows_deref follows_send carried_copy)

lemma follows_merge_loop: "follows S u it L X P (merge_loop k responses changes) (\<lambda>_. {})"
proof (induction responses arbitrary: changes P)
  case (Cons r rs)
  show ?case
    unfolding merge_loop.simps case_merge
    by (intro follows_deref follows_seq follows_puts) (auto intro: follows_intros Cons.IH split: sum.split)
qed (simp add: follows_intros)

lemma follows_add_missing_loop:
  "(\<Union>r \<in> set responses. set (pa_MissingInstances r)) \<subseteq> X \<Longrightarrow>
     follows S u it L X P (add_missing_loop S responses) (\<lambda>_. {})"
proof (induction responses arbitrary: P)
  case (Cons r rs)
  then show ?case unfolding add_missing_loop.simps
    by (intro follows_seq) (auto intro: follows_missing follows_intros)
qed (simp add: follows_intros)

lemma follows_PreAcceptPhase:
  assumes "\<And>m. P m \<Longrightarrow> i \<in> X \<union> ran (instances m)"
  shows "follows S u it L X P (managerPreAcceptPhase S clock i) (\<lambda>_. {})"
  unfolding managerPreAcceptPhase_def mergePreAcceptAttributes_def
proof (rule follows_catch, intro follows_get, rule follows_seq [OF follows_skip [OF follows_instance_steps(1)]], erule assms,
    rule follows_bind [OF follows_sendPreAccept], rule follows_seq)
  show "follows S u it L (X \<union> (\<Union>r \<in> set rs. set (pa_MissingInstances r))) (\<lambda>_. True) (add_missing_loop S rs) (\<lambda>_. {})" for rs
    by (rule follows_add_missing_loop) simp
qed (rule follows_merge_loop follows_basic)+

lemma follows_AcceptPhase:
  assumes "\<And>m. P m \<Longrightarrow> i \<in> X \<union> ran (instances m)"
  shows "follows S u it L X P (managerAcceptPhase S clock i) (\<lambda>_. {})"
  unfolding managerAcceptPhase_def
  by (intro follows_get, rule follows_seq [OF follows_skip [OF follows_instance_steps(2)]], erule assms,
      rule follows_sendAccept)

lemma follows_CommitPhase:
  assumes "\<And>m. P m \<Longrightarrow> i \<in> X \<union> ran (instances m)"
  shows "follows S u it L X P (managerCommitPhase S i) (\<lambda>_. {})"
  unfolding managerCommitPhase_def
  by (intro follows_get, rule follows_seq [OF follows_skip [OF follows_instance_steps(3)]], erule assms,
      rule follows_sendCommit)

lemma held: "instances m k = Some i \<Longrightarrow> i \<in> X \<union> ran (instances m)"
  by (simp add: ranI)

section \<open>Preparing\<close>

lemma follows_SendPrepare:
  "follows S u it L X P (managerSendPrepare k) (\<lambda>rs. \<Union>r \<in> set rs. set_option (p_Instance r))"
  unfolding managerSendPrepare_def
  by (rule follows_deref, rule follows_get, rule follows_seq [OF follows_puts(2)],
      rule follows_seq, rule follows_send(1), simp,
      rule follows_bind [OF follows_await [where C = "\<lambda>r. set_option (p_Instance r)", OF sel_carried(2)]], assumption,
      rule follows_drain [OF sel_carried(2)]) auto

lemma follows_catch_up:
  assumes "\<And>m. P m \<Longrightarrow> i \<in> X \<union> ran (instances m)"
  shows "follows S u it L X P (catch_up S clock i) (\<lambda>_. {})"
  unfolding catch_up_def by (auto intro!: follows_get follows_instance_steps assms follows_intros)

lemma max_instance_response:
  assumes "max_instance responses b st = Some i"
  shows "i \<in> (\<Union>r \<in> set responses. set_option (p_Instance r))"
proof -
  let ?f = "\<lambda>response maxInstance. case p_Instance response of None \<Rightarrow> maxInstance
      | Some rInstance \<Rightarrow> if MaxBallot rInstance = b \<and> Status rInstance = st then Some rInstance else maxInstance"
  have "fold ?f rs acc = Some i \<Longrightarrow> acc = Some i \<or> i \<in> (\<Union>r \<in> set rs. set_option (p_Instance r))" for rs acc
  proof (induction rs arbitrary: acc)
    case (Cons r rs)
    then have "?f r acc = Some i \<or> i \<in> (\<Union>r \<in> set rs. set_option (p_Instance r))" by simp
    moreover have "i \<in> set_option (p_Instance r)" if "?f r acc = Some i" "acc \<noteq> Some i"
      using that by (cases "p_Instance r") (simp_all split: if_splits)
    ultimately show ?case by auto
  qed simp
  from this [of responses None] assms show ?thesis by (simp add: max_instance_def)
qed

lemma follows_CheckResponses:
  assumes "(\<Union>r \<in> set responses. set_option (p_Instance r)) \<subseteq> X"
  shows "follows S u it L X P (managerPrepareCheckResponses S clock k responses) (\<lambda>_. {})"
proof -
  have remote: "i \<in> X" if "max_instance responses b st = Some i" for b st i
    using max_instance_response [OF that] assms by blast
  show ?thesis
    unfolding managerPrepareCheckResponses_def split_beta
    by (rule follows_deref, rule follows_seq [OF follows_puts(1)])
      (auto intro!: follows_deref follows_seq follows_catch_up follows_intros split: option.split dest: remote)
qed

lemma follows_choose:
  assumes "(\<Union>r \<in> set responses. set_option (p_Instance r)) \<subseteq> X"
  shows "follows S u it L X P (choose_instance k responses) (\<lambda>(remote, status). set_option remote)"
proof -
  have remote: "i \<in> X" if "analyzePrepareResponses responses = Some i" for i
    using analyze_member [OF that] assms by (auto simp: response_instances_def)
  show ?thesis
    unfolding choose_instance_def
  proof (rule follows_deref)
    fix i
    show "follows S u it L X (\<lambda>m. instances m k = Some i)
       (case analyzePrepareResponses responses of
         Some remoteInstance \<Rightarrow>
           if Status i > Status remoteInstance then preturn (None, Status i)
           else preturn (Some remoteInstance, Status remoteInstance)
       | None \<Rightarrow>
           if Status i \<le> INSTANCE_PREACCEPTED
           then pbind (pput (setNoop i)) (\<lambda>_. preturn (None, INSTANCE_PREACCEPTED))
           else preturn (None, INSTANCE_PREACCEPTED)) (\<lambda>(remote, status). set_option remote)"
      by (cases "analyzePrepareResponses responses")
        (auto intro!: follows_return follows_seq [OF follows_puts(4)] dest: remote)
  qed
qed

text \<open>A phase with the local instance, or with a remote one that came in a response.\<close>

lemma follows_prepare_instance:
  assumes "\<And>i P. (\<And>m. P m \<Longrightarrow> i \<in> X \<union> ran (instances m)) \<Longrightarrow> follows S u it L X P (f i) Z" and "set_option remote \<subseteq> X"
  shows "follows S u it L X P (pbind (prepare_instance k remote) f) Z"
proof (cases remote)
  case None
  then show ?thesis by (simp add: prepare_instance_def follows_deref assms(1) ranI)
next
  case (Some i)
  then have "i \<in> X" using assms(2) by simp
  then have "follows S u it L X P (f i) Z" by (intro assms(1)) simp
  then show ?thesis using Some by (simp add: prepare_instance_def pbind_def preturn_def follows_def)
qed

lemma follows_prepare_commit:
  "set_option remote \<subseteq> X \<Longrightarrow> follows S u it L X P (prepare_commit S k remote) (\<lambda>_. {})"
  unfolding prepare_commit_def by (rule follows_prepare_instance) (rule follows_CommitPhase)

lemma follows_prepare_accept:
  "set_option remote \<subseteq> X \<Longrightarrow> follows S u it L X P (prepare_accept S clock k req remote) (\<lambda>_. {})"
  unfolding prepare_accept_def
  by (cases req)
    (simp_all, rule follows_prepare_instance, rule follows_seq, erule follows_AcceptPhase, simp_all add: follows_prepare_commit)

lemma follows_prepare_preaccept:
  "set_option remote \<subseteq> X \<Longrightarrow> follows S u it L X P (prepare_preaccept S clock k remote) (\<lambda>_. {})"
  unfolding prepare_preaccept_def
  by (rule follows_prepare_instance, rule follows_seq, erule follows_PreAcceptPhase)
    (auto intro!: follows_intros follows_prepare_accept split: option.split)

lemma follows_PrepareApply:
  assumes "(\<Union>r \<in> set responses. set_option (p_Instance r)) \<subseteq> X"
  shows "follows S u it L X P (managerPrepareApply S clock k responses) (\<lambda>_. {})"
  unfolding managerPrepareApply_def
  by (rule follows_seq [OF follows_CheckResponses [OF assms]], rule follows_bind [OF follows_choose [OF assms]])
    (auto intro!: follows_prepare_preaccept follows_prepare_accept follows_prepare_commit follows_intros)

lemma follows_PreparePhase: "follows S u it L X P (managerPreparePhase S clock k) (\<lambda>_. {})"
  unfolding managerPreparePhase_def
  by (rule follows_deref)
    (auto intro!: follows_intros follows_bind [OF follows_SendPrepare] follows_PrepareApply)

lemma follows_handle_successor: "follows S u it L X P (handle_successor S clock k response) (\<lambda>_. {})"
  unfolding handle_successor_def
  by (rule follows_deref)
    (auto intro!: follows_intros follows_catch follows_get follows_seq follows_instance_steps simp: ranI)

lemma follows_successor_loop: "follows S u it L X P (successor_loop S clock k localID replicas nids) (\<lambda>_. {})"
  by (induction nids arbitrary: P)
    (auto intro!: follows_intros follows_seq follows_send follows_handle_successor split: successor_event.split option.split)

lemma follows_DeferToSuccessor: "follows S u it L X P (managerDeferToSuccessor S clock k) (\<lambda>_. {})"
  unfolding managerDeferToSuccessor_def by (intro follows_deref follows_get follows_successor_loop)

lemma follows_ShouldProceed: "follows S u it L X P (prepareShouldProceed clock k) (\<lambda>_. {})"
  unfolding prepareShouldProceed_def
  by (auto intro!: follows_deref follows_get follows_intros follows_seq)

lemma follows_defer_loop: "follows S u it L X P (defer_loop S clock k n) (\<lambda>_. {})"
proof (induction n arbitrary: P)
  case 0
  show ?case by (rule followsI) simp
next
  case (Suc n)
  show ?case unfolding defer_loop.simps
    by (rule follows_seq [OF follows_DeferToSuccessor])
      (auto intro!: follows_deref follows_intros follows_seq Suc.IH split: option.split)
qed

lemma follows_PrepareInstance: "follows S u it L X P (managerPrepareInstance S clock k) (\<lambda>_. {})"
proof -
  have loop: "follows S u it L X P (\<lambda>m es. defer_loop S clock k (Suc (length es)) m es) (\<lambda>_. {})" for P
    using follows_defer_loop unfolding follows_def by blast
  show ?thesis
    unfolding managerPrepareInstance_def
    by (rule follows_deref, rule follows_seq [OF follows_instance_steps(4)], simp add: ranI)
      (auto intro!: follows_intros follows_seq follows_ShouldProceed loop follows_PreparePhase simp del: defer_loop.simps)
qed

lemma follows_successor_prepare: "follows S u it L X P (successor_prepare S clock k n) (\<lambda>_. {})"
  by (induction n arbitrary: P)
    (auto intro!: follows_intros follows_deref follows_catch follows_seq follows_PrepareInstance)

lemma follows_HandlePrepareSuccessor_go: "follows S u it L X P (HandlePrepareSuccessor_go S clock k) (\<lambda>_. {})"
  unfolding HandlePrepareSuccessor_go_def
  by (auto intro!: follows_intros follows_deref follows_successor_prepare)

section \<open>Executing\<close>

lemma follows_attemptPrepare: "follows S u it L X P (attemptPrepare S clock k n) (\<lambda>_. {})"
  by (induction n arbitrary: P)
    (auto intro!: follows_intros follows_deref follows_catch follows_seq follows_PrepareInstance)

lemma follows_prepare_all: "follows S u it L X P (prepare_all S clock ks errors) (\<lambda>_. {})"
  by (induction ks arbitrary: P errors)
    (auto intro!: follows_intros follows_seq follows_attemptPrepare)

lemma follows_porder: "follows S u it L X P (porder u it fuel i) (\<lambda>_. {})"
  by (rule follows_atomic) (auto simp: porder_def split: option.splits intro: lstep.order)

lemma chain_path: "lpath S u it L \<rho> (set_mgr \<rho> (fst (executeDependencyChain S (r_mgr \<rho>) ks target)))"
proof (induction ks arbitrary: \<rho>)
  case (Cons k ks)
  show ?case
  proof (cases "instances (r_mgr \<rho>) k")
    case (Some i)
    obtain m1 r where app: "applyInstance S (r_mgr \<rho>) i = (m1, r)" by fastforce
    have "lstep S u it \<rho> Internal (set_mgr \<rho> m1)" using lstep.run [OF Some, of S u it] app by simp
    then have 1: "lpath S u it L \<rho> (set_mgr \<rho> m1)" by (rule lpath_step) simp
    have 2: "lpath S u it L \<rho> (set_mgr \<rho> (fst (executeDependencyChain S m1 ks target)))"
      using lpath_trans [OF 1 Cons.IH] by simp
    show ?thesis using Some app 1 2 Cons.IH [of \<rho>] by (auto split: outcome.split)
  qed simp
qed simp

lemma follows_chain:
  fixes S :: "('s, 'v) Store"
  shows "follows S u it L X P (pout (\<lambda>m. executeDependencyChain S m ks target)) (\<lambda>_. {})"
proof (rule followsI)
  fix \<rho> :: "('s, 'v) Replica" and es r m' es'
  assume "pout (\<lambda>m. executeDependencyChain S m ks target) (r_mgr \<rho>) es = Some (r, m', es')"
  then have "m' = fst (executeDependencyChain S (r_mgr \<rho>) ks target) \<and> es' = es"
    by (auto simp: pout_def split: prod.splits)
  then show "\<exists>\<rho>'. lpath S u it L \<rho> \<rho>' \<and> r_mgr \<rho>' = m' \<and> (\<exists>used. es = used @ es') \<and> (\<forall>a. r = Ret a \<longrightarrow> {} \<subseteq> lasting \<rho>')"
    using chain_path [of S u it L \<rho> ks target] by (intro exI [of _ "set_mgr \<rho> m'"]) simp
qed

lemma follows_execute_loop: "follows S u it L X P (execute_loop S u it fuel clock k n) (\<lambda>_. {})"
proof (induction n arbitrary: P)
  case 0
  show ?case by (rule followsI) simp
next
  case (Suc n)
  show ?case unfolding execute_loop.simps
    by (rule follows_deref, rule follows_seq [OF follows_porder])
      (auto intro!: follows_intros follows_seq follows_prepare_all follows_chain Suc.IH split: list.split)
qed

lemma follows_ExecuteInstance: "follows S u it L X P (managerExecuteInstance S u it fuel clock k) (\<lambda>_. {})"
  using follows_execute_loop unfolding follows_def managerExecuteInstance_def by blast

lemma follows_log_error: "follows S u it L X P p (\<lambda>_. {}) \<Longrightarrow> follows S u it L X P (log_error p) (\<lambda>_. {})"
  unfolding log_error_def by (rule follows_catch) (auto intro: follows_intros)

lemma follows_ExecutePaxos:
  assumes "i \<in> X"
  shows "follows S u it L X P (ExecutePaxos S u it fuel clock i) (\<lambda>_. {})"
  unfolding ExecutePaxos_def Let_def
  by (rule follows_seq [OF follows_PreAcceptPhase], use assms in simp)
    (auto intro!: follows_intros follows_deref follows_seq follows_log_error follows_AcceptPhase follows_CommitPhase
      follows_ExecuteInstance simp: ranI)

lemma follows_await_result:
  fixes S :: "('s, 'v) Store"
  shows "follows S u it L X P (await_result ch) (\<lambda>_. {})"
proof (rule followsI)
  fix \<rho> :: "('s, 'v) Replica" and es r m' es'
  assume "sched_in S u it L es" and "await_result ch (r_mgr \<rho>) es = Some (r, m', es')"
  then show "\<exists>\<rho>'. lpath S u it L \<rho> \<rho>' \<and> r_mgr \<rho>' = m' \<and> (\<exists>used. es = used @ es') \<and> (\<forall>a. r = Ret a \<longrightarrow> {} \<subseteq> lasting \<rho>')"
  proof (induction es arbitrary: \<rho>)
    case Nil
    then show ?case by (auto split: option.splits intro!: exI [of _ \<rho>])
  next
    case (Cons e es)
    show ?case
    proof (cases "map_of (delivered (r_mgr \<rho>)) ch")
      case None
      obtain \<rho>1 where 1: "sched_in S u it L es" "lpath S u it L \<rho> \<rho>1"
        "r_mgr \<rho>1 = (case e of Env f \<Rightarrow> f (r_mgr \<rho>) | _ \<Rightarrow> r_mgr \<rho>)"
        by (rule event_step [OF Cons.prems(1)]) blast
      have "await_result ch (r_mgr \<rho>1) es = Some (r, m', es')"
        using Cons.prems(2) None 1(3) by (cases e) auto
      from Cons.IH [OF 1(1) this] obtain \<rho>' used where "lpath S u it L \<rho>1 \<rho>'" "r_mgr \<rho>' = m'" "es = used @ es'" by blast
      then show ?thesis using lpath_trans [OF 1(2)] by (intro exI [of _ \<rho>'] conjI exI [of _ "e # used"]) auto
    qed (use Cons.prems(2) in \<open>auto intro!: exI [of _ \<rho>]\<close>)
  qed
qed

section \<open>Queries\<close>


lemma ex_query_run:
  "\<exists>m' val. ExecuteQuery kv_store (\<lambda>_. 0) id ex_fuel ex_clock ida [0, 1] 7 ex_set ex_first ex_agree = Some (Ret val, m', []) \<and>
     (\<exists>j. instances m' ida = Some j \<and> Status j = INSTANCE_EXECUTED)"
proof -
  obtain m' val where "ExecutePaxos kv_store (\<lambda>_. 0) id ex_fuel ex_clock ex_query ex_first ex_agree = Some (Ret (), m', [])"
    and val: "map_of (delivered m') 7 = Some val" and "\<exists>j. instances m' ida = Some j \<and> Status j = INSTANCE_EXECUTED"
    using ex_paxos_run by auto
  then show ?thesis
    using ex_first_facts(4) by (simp add: ExecuteQuery_def ex_query_def pbind_def)
qed

definition ex_replica :: "(KVStore, Value) Replica" where
  "ex_replica = \<lparr>r_mgr = ex_first, r_heard = {}, r_replies = {}, r_proposed = {}\<rparr>"

definition ex_labels :: "label set" where
  "ex_labels = {Hear (PreAcceptResp \<lparr>pa_Accepted = True, pa_MaxBallot = 1, pa_Instance = ex_query, pa_MissingInstances = []\<rparr>)}"


end
