(* ===== verification/Partitioner.thy ===== *)
theory Partitioner
  imports Types
begin

text \<open>
  The partitioner (\<^verbatim>\<open>partitioner/\<close>): a key's token is the MD5 digest of its bytes, on which the
  keys are spread over the ring of the topology.  The digest is the algorithm of RFC 1321, which
  \<^verbatim>\<open>crypto/md5\<close> implements.
\<close>

unbundle bit_operations_syntax

section \<open>The MD5 digest\<close>

definition md5_shifts :: "nat list" where
  "md5_shifts =
    [7, 12, 17, 22, 7, 12, 17, 22, 7, 12, 17, 22, 7, 12, 17, 22,
     5, 9, 14, 20, 5, 9, 14, 20, 5, 9, 14, 20, 5, 9, 14, 20,
     4, 11, 16, 23, 4, 11, 16, 23, 4, 11, 16, 23, 4, 11, 16, 23,
     6, 10, 15, 21, 6, 10, 15, 21, 6, 10, 15, 21, 6, 10, 15, 21]"

definition md5_table :: "32 word list" where
  "md5_table =
    [3614090360, 3905402710, 606105819, 3250441966, 4118548399, 1200080426,
     2821735955, 4249261313, 1770035416, 2336552879, 4294925233, 2304563134,
     1804603682, 4254626195, 2792965006, 1236535329, 4129170786, 3225465664,
     643717713, 3921069994, 3593408605, 38016083, 3634488961, 3889429448,
     568446438, 3275163606, 4107603335, 1163531501, 2850285829, 4243563512,
     1735328473, 2368359562, 4294588738, 2272392833, 1839030562, 4259657740,
     2763975236, 1272893353, 4139469664, 3200236656, 681279174, 3936430074,
     3572445317, 76029189, 3654602809, 3873151461, 530742520, 3299628645,
     4096336452, 1126891415, 2878612391, 4237533241, 1700485571, 2399980690,
     4293915773, 2240044497, 1873313359, 4264355552, 2734768916, 1309151649,
     4149444226, 3174756917, 718787259, 3951481745]"

type_synonym md5_state = "32 word \<times> 32 word \<times> 32 word \<times> 32 word"

definition md5_init :: md5_state where
  "md5_init = (0x67452301, 0xefcdab89, 0x98badcfe, 0x10325476)"

text \<open>The function of a step, and the word of the block that it takes.\<close>

definition md5_mix :: "nat \<Rightarrow> 32 word \<Rightarrow> 32 word \<Rightarrow> 32 word \<Rightarrow> 32 word" where
  "md5_mix i b c d =
     (if i < 16 then (b AND c) OR (NOT b AND d)
      else if i < 32 then (d AND b) OR (NOT d AND c)
      else if i < 48 then b XOR c XOR d
      else c XOR (b OR NOT d))"

definition md5_index :: "nat \<Rightarrow> nat" where
  "md5_index i =
     (if i < 16 then i else if i < 32 then (5 * i + 1) mod 16 else if i < 48 then (3 * i + 5) mod 16 else (7 * i) mod 16)"

definition md5_step :: "32 word list \<Rightarrow> nat \<Rightarrow> md5_state \<Rightarrow> md5_state" where
  "md5_step ws i = (\<lambda>(a, b, c, d).
     (d, b + word_rotl (md5_shifts ! i) (a + md5_mix i b c d + md5_table ! i + ws ! md5_index i), b, c))"

definition le_word :: "bytes \<Rightarrow> 32 word" where
  "le_word bs = horner_sum ucast 256 bs"

definition le_bytes :: "nat \<Rightarrow> 'a::len word \<Rightarrow> bytes" where
  "le_bytes n w = map (\<lambda>i. ucast (drop_bit (8 * i) w)) [0..<n]"

fun md5_words :: "nat \<Rightarrow> bytes \<Rightarrow> 32 word list" where
  "md5_words 0 bs = []"
| "md5_words (Suc n) bs = le_word (take 4 bs) # md5_words n (drop 4 bs)"

definition md5_block :: "md5_state \<Rightarrow> bytes \<Rightarrow> md5_state" where
  "md5_block s block =
     (let (a, b, c, d) = s; (a', b', c', d') = fold (md5_step (md5_words 16 block)) [0..<64] s
      in (a + a', b + b', c + c', d + d'))"

fun md5_blocks :: "nat \<Rightarrow> md5_state \<Rightarrow> bytes \<Rightarrow> md5_state" where
  "md5_blocks 0 s bs = s"
| "md5_blocks (Suc n) s bs = md5_blocks n (md5_block s (take 64 bs)) (drop 64 bs)"

text \<open>A one bit, zeros up to 56 modulo 64 bytes, and the length in bits.\<close>

definition md5_pad :: "bytes \<Rightarrow> bytes" where
  "md5_pad bs =
     bs @ [0x80] @ replicate ((119 - length bs mod 64) mod 64) 0 @ le_bytes 8 (of_nat (8 * length bs) :: 64 word)"

definition md5_Sum :: "bytes \<Rightarrow> bytes" where
  "md5_Sum bs =
     (let padded = md5_pad bs; (a, b, c, d) = md5_blocks (length padded div 64) md5_init padded
      in le_bytes 4 a @ le_bytes 4 b @ le_bytes 4 c @ le_bytes 4 d)"

section \<open>Tokens\<close>

definition MD5_GetToken :: "string \<Rightarrow> bytes" where
  "MD5_GetToken key = md5_Sum (string_bytes key)"

text \<open>The message is padded to whole blocks, whatever its length.\<close>

lemma md5_pad_blocks: "64 dvd length (md5_pad bs)"
proof -
  have "length bs = 64 * (length bs div 64) + length bs mod 64" by simp
  moreover have "length bs mod 64 < 64" by simp
  ultimately obtain q r where q: "length bs = 64 * q + r" "r < 64" by blast
  then have "length (md5_pad bs) = 64 * q + (r + 9 + (119 - r) mod 64)" by (simp add: md5_pad_def le_bytes_def)
  moreover have "64 dvd r + 9 + (119 - r) mod 64"
  proof (cases "r \<le> 55")
    case True
    then have "(119 - r) mod 64 = 55 - r" by (simp add: mod_if)
    then show ?thesis using True by simp
  next
    case False
    then have "(119 - r) mod 64 = 119 - r" using q(2) by simp
    then show ?thesis using False q(2) by simp
  qed
  ultimately show ?thesis by simp
qed

lemma length_le_bytes [simp]: "length (le_bytes n w) = n"
  by (simp add: le_bytes_def)

lemma token_length: "length (MD5_GetToken key) = 16"
  by (simp add: MD5_GetToken_def md5_Sum_def Let_def split: prod.split)

text \<open>The tokens of \<^verbatim>\<open>partitioner/md5_test.go\<close>.\<close>

lemma token_abc:
  "MD5_GetToken ''abc'' = [144, 1, 80, 152, 60, 210, 79, 176, 214, 150, 63, 125, 40, 225, 127, 114]"
  by code_simp

lemma token_1234:
  "MD5_GetToken ''1234'' = [129, 220, 155, 219, 82, 208, 77, 194, 0, 54, 219, 216, 49, 62, 208, 85]"
  by code_simp

lemma token_blake:
  "MD5_GetToken ''blake'' = [58, 164, 158, 198, 191, 201, 16, 100, 127, 161, 197, 160, 19, 228, 142, 239]"
  by code_simp

end
