(* ===== verification/Mocks.thy ===== *)
theory Mocks
  imports System Partitioner
begin

text \<open>
  The in-memory network, store and statistics with which the consensus is exercised
  (\<^verbatim>\<open>consensus/testing_mocks.go\<close> and the replica sets of
  \<^verbatim>\<open>consensus/testing_setup.go\<close>), as instances of what the system of replicas relies on: the
  mock store leaves its state alone when an instruction fails, a message over the mock network
  is a run of the system, and a set of mock nodes is a system at its start.
\<close>

section \<open>Numbers and strings\<close>

text \<open>\<^verbatim>\<open>strconv.Atoi\<close>: an optional sign and decimal digits, within 64 bits.\<close>

definition digit_value :: "char \<Rightarrow> int option" where
  "digit_value c = (let n = of_char c :: int in if 48 \<le> n \<and> n \<le> 57 then Some (n - 48) else None)"

fun digits_value :: "string \<Rightarrow> int \<Rightarrow> int option" where
  "digits_value [] acc = Some acc"
| "digits_value (c # cs) acc =
     (case digit_value c of None \<Rightarrow> None | Some d \<Rightarrow> digits_value cs (10 * acc + d))"

definition Atoi :: "string \<Rightarrow> error + int" where
  "Atoi s =
     (let (neg, ds) = (case s of c # cs \<Rightarrow> if c = CHR ''-'' then (True, cs) else if c = CHR ''+'' then (False, cs) else (False, s)
                       | [] \<Rightarrow> (False, s))
      in if ds = [] then Inl (Errorf ''invalid syntax'')
         else case digits_value ds 0 of
             None \<Rightarrow> Inl (Errorf ''invalid syntax'')
           | Some n \<Rightarrow>
               let v = (if neg then - n else n)
               in if - (2 ^ 63) \<le> v \<and> v < 2 ^ 63 then Inr v else Inl (Errorf ''value out of range''))"

text \<open>\<^verbatim>\<open>strings.Split\<close> with a separator of one character.\<close>

fun strings_Split :: "string \<Rightarrow> char \<Rightarrow> string list" where
  "strings_Split [] sep = [[]]"
| "strings_Split (c # cs) sep =
     (if c = sep then [] # strings_Split cs sep
      else case strings_Split cs sep of [] \<Rightarrow> [[c]] | w # ws \<Rightarrow> (c # w) # ws)"

section \<open>The mock store\<close>

record intVal =
  iv_value :: int
  iv_time :: Time

definition newIntVal :: "int \<Rightarrow> Time \<Rightarrow> intVal" where
  "newIntVal val ts = \<lparr>iv_value = val, iv_time = ts\<rparr>"

text \<open>The argument is another value of this type; a value of another type is not equal.\<close>

definition intVal_Equal :: "intVal \<Rightarrow> intVal option \<Rightarrow> bool" where
  "intVal_Equal v other = (case other of Some val \<Rightarrow> iv_value val = iv_value v | None \<Rightarrow> False)"

record mockStore =
  ms_instructions :: "Instruction list"
  ms_values :: "string \<rightharpoonup> intVal"

definition newMockStore :: mockStore where
  "newMockStore = \<lparr>ms_instructions = [], ms_values = Map.empty\<rparr>"

definition mock_ExecuteInstruction :: "mockStore \<Rightarrow> Instruction \<Rightarrow> mockStore \<times> intVal option outcome" where
  "mock_ExecuteInstruction s instruction =
     (case Args instruction of
        [] \<Rightarrow> (s, Panic ''index out of range'')
      | arg # _ \<Rightarrow>
          (case Atoi arg of
             Inl err \<Rightarrow> (s, Err err)
           | Inr n \<Rightarrow>
               let val = newIntVal n (Timestamp instruction)
               in (s\<lparr>ms_values := (ms_values s)(Key instruction \<mapsto> val),
                     ms_instructions := ms_instructions s @ [instruction]\<rparr>, Ret (Some val))))"

definition mockStoreDefaultInterferingKeys :: "Instruction \<Rightarrow> string list" where
  "mockStoreDefaultInterferingKeys instruction = strings_Split (Key instruction) CHR '':''"

definition mock_InterferingKeys :: "Instruction \<Rightarrow> string list" where
  "mock_InterferingKeys instruction = mockStoreDefaultInterferingKeys instruction"

definition mock_store :: "(mockStore, intVal) Store" where
  "mock_store = \<lparr>st_ExecuteInstruction = mock_ExecuteInstruction, st_InterferingKeys = mock_InterferingKeys\<rparr>"

section \<open>Statistics\<close>

text \<open>Maps from names to 64-bit numbers; a name that is not there reads as zero.\<close>

record mockStatter =
  counters :: "string \<Rightarrow> 64 word"
  timers :: "string \<Rightarrow> 64 word"
  guages :: "string \<Rightarrow> 64 word"

definition newMockStatter :: mockStatter where
  "newMockStatter = \<lparr>counters = (\<lambda>_. 0), timers = (\<lambda>_. 0), guages = (\<lambda>_. 0)\<rparr>"

definition statter_Inc :: "string \<Rightarrow> 64 word \<Rightarrow> mockStatter \<Rightarrow> mockStatter" where
  "statter_Inc stat val s = s\<lparr>counters := (counters s)(stat := counters s stat + val)\<rparr>"

definition statter_Dec :: "string \<Rightarrow> 64 word \<Rightarrow> mockStatter \<Rightarrow> mockStatter" where
  "statter_Dec stat val s = s\<lparr>counters := (counters s)(stat := counters s stat - val)\<rparr>"

definition statter_Gauge :: "string \<Rightarrow> 64 word \<Rightarrow> mockStatter \<Rightarrow> mockStatter" where
  "statter_Gauge stat val s = s\<lparr>guages := (guages s)(stat := val)\<rparr>"

definition statter_GaugeDelta :: "string \<Rightarrow> 64 word \<Rightarrow> mockStatter \<Rightarrow> mockStatter" where
  "statter_GaugeDelta stat val s = s\<lparr>guages := (guages s)(stat := guages s stat + val)\<rparr>"

definition statter_Timing :: "string \<Rightarrow> 64 word \<Rightarrow> mockStatter \<Rightarrow> mockStatter" where
  "statter_Timing stat delta s = s\<lparr>timers := (timers s)(stat := delta)\<rparr>"

text \<open>\<^verbatim>\<open>%T\<close> of a message.\<close>

fun type_name :: "consensus_msg option \<Rightarrow> string" where
  "type_name None = ''<nil>''"
| "type_name (Some (PreAcceptRequest _)) = ''*consensus.PreAcceptRequest''"
| "type_name (Some (PreAcceptResp _)) = ''*consensus.PreAcceptResponse''"
| "type_name (Some (AcceptRequest _ _)) = ''*consensus.AcceptRequest''"
| "type_name (Some (AcceptResp _)) = ''*consensus.AcceptResponse''"
| "type_name (Some (CommitRequest _)) = ''*consensus.CommitRequest''"
| "type_name (Some CommitResponse) = ''*consensus.CommitResponse''"
| "type_name (Some (PrepareRequest _ _)) = ''*consensus.PrepareRequest''"
| "type_name (Some (PrepareResp _)) = ''*consensus.PrepareResponse''"
| "type_name (Some (PrepareSuccessorRequest _)) = ''*consensus.PrepareSuccessorRequest''"
| "type_name (Some (PrepareSuccessorResponse _)) = ''*consensus.PrepareSuccessorResponse''"
| "type_name (Some (InstanceRequest _)) = ''*consensus.InstanceRequest''"
| "type_name (Some (InstanceResponse _)) = ''*consensus.InstanceResponse''"

text \<open>
  \<^verbatim>\<open>%T\<close> of the first result of \<^verbatim>\<open>HandleMessage\<close> when it fails: a nil pointer of the
  type that the handler of the request declares, and nil for a message without a handler.
\<close>

fun nil_reply_type :: "consensus_msg \<Rightarrow> string" where
  "nil_reply_type (PreAcceptRequest _) = ''*consensus.PreAcceptResponse''"
| "nil_reply_type (AcceptRequest _ _) = ''*consensus.AcceptResponse''"
| "nil_reply_type (CommitRequest _) = ''*consensus.CommitResponse''"
| "nil_reply_type (PrepareRequest _ _) = ''*consensus.PrepareResponse''"
| "nil_reply_type (PrepareSuccessorRequest _) = ''*consensus.PrepareSuccessorResponse''"
| "nil_reply_type _ = ''<nil>''"

section \<open>Mock nodes\<close>

record mockNode =
  mn_id :: NodeId
  mn_dcID :: DatacenterID
  mn_token :: bytes
  mn_name :: string
  mn_queries :: "Instruction list"
  mn_manager :: "(mockStore, intVal) Manager"
  mn_sentMessages :: "consensus_msg list"
  mn_partition :: bool
  mn_stats :: mockStatter
  mn_started :: bool
  mn_status :: string

text \<open>The identifier is a new one.\<close>

definition newMockNode :: "NodeId \<Rightarrow> mockNode" where
  "newMockNode nid =
     (let dcid = ''DC1''; t = NewTopology nid dcid MD5_GetToken 3
      in \<lparr>mn_id = nid, mn_dcID = dcid, mn_token = [0, 0, 0, 0], mn_name = ''node'', mn_queries = [],
          mn_manager = NewManager t newMockStore, mn_sentMessages = [], mn_partition = False,
          mn_stats = newMockStatter, mn_started = True, mn_status = NODE_UP\<rparr>)"

definition mock_Start :: "mockNode \<Rightarrow> mockNode" where
  "mock_Start n = n\<lparr>mn_started := True\<rparr>"

definition mock_Stop :: "mockNode \<Rightarrow> mockNode" where
  "mock_Stop n = n\<lparr>mn_started := False\<rparr>"

text \<open>
  A handler returns the node, \<^verbatim>\<open>%T\<close> of its first result, and its results.
\<close>

type_synonym message_handler = "mockNode \<Rightarrow> consensus_msg \<Rightarrow> mockNode \<times> string \<times> consensus_msg outcome"

definition mockNodeDefaultMessageHandler :: "Time \<Rightarrow> message_handler" where
  "mockNodeDefaultMessageHandler now mn msg =
     (case HandleMessage mock_store now (mn_manager mn) msg of
        (m, r) \<Rightarrow> (mn\<lparr>mn_manager := m\<rparr>,
          (case r of Ret reply \<Rightarrow> type_name (Some reply) | _ \<Rightarrow> nil_reply_type msg), r))"

text \<open>
  Every stage is timed and counted under the type of its message; \<open>ms\<close> is the time it took in
  milliseconds.
\<close>

definition timed :: "string \<Rightarrow> string \<Rightarrow> 64 word \<Rightarrow> mockNode \<Rightarrow> mockNode" where
  "timed stage ty ms n =
     n\<lparr>mn_stats := statter_Inc (stage @ ''.'' @ ty @ ''.count'') 1
         (statter_Timing (stage @ ''.'' @ ty @ ''.time'') (ms + 1) (mn_stats n))\<rparr>"

definition count_error :: "string \<Rightarrow> mockNode \<Rightarrow> mockNode" where
  "count_error ty n =
     n\<lparr>mn_stats := statter_Inc (''error.'' @ ty @ ''.count'') 1
         (statter_Inc (''error.'' @ ty @ ''.time'') 1 (mn_stats n))\<rparr>"

text \<open>
  A message goes through the wire format in both directions; writing to a buffer does not fail.
  \<open>ms i\<close> is the duration of the \<open>i\<close>-th stage.
\<close>

definition mock_SendMessage ::
    "message_handler \<Rightarrow> (nat \<Rightarrow> 64 word) \<Rightarrow> mockNode \<Rightarrow> consensus_msg \<Rightarrow> mockNode \<times> consensus_msg outcome" where
  "mock_SendMessage messageHandler ms n srcRequest =
     (if mn_partition n then (n, Err (Errorf ''Partition''))
      else
        let buf = WriteMessage GetType consensus_Serialize srcRequest;
            n = timed ''serialize'' (type_name (Some srcRequest)) (ms 0) n
        in case ReadMessage consensus_constructors buf of
             Inl err \<Rightarrow> (timed ''deserialize'' (type_name None) (ms 1) n, Err err)
           | Inr (dstRequest, _) \<Rightarrow>
               let n = timed ''deserialize'' (type_name (Some dstRequest)) (ms 1) n;
                   n = n\<lparr>mn_sentMessages := mn_sentMessages n @ [dstRequest]\<rparr>
               in case messageHandler n dstRequest of
                    (n, _, Panic p) \<Rightarrow> (n, Panic p)
                  | (n, ty, Err err) \<Rightarrow>
                      (count_error (type_name (Some srcRequest)) (timed ''process'' ty (ms 2) n), Err err)
                  | (n, ty, Ret srcResponse) \<Rightarrow>
                      let n = timed ''process'' ty (ms 2) n;
                          buf = WriteMessage GetType consensus_Serialize srcResponse;
                          n = timed ''serialize'' (type_name (Some srcResponse)) (ms 3) n
                      in case ReadMessage consensus_constructors buf of
                           Inl err \<Rightarrow> (timed ''deserialize'' (type_name None) (ms 4) n, Err err)
                         | Inr (dstResponse, _) \<Rightarrow>
                             (timed ''deserialize'' (type_name (Some dstResponse)) (ms 4) n, Ret dstResponse))"

section \<open>Sets of replicas\<close>

text \<open>A mock node as the topology sees it; \<open>ref\<close> tells the pointers apart.\<close>

definition mock_Node :: "nat \<Rightarrow> mockNode \<Rightarrow> Node" where
  "mock_Node ref n = \<lparr>node_name = mn_name n, node_addr = [], node_token = mn_token n, node_id = mn_id n,
     node_dcId = mn_dcID n, node_status = mn_status n, node_ref = ref\<rparr>"

text \<open>The size is the number of new identifiers; the errors of \<^verbatim>\<open>AddNode\<close> are dropped.\<close>

definition setupReplicaSet :: "NodeId list \<Rightarrow> mockNode list" where
  "setupReplicaSet ids =
     (let size = length ids; replicas = map newMockNode ids;
          nodes = map (\<lambda>i. mock_Node i (replicas ! i)) [0..<size]
      in map (\<lambda>n1. n1\<lparr>mn_manager := (mn_manager n1)\<lparr>topology :=
           add_nodes (NewTopology (mn_id n1) (mn_dcID n1) MD5_GetToken (of_nat size)) nodes\<rparr>\<rparr>) replicas)"

section \<open>The mock store in the system\<close>

interpretation mock_failures: failing_quietly mock_store
proof
  fix s c
  assume "\<forall>val. snd (st_ExecuteInstruction mock_store s c) \<noteq> Ret val"
  then show "fst (st_ExecuteInstruction mock_store s c) = s"
    by (auto simp: mock_store_def mock_ExecuteInstruction_def Let_def split: list.splits sum.splits)
qed

text \<open>The log of the mock store is what it has executed, and its values are the last ones.\<close>

lemma mock_execute_logs:
  "mock_ExecuteInstruction s c = (s', Ret val) \<Longrightarrow>
     ms_instructions s' = ms_instructions s @ [c] \<and> ms_values s' (Key c) = val \<and>
     (\<forall>k. k \<noteq> Key c \<longrightarrow> ms_values s' k = ms_values s k)"
  by (auto simp: mock_ExecuteInstruction_def Let_def split: list.splits sum.splits)

text \<open>The keys of an instruction are joined by colons.\<close>

lemma strings_Split_nonempty: "strings_Split s sep \<noteq> []"
  by (induction s) (auto split: list.split)

lemma strings_Split_join: "concat (map (\<lambda>w. w @ [sep]) (strings_Split s sep)) = s @ [sep]"
proof (induction s)
  case (Cons c s)
  then show ?case using strings_Split_nonempty [of s sep] by (cases "strings_Split s sep") auto
qed simp

lemma strings_Split_free: "w \<in> set (strings_Split s sep) \<Longrightarrow> sep \<notin> set w"
  by (induction s arbitrary: w) (auto split: if_splits list.splits)

section \<open>Messages between mock nodes\<close>

lemma timed_simps [simp]:
  "mn_manager (timed stage ty ms n) = mn_manager n" "mn_sentMessages (timed stage ty ms n) = mn_sentMessages n"
  "mn_partition (timed stage ty ms n) = mn_partition n" "mn_id (timed stage ty ms n) = mn_id n"
  "mn_manager (count_error ty n) = mn_manager n" "mn_sentMessages (count_error ty n) = mn_sentMessages n"
  by (simp_all add: timed_def count_error_def)

lemma mock_wire:
  "consensus_ok (on_wire msg) \<Longrightarrow>
     ReadMessage consensus_constructors (WriteMessage GetType consensus_Serialize msg) = Inr (on_wire msg, [])"
  using consensus_messages.framed.roundtrip [of "on_wire msg" "[]", unfolded WriteMessage_on_wire] by simp

text \<open>
  What a message does: the node handles what is left of it on the wire, and the sender gets what
  the wire leaves of the reply.
\<close>

lemma mock_SendMessage_result:
  assumes "\<not> mn_partition n" and "consensus_ok (on_wire req)"
    and "HandleMessage mock_store now (mn_manager n) (on_wire req) = (m, r)"
    and "\<forall>reply. r = Ret reply \<longrightarrow> consensus_ok (on_wire reply)"
    and "mock_SendMessage (mockNodeDefaultMessageHandler now) ms n req = (n', res)"
  shows "mn_manager n' = m" and "res = omap on_wire r"
    and "mn_sentMessages n' = mn_sentMessages n @ [on_wire req]"
  using assms
  by (auto simp: mock_SendMessage_def mockNodeDefaultMessageHandler_def Let_def mock_wire omap_def split: outcome.splits)

text \<open>
  A message that some replica of the system has sent is delivered to a mock node by steps of the
  system, after which the reply can arrive anywhere.
\<close>

lemma mock_send_is_run:
  assumes "s b = Some \<rho>" and "r_mgr \<rho> = mn_manager n" and "\<not> mn_partition n"
    and "req \<in> sent s" and "consensus_ok (on_wire req)"
    and "\<forall>m reply. HandleMessage mock_store now (mn_manager n) (on_wire req) = (m, Ret reply) \<longrightarrow> consensus_ok (on_wire reply)"
    and "mock_SendMessage (mockNodeDefaultMessageHandler now) ms n req = (n', res)"
  shows "\<exists>\<rho>'. (sys_step mock_store uuid_time iter)\<^sup>*\<^sup>* s (s(b \<mapsto> \<rho>')) \<and> r_mgr \<rho>' = mn_manager n' \<and>
    (\<forall>reply. res = Ret reply \<longrightarrow> arrives (s(b \<mapsto> \<rho>')) reply)"
proof -
  let ?\<rho>1 = "\<rho>\<lparr>r_heard := insert (on_wire req) (r_heard \<rho>)\<rparr>"
  obtain m r where h: "HandleMessage mock_store now (mn_manager n) (on_wire req) = (m, r)" by fastforce
  let ?\<rho>2 = "?\<rho>1\<lparr>r_mgr := m, r_replies := r_replies ?\<rho>1 \<union> (case r of Ret reply \<Rightarrow> {reply} | _ \<Rightarrow> {})\<rparr>"
  have ok: "\<forall>reply. r = Ret reply \<longrightarrow> consensus_ok (on_wire reply)" using assms(6) h by blast
  note result = mock_SendMessage_result [OF assms(3,5) h ok assms(7)]
  have 1: "(sys_step mock_store uuid_time iter)\<^sup>*\<^sup>* s (s(b \<mapsto> ?\<rho>1))"
    by (rule sys_hear [OF assms(1) arrivesI [OF assms(4,5)] rtranclp.rtrancl_refl])
  have "lstep mock_store uuid_time iter ?\<rho>1 Internal ?\<rho>2"
    by (rule lstep.handle [of "on_wire req" _ _ now]) (use h assms(2) in simp_all)
  from sys_internal [of "s(b \<mapsto> ?\<rho>1)" b, OF _ this 1]
  have 2: "(sys_step mock_store uuid_time iter)\<^sup>*\<^sup>* s (s(b \<mapsto> ?\<rho>2))" by simp
  have "arrives (s(b \<mapsto> ?\<rho>2)) (on_wire reply)" if r: "r = Ret reply" for reply
  proof (rule arrivesI)
    have "reply \<in> r_replies ?\<rho>2" "?\<rho>2 \<in> ran (s(b \<mapsto> ?\<rho>2))" using r by simp_all
    then show "reply \<in> sent (s(b \<mapsto> ?\<rho>2))" unfolding sent_def by blast
  qed (use ok r in blast)
  then show ?thesis using 2 result(1,2) by (intro exI [of _ ?\<rho>2]) (cases r, auto simp: omap_def)
qed

section \<open>The replica sets\<close>

definition mock_system :: "mockNode list \<Rightarrow> (mockStore, intVal) system" where
  "mock_system ns = map_of (map (\<lambda>n. (mn_id n, \<lparr>r_mgr = mn_manager n, r_heard = {}, r_replies = {}, r_proposed = {}\<rparr>)) ns)"

text \<open>
  A set of mock nodes is a system at its start, and every node of the set replicates every key,
  although all of them have the same token.
\<close>

lemma setupReplicaSet_started: "started newMockStore (mock_system (setupReplicaSet ids))"
proof -
  have "\<exists>t. localNodeID t = mn_id n \<and>
      \<lparr>r_mgr = mn_manager n, r_heard = {}, r_replies = {}, r_proposed = {}\<rparr> = new_replica t newMockStore"
    if "n \<in> set (setupReplicaSet ids)" for n
    using that by (intro exI [of _ "topology (mn_manager n)"])
      (auto simp: setupReplicaSet_def newMockNode_def Let_def new_replica_def NewManager_def NewTopology_def)
  then show ?thesis by (auto simp: started_def mock_system_def dest!: map_of_SomeD)
qed

lemma setupReplicaSet_replicas:
  assumes "distinct ids" and "length ids < 2 ^ 32" and "n \<in> set (setupReplicaSet ids)"
  shows "node_id ` set (getInstanceNodes (mn_manager n) i) = set ids"
    and "length (getInstanceNodes (mn_manager n) i) = length ids"
proof -
  let ?ns = "map (\<lambda>i. mock_Node i (map newMockNode ids ! i)) [0..<length ids]"
  have id: "node_id (?ns ! k) = ids ! k" "node_dcId (?ns ! k) = ''DC1''" if "k < length ids" for k
    using that by (simp_all add: mock_Node_def newMockNode_def Let_def)
  have ids: "map node_id ?ns = ids" by (rule nth_equalityI) (simp_all add: mock_Node_def newMockNode_def Let_def)
  have inj: "inj_on node_id (set ?ns)" using ids assms(1) by (metis distinct_map)
  have dc: "{n \<in> set ?ns. node_dcId n = ''DC1''} = set ?ns" by (auto simp: mock_Node_def newMockNode_def Let_def)
  obtain nid where t: "topology (mn_manager n) = add_nodes (NewTopology nid ''DC1'' MD5_GetToken (of_nat (length ids))) ?ns"
    using assms(3) by (auto simp: setupReplicaSet_def newMockNode_def Let_def)
  let ?r = "ring_of (topology (mn_manager n)) ''DC1''"
  note ring = add_nodes_ring [OF inj, of nid "''DC1''" MD5_GetToken "of_nat (length ids)" "''DC1''", folded t, unfolded dc]
  have "card (set ?ns) = length ids" using ids assms(1) distinct_card [of ?ns] by (metis distinct_map length_map)
  then have len: "length (tokenRing ?r) = length ids" using ring ring_inv_distinct distinct_card by metis
  define rf :: "32 word" where "rf = ucast (of_nat (length ids) :: 64 word)"
  have "unat rf = length ids"
    using assms(2) by (simp add: rf_def unsigned_ucast_eq unsigned_of_nat take_bit_nat_eq_self)
  then have rf: "unat rf = length (tokenRing ?r)" using len by simp
  have nodes: "getInstanceNodes (mn_manager n) i = Ring_GetNodesForToken ?r (GetToken (topology (mn_manager n)) (Key (Command i))) rf"
    using t by (simp add: getInstanceNodes_def Let_def GetLocalNodesForToken_alt NewTopology_def rf_def)
  show l: "length (getInstanceNodes (mn_manager n) i) = length ids" using nodes rf len by (simp add: length_GetNodes)
  have "set (getInstanceNodes (mn_manager n) i) = set (tokenRing ?r)"
    using l nodes ring set_GetNodes distinct_GetNodes [of ?r] len distinct_card ring_inv_distinct [of ?r]
    by (metis List.finite_set card_subset_eq)
  then show "node_id ` set (getInstanceNodes (mn_manager n) i) = set ids" using ring ids by (metis list.set_map)
qed

end
