(* ===== verification/ClusterMessages.thy ===== *)
theory ClusterMessages
  imports Messages Topology
begin

text \<open>
  The messages that the nodes of a cluster exchange (\<^verbatim>\<open>cluster/message_connect.go\<close>,
  \<^verbatim>\<open>cluster/message_query.go\<close>, \<^verbatim>\<open>cluster/message_stream.go\<close>): handshake, discovery of
  peers, queries and streaming of keys, with their wire form.
\<close>

section \<open>Message types\<close>

definition CONNECTION_REQUEST :: "32 word" where "CONNECTION_REQUEST = 101"
definition CONNECTION_ACCEPTED_RESPONSE :: "32 word" where "CONNECTION_ACCEPTED_RESPONSE = 102"
definition CONNECTION_REFUSED_RESPONSE :: "32 word" where "CONNECTION_REFUSED_RESPONSE = 103"
definition DISCOVER_PEERS_REQUEST :: "32 word" where "DISCOVER_PEERS_REQUEST = 201"
definition DISCOVER_PEERS_RESPONSE :: "32 word" where "DISCOVER_PEERS_RESPONSE = 202"
definition READ_REQUEST :: "32 word" where "READ_REQUEST = 301"
definition WRITE_REQUEST :: "32 word" where "WRITE_REQUEST = 302"
definition QUERY_RESPONSE :: "32 word" where "QUERY_RESPONSE = 303"
definition STREAM_REQUEST :: "32 word" where "STREAM_REQUEST = 401"
definition STREAM_RESPONSE :: "32 word" where "STREAM_RESPONSE = 402"
definition STREAM_COMPLETE_REQUEST :: "32 word" where "STREAM_COMPLETE_REQUEST = 403"
definition STREAM_COMPLETE_RESPONSE :: "32 word" where "STREAM_COMPLETE_RESPONSE = 404"
definition STREAM_DATA_REQUEST :: "32 word" where "STREAM_DATA_REQUEST = 405"
definition STREAM_DATA_RESPONSE :: "32 word" where "STREAM_DATA_RESPONSE = 406"

lemmas cluster_type_defs =
  CONNECTION_REQUEST_def CONNECTION_ACCEPTED_RESPONSE_def CONNECTION_REFUSED_RESPONSE_def
  DISCOVER_PEERS_REQUEST_def DISCOVER_PEERS_RESPONSE_def READ_REQUEST_def WRITE_REQUEST_def
  QUERY_RESPONSE_def STREAM_REQUEST_def STREAM_RESPONSE_def STREAM_COMPLETE_REQUEST_def
  STREAM_COMPLETE_RESPONSE_def STREAM_DATA_REQUEST_def STREAM_DATA_RESPONSE_def

record PeerData =
  pd_NodeId :: NodeId
  pd_DCId :: DatacenterID
  pd_Addr :: string
  pd_Name :: string
  pd_Token :: bytes

record ConnectionAcceptedResponse =
  ca_NodeId :: NodeId
  ca_DCId :: DatacenterID
  ca_Name :: string
  ca_Token :: bytes

record ReadRequest =
  rr_Cmd :: string
  rr_Key :: string
  rr_Args :: "string list"

record StreamData =
  sd_Key :: string
  sd_Data :: bytes

datatype cluster_msg =
    ConnectionRequest PeerData
  | ConnectionAccepted ConnectionAcceptedResponse
  | ConnectionRefusedResponse string
  | DiscoverPeersRequest NodeId
  | DiscoverPeerResponse "PeerData list"
  | ReadReq ReadRequest
  | WriteRequest ReadRequest Time
  | QueryResponse "bytes list"
  | StreamRequest
  | StreamResponse
  | StreamCompleteRequest
  | StreamCompleteResponse
  | StreamDataRequest "StreamData list"
  | StreamDataResponse

fun cluster_GetType :: "cluster_msg \<Rightarrow> 32 word" where
  "cluster_GetType (ConnectionRequest _) = CONNECTION_REQUEST"
| "cluster_GetType (ConnectionAccepted _) = CONNECTION_ACCEPTED_RESPONSE"
| "cluster_GetType (ConnectionRefusedResponse _) = CONNECTION_REFUSED_RESPONSE"
| "cluster_GetType (DiscoverPeersRequest _) = DISCOVER_PEERS_REQUEST"
| "cluster_GetType (DiscoverPeerResponse _) = DISCOVER_PEERS_RESPONSE"
| "cluster_GetType (ReadReq _) = READ_REQUEST"
| "cluster_GetType (WriteRequest _ _) = WRITE_REQUEST"
| "cluster_GetType (QueryResponse _) = QUERY_RESPONSE"
| "cluster_GetType StreamRequest = STREAM_REQUEST"
| "cluster_GetType StreamResponse = STREAM_RESPONSE"
| "cluster_GetType StreamCompleteRequest = STREAM_COMPLETE_REQUEST"
| "cluster_GetType StreamCompleteResponse = STREAM_COMPLETE_RESPONSE"
| "cluster_GetType (StreamDataRequest _) = STREAM_DATA_REQUEST"
| "cluster_GetType StreamDataResponse = STREAM_DATA_RESPONSE"

section \<open>Encoding\<close>

text \<open>
  The loops over \<^verbatim>\<open>uint32(len(xs))\<close> elements: a slice that is longer than the 32-bit
  header can say is cut.
\<close>

definition write_counted :: "('a \<Rightarrow> bytes) \<Rightarrow> 'a list \<Rightarrow> bytes" where
  "write_counted ser xs = put_uint32 (len32 xs) @ concat (map ser (take (unat (len32 xs)) xs))"

definition read_counted :: "'a reader \<Rightarrow> 'a list reader" where
  "read_counted deser = rbind read_uint32 (\<lambda>num. read_n (unat num) deser)"

definition PeerData_Serialize :: "PeerData \<Rightarrow> bytes" where
  "PeerData_Serialize m =
     WriteBuffer (pd_NodeId m) @ WriteFieldString (pd_DCId m) @ WriteFieldString (pd_Addr m) @
     WriteFieldString (pd_Name m) @ WriteFieldBytes (pd_Token m)"

definition ConnectionAccepted_Serialize :: "ConnectionAcceptedResponse \<Rightarrow> bytes" where
  "ConnectionAccepted_Serialize m =
     WriteBuffer (ca_NodeId m) @ WriteFieldBytes (string_bytes (ca_DCId m)) @
     WriteFieldBytes (string_bytes (ca_Name m)) @ WriteFieldBytes (ca_Token m)"

definition ConnectionRefused_Serialize :: "string \<Rightarrow> bytes" where
  "ConnectionRefused_Serialize reason = WriteFieldBytes (string_bytes reason)"

definition DiscoverPeersRequest_Serialize :: "NodeId \<Rightarrow> bytes" where
  "DiscoverPeersRequest_Serialize nid = WriteBuffer nid"

definition DiscoverPeerResponse_Serialize :: "PeerData list \<Rightarrow> bytes" where
  "DiscoverPeerResponse_Serialize peers = write_counted PeerData_Serialize peers"

definition ReadRequest_Serialize :: "ReadRequest \<Rightarrow> bytes" where
  "ReadRequest_Serialize m =
     WriteFieldBytes (string_bytes (rr_Cmd m)) @ WriteFieldBytes (string_bytes (rr_Key m)) @
     write_counted (\<lambda>arg. WriteFieldBytes (string_bytes arg)) (rr_Args m)"

definition WriteRequest_Serialize :: "ReadRequest \<Rightarrow> Time \<Rightarrow> bytes" where
  "WriteRequest_Serialize m ts = ReadRequest_Serialize m @ WriteTime ts"

definition QueryResponse_Serialize :: "bytes list \<Rightarrow> bytes" where
  "QueryResponse_Serialize data = write_counted WriteFieldBytes data"

definition StreamData_Serialize :: "StreamData \<Rightarrow> bytes" where
  "StreamData_Serialize m = WriteFieldBytes (string_bytes (sd_Key m)) @ WriteFieldBytes (sd_Data m)"

definition StreamDataRequest_Serialize :: "StreamData list \<Rightarrow> bytes" where
  "StreamDataRequest_Serialize data = write_counted StreamData_Serialize data"

fun cluster_Serialize :: "cluster_msg \<Rightarrow> bytes" where
  "cluster_Serialize (ConnectionRequest m) = PeerData_Serialize m"
| "cluster_Serialize (ConnectionAccepted m) = ConnectionAccepted_Serialize m"
| "cluster_Serialize (ConnectionRefusedResponse reason) = ConnectionRefused_Serialize reason"
| "cluster_Serialize (DiscoverPeersRequest nid) = DiscoverPeersRequest_Serialize nid"
| "cluster_Serialize (DiscoverPeerResponse peers) = DiscoverPeerResponse_Serialize peers"
| "cluster_Serialize (ReadReq m) = ReadRequest_Serialize m"
| "cluster_Serialize (WriteRequest m ts) = WriteRequest_Serialize m ts"
| "cluster_Serialize (QueryResponse data) = QueryResponse_Serialize data"
| "cluster_Serialize (StreamDataRequest data) = StreamDataRequest_Serialize data"
| "cluster_Serialize _ = []"

lemmas cluster_Serialize_defs =
  PeerData_Serialize_def ConnectionAccepted_Serialize_def ConnectionRefused_Serialize_def
  DiscoverPeersRequest_Serialize_def DiscoverPeerResponse_Serialize_def ReadRequest_Serialize_def
  WriteRequest_Serialize_def QueryResponse_Serialize_def StreamData_Serialize_def
  StreamDataRequest_Serialize_def

section \<open>Sizes\<close>

definition PeerData_NumBytes :: "PeerData \<Rightarrow> nat" where
  "PeerData_NumBytes m =
     UUID_NUM_BYTES + NumStringBytes (pd_DCId m) + NumStringBytes (pd_Addr m) +
     NumStringBytes (pd_Name m) + NumSliceBytes (pd_Token m)"

definition ConnectionAccepted_NumBytes :: "ConnectionAcceptedResponse \<Rightarrow> nat" where
  "ConnectionAccepted_NumBytes m =
     UUID_NUM_BYTES + NumStringBytes (ca_DCId m) + NumStringBytes (ca_Name m) + NumSliceBytes (ca_Token m)"

definition ConnectionRefused_NumBytes :: "string \<Rightarrow> nat" where
  "ConnectionRefused_NumBytes reason = NumStringBytes reason"

definition DiscoverPeersRequest_NumBytes :: "NodeId \<Rightarrow> nat" where
  "DiscoverPeersRequest_NumBytes nid = UUID_NUM_BYTES"

definition DiscoverPeerResponse_NumBytes :: "PeerData list \<Rightarrow> nat" where
  "DiscoverPeerResponse_NumBytes peers = 4 + sum_list (map PeerData_NumBytes peers)"

definition ReadRequest_NumBytes :: "ReadRequest \<Rightarrow> nat" where
  "ReadRequest_NumBytes m =
     NumStringBytes (rr_Cmd m) + NumStringBytes (rr_Key m) + 4 + sum_list (map NumStringBytes (rr_Args m))"

definition WriteRequest_NumBytes :: "ReadRequest \<Rightarrow> Time \<Rightarrow> nat" where
  "WriteRequest_NumBytes m ts = ReadRequest_NumBytes m + NumTimeBytes"

definition QueryResponse_NumBytes :: "bytes list \<Rightarrow> nat" where
  "QueryResponse_NumBytes data = 4 + sum_list (map NumSliceBytes data)"

definition StreamData_NumBytes :: "StreamData \<Rightarrow> nat" where
  "StreamData_NumBytes m = NumStringBytes (sd_Key m) + NumSliceBytes (sd_Data m)"

definition StreamDataRequest_NumBytes :: "StreamData list \<Rightarrow> nat" where
  "StreamDataRequest_NumBytes data = 4 + sum_list (map StreamData_NumBytes data)"

fun cluster_NumBytes :: "cluster_msg \<Rightarrow> nat" where
  "cluster_NumBytes (ConnectionRequest m) = PeerData_NumBytes m"
| "cluster_NumBytes (ConnectionAccepted m) = ConnectionAccepted_NumBytes m"
| "cluster_NumBytes (ConnectionRefusedResponse reason) = ConnectionRefused_NumBytes reason"
| "cluster_NumBytes (DiscoverPeersRequest nid) = DiscoverPeersRequest_NumBytes nid"
| "cluster_NumBytes (DiscoverPeerResponse peers) = DiscoverPeerResponse_NumBytes peers"
| "cluster_NumBytes (ReadReq m) = ReadRequest_NumBytes m"
| "cluster_NumBytes (WriteRequest m ts) = WriteRequest_NumBytes m ts"
| "cluster_NumBytes (QueryResponse data) = QueryResponse_NumBytes data"
| "cluster_NumBytes (StreamDataRequest data) = StreamDataRequest_NumBytes data"
| "cluster_NumBytes _ = 0"

lemmas cluster_NumBytes_defs =
  PeerData_NumBytes_def ConnectionAccepted_NumBytes_def ConnectionRefused_NumBytes_def
  DiscoverPeersRequest_NumBytes_def DiscoverPeerResponse_NumBytes_def ReadRequest_NumBytes_def
  WriteRequest_NumBytes_def QueryResponse_NumBytes_def StreamData_NumBytes_def
  StreamDataRequest_NumBytes_def

section \<open>Decoding\<close>

definition PeerData_Deserialize :: "PeerData reader" where
  "PeerData_Deserialize =
     rbind (ReadBuffer zero_B16) (\<lambda>nid.
     rbind ReadFieldBytes (\<lambda>dc.
     rbind ReadFieldBytes (\<lambda>addr.
     rbind ReadFieldBytes (\<lambda>name.
     rbind ReadFieldBytes (\<lambda>b.
       if length b < 1
       then rfail (MessageEncodingError ''expected at least one byte for Token, got %v (%v)'')
       else rreturn \<lparr>pd_NodeId = nid, pd_DCId = bytes_string dc, pd_Addr = bytes_string addr,
         pd_Name = bytes_string name, pd_Token = b\<rparr>)))))"

text \<open>
  A field whose error is turned into success: the decoder returns the message as it is.  The
  readers fail only at the end of the stream, so nothing is left.
\<close>

definition swallow :: "'a reader \<Rightarrow> 'b \<Rightarrow> ('a \<Rightarrow> 'b reader) \<Rightarrow> 'b reader" where
  "swallow r m f bs = (case r bs of Inl _ \<Rightarrow> Inr (m, []) | Inr (b, bs') \<Rightarrow> f b bs')"

definition zero_Accepted :: ConnectionAcceptedResponse where
  "zero_Accepted = \<lparr>ca_NodeId = zero_B16, ca_DCId = [], ca_Name = [], ca_Token = []\<rparr>"

definition ConnectionAccepted_Deserialize :: "ConnectionAcceptedResponse reader" where
  "ConnectionAccepted_Deserialize =
     rbind (ReadBuffer zero_B16) (\<lambda>nid.
     let m = zero_Accepted\<lparr>ca_NodeId := nid\<rparr> in
     swallow ReadFieldBytes m (\<lambda>b.
     let m = m\<lparr>ca_DCId := bytes_string b\<rparr> in
     swallow ReadFieldBytes m (\<lambda>b.
     let m = m\<lparr>ca_Name := bytes_string b\<rparr> in
     swallow ReadFieldBytes m (\<lambda>b.
       if length b < 1
       then rfail (MessageEncodingError ''expected at least 1 byte for Token, got %v (%v)'')
       else rreturn (m\<lparr>ca_Token := b\<rparr>)))))"

definition ConnectionRefused_Deserialize :: "string reader" where
  "ConnectionRefused_Deserialize = rbind ReadFieldBytes (\<lambda>b. rreturn (bytes_string b))"

definition DiscoverPeersRequest_Deserialize :: "NodeId reader" where
  "DiscoverPeersRequest_Deserialize = ReadBuffer zero_B16"

definition DiscoverPeerResponse_Deserialize :: "PeerData list reader" where
  "DiscoverPeerResponse_Deserialize = read_counted PeerData_Deserialize"

definition ReadRequest_Deserialize :: "ReadRequest reader" where
  "ReadRequest_Deserialize =
     rbind ReadFieldBytes (\<lambda>cmd.
     rbind ReadFieldBytes (\<lambda>key.
     rbind (read_counted (rbind ReadFieldBytes (\<lambda>b. rreturn (bytes_string b)))) (\<lambda>args.
       rreturn \<lparr>rr_Cmd = bytes_string cmd, rr_Key = bytes_string key, rr_Args = args\<rparr>)))"

definition WriteRequest_Deserialize :: "(ReadRequest \<times> Time) reader" where
  "WriteRequest_Deserialize =
     rbind ReadRequest_Deserialize (\<lambda>m. rbind ReadTime (\<lambda>ts. rreturn (m, ts)))"

definition QueryResponse_Deserialize :: "bytes list reader" where
  "QueryResponse_Deserialize = read_counted ReadFieldBytes"

definition StreamData_Deserialize :: "StreamData reader" where
  "StreamData_Deserialize =
     rbind ReadFieldBytes (\<lambda>key. rbind ReadFieldBytes (\<lambda>b.
       rreturn \<lparr>sd_Key = bytes_string key, sd_Data = b\<rparr>))"

definition StreamDataRequest_Deserialize :: "StreamData list reader" where
  "StreamDataRequest_Deserialize = read_counted StreamData_Deserialize"

lemmas cluster_deser_defs =
  PeerData_Deserialize_def ConnectionAccepted_Deserialize_def ConnectionRefused_Deserialize_def
  DiscoverPeersRequest_Deserialize_def DiscoverPeerResponse_Deserialize_def
  ReadRequest_Deserialize_def WriteRequest_Deserialize_def QueryResponse_Deserialize_def
  StreamData_Deserialize_def StreamDataRequest_Deserialize_def

text \<open>The registrations of the three \<^verbatim>\<open>init\<close> functions.\<close>

definition connect_constructors :: "(32 word \<times> cluster_msg reader) list" where
  "connect_constructors =
     [(CONNECTION_REQUEST, rbind PeerData_Deserialize (\<lambda>m. rreturn (ConnectionRequest m))),
      (CONNECTION_ACCEPTED_RESPONSE, rbind ConnectionAccepted_Deserialize (\<lambda>m. rreturn (ConnectionAccepted m))),
      (CONNECTION_REFUSED_RESPONSE, rbind ConnectionRefused_Deserialize (\<lambda>r. rreturn (ConnectionRefusedResponse r))),
      (DISCOVER_PEERS_REQUEST, rbind DiscoverPeersRequest_Deserialize (\<lambda>nid. rreturn (DiscoverPeersRequest nid))),
      (DISCOVER_PEERS_RESPONSE, rbind DiscoverPeerResponse_Deserialize (\<lambda>ps. rreturn (DiscoverPeerResponse ps)))]"

definition query_constructors :: "(32 word \<times> cluster_msg reader) list" where
  "query_constructors =
     [(READ_REQUEST, rbind ReadRequest_Deserialize (\<lambda>m. rreturn (ReadReq m))),
      (WRITE_REQUEST, rbind WriteRequest_Deserialize (\<lambda>(m, ts). rreturn (WriteRequest m ts))),
      (QUERY_RESPONSE, rbind QueryResponse_Deserialize (\<lambda>d. rreturn (QueryResponse d)))]"

definition stream_constructors :: "(32 word \<times> cluster_msg reader) list" where
  "stream_constructors =
     [(STREAM_REQUEST, rreturn StreamRequest),
      (STREAM_RESPONSE, rreturn StreamResponse),
      (STREAM_COMPLETE_REQUEST, rreturn StreamCompleteRequest),
      (STREAM_COMPLETE_RESPONSE, rreturn StreamCompleteResponse),
      (STREAM_DATA_REQUEST, rbind StreamDataRequest_Deserialize (\<lambda>d. rreturn (StreamDataRequest d))),
      (STREAM_DATA_RESPONSE, rreturn StreamDataResponse)]"

definition cluster_constructors :: "32 word \<Rightarrow> cluster_msg reader option" where
  "cluster_constructors =
     fold (\<lambda>(mtype, d) cs. RegisterMessage cs mtype d)
       (connect_constructors @ query_constructors @ stream_constructors) Map.empty"

section \<open>The cluster messages as a family\<close>

definition PeerData_ok :: "PeerData \<Rightarrow> bool" where
  "PeerData_ok m \<longleftrightarrow> fits32 (pd_DCId m) \<and> fits32 (pd_Addr m) \<and> fits32 (pd_Name m) \<and>
     fits32 (pd_Token m) \<and> pd_Token m \<noteq> []"

definition ReadRequest_ok :: "ReadRequest \<Rightarrow> bool" where
  "ReadRequest_ok m \<longleftrightarrow> fits32 (rr_Cmd m) \<and> fits32 (rr_Key m) \<and> fits32 (rr_Args m) \<and>
     list_all fits32 (rr_Args m)"

definition StreamData_ok :: "StreamData \<Rightarrow> bool" where
  "StreamData_ok m \<longleftrightarrow> fits32 (sd_Key m) \<and> fits32 (sd_Data m)"

fun cluster_ok :: "cluster_msg \<Rightarrow> bool" where
  "cluster_ok (ConnectionRequest m) = PeerData_ok m"
| "cluster_ok (ConnectionAccepted m) =
     (fits32 (ca_DCId m) \<and> fits32 (ca_Name m) \<and> fits32 (ca_Token m) \<and> ca_Token m \<noteq> [])"
| "cluster_ok (ConnectionRefusedResponse reason) = fits32 reason"
| "cluster_ok (DiscoverPeerResponse peers) = (fits32 peers \<and> list_all PeerData_ok peers)"
| "cluster_ok (ReadReq m) = ReadRequest_ok m"
| "cluster_ok (WriteRequest m ts) = ReadRequest_ok m"
| "cluster_ok (QueryResponse data) = (fits32 data \<and> list_all fits32 data)"
| "cluster_ok (StreamDataRequest data) = (fits32 data \<and> list_all StreamData_ok data)"
| "cluster_ok _ = True"

text \<open>The counted list of a codec is a codec.\<close>

lemma counted_codec:
  assumes "codec ser deser nbytes ok"
  shows "codec (write_counted ser) (read_counted deser) (\<lambda>xs. 4 + sum_list (map nbytes xs))
    (\<lambda>xs. fits32 xs \<and> list_all ok xs)"
proof
  fix xs rest assume "fits32 xs \<and> list_all ok xs"
  then have "read_n (length xs) deser (concat (map ser xs) @ rest) = Inr (xs, rest)"
    by (intro codec.read_list [OF assms]) (simp add: list_all_iff)
  with \<open>fits32 xs \<and> list_all ok xs\<close>
  show "read_counted deser (write_counted ser xs @ rest) = Inr (xs, rest)"
    by (simp add: read_counted_def write_counted_def codec_simps fits32_def)
next
  fix xs assume "fits32 xs \<and> list_all ok xs"
  then show "length (write_counted ser xs) = 4 + sum_list (map nbytes xs)"
    using codec.length_list [OF assms, of xs] by (simp add: write_counted_def fits32_def list_all_iff)
qed

interpretation peer_data: codec PeerData_Serialize PeerData_Deserialize PeerData_NumBytes PeerData_ok
proof
  show "PeerData_ok a \<Longrightarrow> PeerData_Deserialize (PeerData_Serialize a @ rest) = Inr (a, rest)" for a rest
    by (cases a) (simp add: PeerData_Deserialize_def PeerData_Serialize_def PeerData_ok_def
        WriteFieldString_def uuid.bind_read field_bytes.bind_read codec_simps Suc_le_eq)
  show "PeerData_ok a \<Longrightarrow> length (PeerData_Serialize a) = PeerData_NumBytes a" for a
    by (simp add: PeerData_Serialize_def PeerData_NumBytes_def PeerData_ok_def uuid.len
        field_string.len field_bytes.len)
qed

interpretation stream_data: codec StreamData_Serialize StreamData_Deserialize StreamData_NumBytes StreamData_ok
proof
  show "StreamData_ok a \<Longrightarrow> StreamData_Deserialize (StreamData_Serialize a @ rest) = Inr (a, rest)" for a rest
    by (cases a) (simp add: StreamData_Deserialize_def StreamData_Serialize_def StreamData_ok_def
        field_bytes.bind_read codec_simps)
  show "StreamData_ok a \<Longrightarrow> length (StreamData_Serialize a) = StreamData_NumBytes a" for a
    by (simp add: StreamData_Serialize_def StreamData_NumBytes_def StreamData_ok_def field_bytes.len
        NumSliceBytes_def NumStringBytes_def)
qed

interpretation peer_list: codec "write_counted PeerData_Serialize" "read_counted PeerData_Deserialize"
  "\<lambda>xs. 4 + sum_list (map PeerData_NumBytes xs)" "\<lambda>xs. fits32 xs \<and> list_all PeerData_ok xs"
  by (rule counted_codec) (rule peer_data.codec_axioms)

interpretation stream_list: codec "write_counted StreamData_Serialize" "read_counted StreamData_Deserialize"
  "\<lambda>xs. 4 + sum_list (map StreamData_NumBytes xs)" "\<lambda>xs. fits32 xs \<and> list_all StreamData_ok xs"
  by (rule counted_codec) (rule stream_data.codec_axioms)

interpretation field_list: codec "write_counted WriteFieldBytes" "read_counted ReadFieldBytes"
  "\<lambda>xs. 4 + sum_list (map NumSliceBytes xs)" "\<lambda>xs. fits32 xs \<and> list_all fits32 xs"
  by (rule counted_codec) (rule field_bytes.codec_axioms)

text \<open>The arguments of a query are written as bytes and read as strings.\<close>

interpretation arg_list: codec "write_counted (\<lambda>arg. WriteFieldBytes (string_bytes arg))"
  "read_counted (rbind ReadFieldBytes (\<lambda>b. rreturn (bytes_string b)))"
  "\<lambda>xs. 4 + sum_list (map NumStringBytes xs)" "\<lambda>xs. fits32 xs \<and> list_all fits32 xs"
  using counted_codec [OF field_string.codec_axioms]
  by (simp add: ReadFieldString_def [abs_def] WriteFieldString_def [abs_def])

interpretation read_request: codec ReadRequest_Serialize ReadRequest_Deserialize ReadRequest_NumBytes ReadRequest_ok
proof
  show "ReadRequest_ok a \<Longrightarrow> ReadRequest_Deserialize (ReadRequest_Serialize a @ rest) = Inr (a, rest)" for a rest
    by (cases a) (simp add: ReadRequest_Deserialize_def ReadRequest_Serialize_def ReadRequest_ok_def
        field_bytes.bind_read arg_list.bind_read codec_simps)
  show "ReadRequest_ok a \<Longrightarrow> length (ReadRequest_Serialize a) = ReadRequest_NumBytes a" for a
    by (simp add: ReadRequest_Serialize_def ReadRequest_NumBytes_def ReadRequest_ok_def field_bytes.len
        arg_list.len NumSliceBytes_def NumStringBytes_def)
qed

lemma swallow_field [codec_simps]:
  "fits32 b \<Longrightarrow> swallow ReadFieldBytes m f (WriteFieldBytes b @ rest) = f b rest"
  by (simp add: swallow_def field_bytes.roundtrip)

lemma ConnectionAccepted_roundtrip:
  "cluster_ok (ConnectionAccepted m) \<Longrightarrow>
     ConnectionAccepted_Deserialize (ConnectionAccepted_Serialize m @ rest) = Inr (m, rest)"
  by (cases m) (simp add: ConnectionAccepted_Deserialize_def ConnectionAccepted_Serialize_def
      zero_Accepted_def uuid.bind_read codec_simps Let_def)

lemma cluster_registered:
  assumes "cluster_ok m"
  shows "\<exists>deser. cluster_constructors (cluster_GetType m) = Some deser \<and>
    (\<forall>rest. deser (cluster_Serialize m @ rest) = Inr (m, rest))"
  using assms
  by (cases m)
    (simp_all add: cluster_constructors_def connect_constructors_def query_constructors_def
      stream_constructors_def RegisterMessage_def cluster_type_defs peer_data.bind_read
      rbind_Inr ConnectionAccepted_roundtrip ConnectionRefused_Deserialize_def
      ConnectionRefused_Serialize_def DiscoverPeersRequest_Deserialize_def
      DiscoverPeersRequest_Serialize_def DiscoverPeerResponse_Deserialize_def
      DiscoverPeerResponse_Serialize_def WriteRequest_Deserialize_def WriteRequest_Serialize_def
      QueryResponse_Deserialize_def QueryResponse_Serialize_def StreamDataRequest_Deserialize_def
      StreamDataRequest_Serialize_def peer_list.roundtrip stream_list.roundtrip field_list.roundtrip
      field_bytes.roundtrip uuid.roundtrip read_request.roundtrip time.roundtrip codec_simps)

interpretation cluster_messages: message_family cluster_GetType cluster_Serialize cluster_constructors
  cluster_NumBytes cluster_ok
proof
  show "length (cluster_Serialize m) = cluster_NumBytes m" if "cluster_ok m" for m
    using that
    by (cases m) (simp_all add: peer_data.len ConnectionAccepted_Serialize_def
        ConnectionAccepted_NumBytes_def ConnectionRefused_Serialize_def ConnectionRefused_NumBytes_def
        DiscoverPeersRequest_Serialize_def DiscoverPeersRequest_NumBytes_def
        DiscoverPeerResponse_Serialize_def DiscoverPeerResponse_NumBytes_def WriteRequest_Serialize_def
        WriteRequest_NumBytes_def QueryResponse_Serialize_def QueryResponse_NumBytes_def
        StreamDataRequest_Serialize_def StreamDataRequest_NumBytes_def peer_list.len stream_list.len
        field_list.len field_bytes.len uuid.len read_request.len time.len NumSliceBytes_def
        NumStringBytes_def)
qed (rule cluster_registered)

section \<open>Properties\<close>


definition ex_peer :: PeerData where
  "ex_peer = \<lparr>pd_NodeId = \<lparr>b0 = 1, b1 = 2\<rparr>, pd_DCId = ''DC1'', pd_Addr = ''127.0.0.1:4379'',
     pd_Name = ''n1'', pd_Token = [7, 0]\<rparr>"


end
