(* ===== verification/Truncation.thy ===== *)
theory Truncation
  imports ClusterMessages
begin

text \<open>
  What a node reads when a connection breaks inside a message.  A decoder that returns
  a value on some bytes and returns the same value when more bytes follow cannot take a part
  of a message for a whole one.  This holds for the decoders of all messages but one: the
  acceptance of a connection turns the end of the stream into success.
\<close>

named_theorems stable_intros \<open>readers whose result does not depend on what follows\<close>

section \<open>Stable readers\<close>

definition stable :: "'a reader \<Rightarrow> bool" where
  "stable r \<longleftrightarrow> (\<forall>bs a rest ext. r bs = Inr (a, rest) \<longrightarrow> r (bs @ ext) = Inr (a, rest @ ext))"

lemma stableD: "stable r \<Longrightarrow> r bs = Inr (a, rest) \<Longrightarrow> r (bs @ ext) = Inr (a, rest @ ext)"
  by (simp add: stable_def)

lemma stable_rreturn [stable_intros]: "stable (rreturn a)"
  by (simp add: stable_def rreturn_def)

lemma stable_rfail [stable_intros]: "stable (rfail e)"
  by (simp add: stable_def rfail_def)

lemma stable_rbind [stable_intros]:
  assumes "stable r" and "\<And>a. stable (f a)"
  shows "stable (rbind r f)"
  unfolding stable_def
proof (intro allI impI)
  fix bs b rest ext
  assume "rbind r f bs = Inr (b, rest)"
  then obtain a bs' where "r bs = Inr (a, bs')" and "f a bs' = Inr (b, rest)" by (rule rbind_eq_InrE)
  then show "rbind r f (bs @ ext) = Inr (b, rest @ ext)"
    using assms by (simp add: rbind_Inr stableD)
qed

lemma stable_if [stable_intros]: "stable r \<Longrightarrow> stable s \<Longrightarrow> stable (if c then r else s)"
  by simp

lemma stable_case_sum [stable_intros]:
  "(\<And>e. stable (f e)) \<Longrightarrow> (\<And>v. stable (g v)) \<Longrightarrow> stable (case x of Inl e \<Rightarrow> f e | Inr v \<Rightarrow> g v)"
  by (cases x) simp_all

lemma stable_case_prod [stable_intros]: "(\<And>a b. stable (f a b)) \<Longrightarrow> stable (case p of (a, b) \<Rightarrow> f a b)"
  by (cases p) simp

lemma stable_read_n [stable_intros]: "stable r \<Longrightarrow> stable (read_n n r)"
  by (induction n) (simp_all add: stable_intros)

lemma stable_read_uint32 [stable_intros]: "stable read_uint32"
  unfolding stable_def
proof (intro allI impI)
  fix bs w rest ext
  show "read_uint32 bs = Inr (w, rest) \<Longrightarrow> read_uint32 (bs @ ext) = Inr (w, rest @ ext)"
    by (cases bs rule: read_uint32.cases) auto
qed

lemma stable_read_byte [stable_intros]: "stable read_byte"
  unfolding stable_def
proof (intro allI impI)
  fix bs w rest ext
  show "read_byte bs = Inr (w, rest) \<Longrightarrow> read_byte (bs @ ext) = Inr (w, rest @ ext)"
    by (cases bs) auto
qed

lemma stable_ReadBytes [stable_intros]: "stable (ReadBytes n)"
  by (auto simp: stable_def ReadBytes_def split: if_splits)

lemma stable_fields [stable_intros]:
  "stable ReadFieldBytes" "stable ReadFieldString" "stable ReadTime" "stable read_bool"
  "stable (ReadBuffer u)"
  unfolding ReadFieldBytes_def ReadFieldString_def ReadTime_def read_bool_def ReadBuffer_def
  by (intro stable_intros)+

section \<open>The contract\<close>

text \<open>A codec with a stable decoder fails on every proper prefix of an encoding.\<close>

locale stable_codec = codec +
  assumes stable_deser: "stable deser"
begin

lemma prefix_fails:
  assumes "ok a" and "k < length (ser a)"
  shows "\<exists>e. deser (take k (ser a)) = Inl e"
proof (cases "deser (take k (ser a))")
  case (Inr p)
  obtain b rest where "p = (b, rest)" by (cases p)
  with Inr have "deser (take k (ser a) @ drop k (ser a)) = Inr (b, rest @ drop k (ser a))"
    by (intro stableD [OF stable_deser]) simp
  moreover have "deser (take k (ser a) @ drop k (ser a)) = Inr (a, [])"
    using roundtrip_end [OF assms(1)] by simp
  ultimately have "drop k (ser a) = []" by simp
  with assms(2) show ?thesis by simp
qed blast

end

section \<open>The decoders of the messages\<close>

lemma stable_ReadMessage:
  assumes "\<And>mtype deser. constructors mtype = Some deser \<Longrightarrow> stable deser"
  shows "stable (ReadMessage constructors)"
  unfolding ReadMessage_def
proof (intro stable_intros)
  fix mtype
  show "stable (case constructors mtype of
      None \<Rightarrow> rfail (Errorf ''Unknown message type: %v'') | Some deser \<Rightarrow> deser)"
    using assms by (cases "constructors mtype") (simp_all add: stable_intros)
qed

lemma stable_Instruction [stable_intros]: "stable Instruction_Deserialize"
  unfolding Instruction_Deserialize_def by (intro stable_intros)

lemma stable_DeserializeLimited [stable_intros]: "stable (DeserializeLimited i)"
  unfolding DeserializeLimited_def by (intro stable_intros)

lemma stable_instance_lists [stable_intros]: "stable read_instances" "stable read_nilable"
  unfolding read_instances_def read_nilable_def by (intro stable_intros)+

text \<open>A registry that is filled with stable decoders has no others.\<close>

lemma registered_stable:
  assumes "list_all (\<lambda>(mtype, d). stable d) regs"
    and "fold (\<lambda>(mtype, d) cs. RegisterMessage cs mtype d) regs cs0 mtype = Some deser"
    and "\<And>mtype deser. cs0 mtype = Some deser \<Longrightarrow> stable deser"
  shows "stable deser"
  using assms
proof (induction regs arbitrary: cs0)
  case (Cons reg regs)
  obtain t d where "reg = (t, d)" by (cases reg)
  with Cons.prems show ?case
    by (intro Cons.IH [of "RegisterMessage cs0 t d"]) (auto simp: RegisterMessage_def split: if_splits)
qed simp

lemma consensus_stable: "stable (ReadMessage consensus_constructors)"
proof (rule stable_ReadMessage)
  fix mtype deser
  assume "consensus_constructors mtype = Some deser"
  then show "stable deser"
    unfolding consensus_constructors_def
    by (rule registered_stable [rotated]) (simp_all add: consensus_deser_defs stable_intros)
qed

interpretation consensus_frames: stable_codec "WriteMessage GetType consensus_Serialize"
  "ReadMessage consensus_constructors" "\<lambda>m. 4 + consensus_NumBytes m" consensus_ok
  by unfold_locales (rule consensus_stable)

text \<open>All messages of the cluster but the acceptance of a connection.\<close>

lemma stable_PeerData [stable_intros]: "stable PeerData_Deserialize"
  unfolding PeerData_Deserialize_def by (intro stable_intros)

lemma stable_counted [stable_intros]: "stable r \<Longrightarrow> stable (read_counted r)"
  unfolding read_counted_def by (intro stable_intros)

lemma cluster_body_stable:
  assumes "mtype \<noteq> CONNECTION_ACCEPTED_RESPONSE" and "cluster_constructors mtype = Some deser"
  shows "stable deser"
proof -
  let ?regs = "[(c, d) \<leftarrow> connect_constructors @ query_constructors @ stream_constructors.
    c \<noteq> CONNECTION_ACCEPTED_RESPONSE]"
  have "fold (\<lambda>(mtype, d) cs. RegisterMessage cs mtype d) ?regs Map.empty mtype = Some deser"
    using assms by (simp add: cluster_constructors_def connect_constructors_def query_constructors_def
        stream_constructors_def RegisterMessage_def cluster_type_defs split: if_splits)
  then show ?thesis
    by (rule registered_stable [rotated])
      (simp_all add: connect_constructors_def query_constructors_def stream_constructors_def
        cluster_type_defs cluster_deser_defs stable_intros)
qed

text \<open>The registry without the acceptance of a connection.\<close>

definition strict_constructors :: "32 word \<Rightarrow> cluster_msg reader option" where
  "strict_constructors = cluster_constructors(CONNECTION_ACCEPTED_RESPONSE := None)"

definition strict_ok :: "cluster_msg \<Rightarrow> bool" where
  "strict_ok m \<longleftrightarrow> cluster_ok m \<and> cluster_GetType m \<noteq> CONNECTION_ACCEPTED_RESPONSE"

interpretation strict_messages: message_family cluster_GetType cluster_Serialize strict_constructors
  cluster_NumBytes strict_ok
proof
  fix m assume m: "strict_ok m"
  show "\<exists>deser. strict_constructors (cluster_GetType m) = Some deser \<and>
      (\<forall>rest. deser (cluster_Serialize m @ rest) = Inr (m, rest))"
    using m cluster_registered [of m] by (simp add: strict_constructors_def strict_ok_def)
  show "length (cluster_Serialize m) = cluster_NumBytes m"
    using m cluster_messages.size [of m] by (simp add: strict_ok_def)
qed

interpretation strict_frames: stable_codec "WriteMessage cluster_GetType cluster_Serialize"
  "ReadMessage strict_constructors" "\<lambda>m. 4 + cluster_NumBytes m" strict_ok
proof
  show "stable (ReadMessage strict_constructors)"
    by (rule stable_ReadMessage)
      (auto simp: strict_constructors_def intro: cluster_body_stable split: if_splits)
qed

text \<open>What is left of a message that is cut after \<open>k\<close> bytes.\<close>

lemma read_cut_message:
  assumes "cs (mtype m) = Some deser"
  shows "ReadMessage cs (take k (WriteMessage mtype ser m)) =
    (if k < 4 then Inl (if k = 0 then EOF else ErrUnexpectedEOF) else deser (take (k - 4) (ser m)))"
proof (cases "k < 4")
  case True
  then consider "k = 0" | "k = 1" | "k = 2" | "k = 3" by linarith
  then show ?thesis
    by cases (simp_all add: ReadMessage_def WriteMessage_def put_uint32_def rbind_def numeral_eq_Suc)
next
  case False
  then show ?thesis
    using assms by (simp add: ReadMessage_def WriteMessage_def take_Cons' codec_simps)
qed

lemma cut_strict:
  assumes "strict_ok m" and "k < length (WriteMessage cluster_GetType cluster_Serialize m)"
  shows "\<exists>e. ReadMessage cluster_constructors (take k (WriteMessage cluster_GetType cluster_Serialize m)) = Inl e"
proof -
  from assms(1) obtain deser where "cluster_constructors (cluster_GetType m) = Some deser"
    using cluster_registered by (auto simp: strict_ok_def)
  moreover from this have "strict_constructors (cluster_GetType m) = Some deser"
    using assms(1) by (simp add: strict_constructors_def strict_ok_def)
  ultimately have "ReadMessage cluster_constructors (take k (WriteMessage cluster_GetType cluster_Serialize m)) =
      ReadMessage strict_constructors (take k (WriteMessage cluster_GetType cluster_Serialize m))"
    by (simp add: read_cut_message)
  then show ?thesis using strict_frames.prefix_fails [OF assms] by simp
qed

section \<open>The acceptance of a connection\<close>

interpretation stable_field: stable_codec WriteFieldBytes ReadFieldBytes NumSliceBytes fits32
  by unfold_locales (rule stable_fields)

lemma swallow_cut:
  assumes "fits32 b"
  shows "swallow ReadFieldBytes m f (take k (WriteFieldBytes b @ rest)) =
    (if k < length (WriteFieldBytes b) then Inr (m, []) else f b (take (k - length (WriteFieldBytes b)) rest))"
proof (cases "k < length (WriteFieldBytes b)")
  case True
  with stable_field.prefix_fails [OF assms] show ?thesis by (force simp: swallow_def)
next
  case False
  then show ?thesis using assms by (simp add: swallow_field)
qed

lemma cut_acceptance:
  assumes "cluster_ok (ConnectionAccepted a)" and "k < length (ConnectionAccepted_Serialize a)"
  shows "16 \<le> k \<Longrightarrow> \<exists>a'. ConnectionAccepted_Deserialize (take k (ConnectionAccepted_Serialize a)) = Inr (a', []) \<and>
      ca_NodeId a' = ca_NodeId a \<and> ca_Token a' = []"
    and "k < 16 \<Longrightarrow> ConnectionAccepted_Deserialize (take k (ConnectionAccepted_Serialize a)) = Inl EOF"
proof -
  have len: "length (WriteBuffer (ca_NodeId a)) = 16" using uuid.len by (simp add: UUID_NUM_BYTES_def)
  show "ConnectionAccepted_Deserialize (take k (ConnectionAccepted_Serialize a)) = Inl EOF" if "k < 16"
    using that len by (simp add: ConnectionAccepted_Deserialize_def ConnectionAccepted_Serialize_def
        ReadBuffer_def rbind_def ReadBytes_def)
  show "\<exists>a'. ConnectionAccepted_Deserialize (take k (ConnectionAccepted_Serialize a)) = Inr (a', []) \<and>
      ca_NodeId a' = ca_NodeId a \<and> ca_Token a' = []" if "16 \<le> k"
  proof -
    have "take k (ConnectionAccepted_Serialize a) = WriteBuffer (ca_NodeId a) @
        take (k - 16) (WriteFieldBytes (string_bytes (ca_DCId a)) @
          WriteFieldBytes (string_bytes (ca_Name a)) @ WriteFieldBytes (ca_Token a) @ [])"
      using that len by (simp add: ConnectionAccepted_Serialize_def)
    then show ?thesis
      using assms that len
      by (simp add: ConnectionAccepted_Deserialize_def uuid.bind_read swallow_cut Let_def
          zero_Accepted_def ConnectionAccepted_Serialize_def del: take_append append_Nil2) arith
  qed
qed

lemma cut_accepted_message:
  assumes "cluster_ok (ConnectionAccepted a)"
    and "k < length (WriteMessage cluster_GetType cluster_Serialize (ConnectionAccepted a))"
  shows "20 \<le> k \<Longrightarrow> \<exists>a'. ReadMessage cluster_constructors
      (take k (WriteMessage cluster_GetType cluster_Serialize (ConnectionAccepted a))) = Inr (ConnectionAccepted a', []) \<and>
      ca_NodeId a' = ca_NodeId a \<and> ca_Token a' = []"
    and "k < 20 \<Longrightarrow> \<exists>e. ReadMessage cluster_constructors
      (take k (WriteMessage cluster_GetType cluster_Serialize (ConnectionAccepted a))) = Inl e"
proof -
  have reg: "cluster_constructors (cluster_GetType (ConnectionAccepted a)) =
      Some (rbind ConnectionAccepted_Deserialize (\<lambda>m. rreturn (ConnectionAccepted m)))"
    by (simp add: cluster_constructors_def connect_constructors_def query_constructors_def
        stream_constructors_def RegisterMessage_def cluster_type_defs)
  note cut = read_cut_message [where m = "ConnectionAccepted a" and ser = cluster_Serialize and
    cs = cluster_constructors and mtype = cluster_GetType, OF reg]
  have k: "4 \<le> k \<Longrightarrow> k - 4 < length (ConnectionAccepted_Serialize a)"
    using assms(2) by (simp add: WriteMessage_def)
  show "\<exists>a'. ReadMessage cluster_constructors
      (take k (WriteMessage cluster_GetType cluster_Serialize (ConnectionAccepted a))) = Inr (ConnectionAccepted a', []) \<and>
      ca_NodeId a' = ca_NodeId a \<and> ca_Token a' = []" if "20 \<le> k"
  proof -
    have "4 \<le> k" "16 \<le> k - 4" using that by simp_all
    from cut_acceptance(1) [OF assms(1) k [OF this(1)] this(2)] obtain a' where
      "ConnectionAccepted_Deserialize (take (k - 4) (ConnectionAccepted_Serialize a)) = Inr (a', [])"
      "ca_NodeId a' = ca_NodeId a" "ca_Token a' = []" by blast
    with that show ?thesis unfolding cut by (simp add: rbind_def rreturn_def)
  qed
  show "\<exists>e. ReadMessage cluster_constructors
      (take k (WriteMessage cluster_GetType cluster_Serialize (ConnectionAccepted a))) = Inl e" if "k < 20"
  proof (cases "k < 4")
    case False
    then have "4 \<le> k" "k - 4 < 16" using that by simp_all
    from cut_acceptance(2) [OF assms(1) k [OF this(1)] this(2)] False show ?thesis
      unfolding cut by (simp add: rbind_def)
  qed (simp add: cut)
qed

section \<open>Properties\<close>

text \<open>
  C38: a message that is cut off is not taken for a whole one.  If a connection ends before a
  message is complete, reading it gives an error, for every message of the consensus protocol
  and of the cluster, wherever it is cut.  There is one exception: the acceptance of a
  connection is read without error as soon as its node identifier is complete.
\<close>

theorem truncation_detected:
  "(consensus_ok c \<and> k < length (WriteMessage GetType consensus_Serialize c) \<longrightarrow>
      (\<exists>e. ReadMessage consensus_constructors (take k (WriteMessage GetType consensus_Serialize c)) = Inl e)) \<and>
   (cluster_ok m \<and> k < length (WriteMessage cluster_GetType cluster_Serialize m) \<longrightarrow>
      ((\<exists>e. ReadMessage cluster_constructors (take k (WriteMessage cluster_GetType cluster_Serialize m)) = Inl e)
         \<longleftrightarrow> \<not> (20 \<le> k \<and> (\<exists>a. m = ConnectionAccepted a))))"
proof (intro conjI impI)
  assume "consensus_ok c \<and> k < length (WriteMessage GetType consensus_Serialize c)"
  then show "\<exists>e. ReadMessage consensus_constructors (take k (WriteMessage GetType consensus_Serialize c)) = Inl e"
    using consensus_frames.prefix_fails by blast
next
  let ?cut = "ReadMessage cluster_constructors (take k (WriteMessage cluster_GetType cluster_Serialize m))"
  assume m: "cluster_ok m \<and> k < length (WriteMessage cluster_GetType cluster_Serialize m)"
  show "(\<exists>e. ?cut = Inl e) \<longleftrightarrow> \<not> (20 \<le> k \<and> (\<exists>a. m = ConnectionAccepted a))"
  proof (cases "\<exists>a. m = ConnectionAccepted a")
    case True
    then obtain a where a: "m = ConnectionAccepted a" by blast
    show ?thesis
    proof (cases "20 \<le> k")
      case True
      with m a cut_accepted_message(1) [of a k] show ?thesis by auto
    next
      case False
      with m a cut_accepted_message(2) [of a k] show ?thesis by simp
    qed
  next
    case False
    with m have "strict_ok m" by (cases m) (auto simp: strict_ok_def cluster_type_defs)
    with m False cut_strict [of m k] show ?thesis by blast
  qed
qed

theorem truncation_detected_witness:
  "(\<exists>e. ReadMessage consensus_constructors
      (take 20 (WriteMessage GetType consensus_Serialize (PrepareRequest 3 zero_B16))) = Inl e) \<and>
   (\<exists>e. ReadMessage cluster_constructors
      (take 20 (WriteMessage cluster_GetType cluster_Serialize (ConnectionRequest ex_peer))) = Inl e)"
  using truncation_detected [of "PrepareRequest 3 zero_B16" 20 "ConnectionRequest ex_peer"]
  by (simp add: WriteMessage_def PrepareRequest_Serialize_def uuid.len peer_data.len PeerData_ok_def
      PeerData_NumBytes_def NumSliceBytes_def ex_peer_def fits32_def UUID_NUM_BYTES_def NumStringBytes_def)

text \<open>
  The exception: a connection that breaks inside an acceptance leaves a node that is known
  by its identifier only, without a token.
\<close>

theorem truncated_acceptance:
  assumes "cluster_ok (ConnectionAccepted a)" and "20 \<le> k"
    and "k < length (WriteMessage cluster_GetType cluster_Serialize (ConnectionAccepted a))"
  shows "\<exists>a'. ReadMessage cluster_constructors
      (take k (WriteMessage cluster_GetType cluster_Serialize (ConnectionAccepted a))) = Inr (ConnectionAccepted a', []) \<and>
    ca_NodeId a' = ca_NodeId a \<and> ca_Token a' = []"
  using assms cut_accepted_message(1) by blast

end
