(* ===== verification/Pool.thy ===== *)
theory Pool
  imports Prelude
begin

text \<open>
  Connections and the connection pool of a remote node (\<^verbatim>\<open>cluster/connection.go\<close>).  The
  pool is a linked list of holders with a pointer to its head and one to its tail.  The
  holders live in a store, and the pool refines a bounded first-in first-out queue.
\<close>

section \<open>Connections\<close>

text \<open>
  \<open>socket\<close> names the socket of the connection.  \<open>dial\<close> is the dialling of the network library:
  the socket for an address, or an error.
\<close>

record Connection =
  socket :: nat
  conn_timeout :: "64 word"
  isClosed :: bool
  completedHandshake :: bool

type_synonym dial = "string \<Rightarrow> 64 word \<Rightarrow> error + nat"

definition Connect :: "dial \<Rightarrow> string \<Rightarrow> 64 word \<Rightarrow> error + Connection" where
  "Connect dial addr timeout =
     (case dial addr timeout of
        Inl err \<Rightarrow> Inl err
      | Inr s \<Rightarrow> Inr \<lparr>socket = s, conn_timeout = timeout, isClosed = False, completedHandshake = False\<rparr>)"

text \<open>Reads and writes pass the result of the socket on, and mark the connection after an error.\<close>

definition Connection_Read :: "Connection \<Rightarrow> error + 'a \<Rightarrow> Connection \<times> (error + 'a)" where
  "Connection_Read c r = (case r of Inl _ \<Rightarrow> (c\<lparr>isClosed := True\<rparr>, r) | Inr _ \<Rightarrow> (c, r))"

definition Connection_Write :: "Connection \<Rightarrow> error option \<Rightarrow> Connection \<times> error option" where
  "Connection_Write c r = (case r of Some _ \<Rightarrow> (c\<lparr>isClosed := True\<rparr>, r) | None \<Rightarrow> (c, r))"

definition Connection_Close :: "Connection \<Rightarrow> Connection" where
  "Connection_Close c = c\<lparr>isClosed := True\<rparr>"

definition Closed :: "Connection \<Rightarrow> bool" where
  "Closed c = isClosed c"

definition HandshakeCompleted :: "Connection \<Rightarrow> bool" where
  "HandshakeCompleted c = completedHandshake c"

definition SetHandshakeCompleted :: "Connection \<Rightarrow> Connection" where
  "SetHandshakeCompleted c = c\<lparr>completedHandshake := True\<rparr>"

section \<open>The pool\<close>

text \<open>A pointer to a holder is its index in the store; new holders are put at the end.\<close>

record connHolder =
  h_conn :: Connection
  h_next :: "nat option"

record ConnectionPool =
  cp_addr :: string
  cp_size :: "64 word"
  cp_timeout :: "64 word"
  cp_maxConn :: "64 word"
  cp_pool :: "nat option"
  cp_tail :: "nat option"
  cp_heap :: "connHolder list"

definition NewConnectionPool :: "string \<Rightarrow> 64 word \<Rightarrow> 64 word \<Rightarrow> ConnectionPool" where
  "NewConnectionPool addr maxConn timeout =
     (let maxConn = (if maxConn = 0 then 10 else maxConn);
          timeout = (if sint timeout \<le> 0 then 10000 else timeout)
      in \<lparr>cp_addr = addr, cp_size = 0, cp_timeout = timeout, cp_maxConn = maxConn,
          cp_pool = None, cp_tail = None, cp_heap = []\<rparr>)"

text \<open>\<^verbatim>\<open>Put\<close> returns the pool and the connection, which it closes when the pool is full.\<close>

definition Put :: "ConnectionPool \<Rightarrow> Connection \<Rightarrow> (ConnectionPool \<times> Connection) outcome" where
  "Put cp conn =
     (if isClosed conn then Ret (cp, conn)
      else if cp_size cp < cp_maxConn cp then
        let holder = length (cp_heap cp);
            heap = cp_heap cp @ [\<lparr>h_conn = conn, h_next = None\<rparr>]
        in case cp_pool cp of
             None \<Rightarrow>
               Ret (cp\<lparr>cp_heap := heap, cp_pool := Some holder, cp_tail := Some holder,
                       cp_size := cp_size cp + 1\<rparr>, conn)
           | Some _ \<Rightarrow>
               (case cp_tail cp of
                  None \<Rightarrow> Panic ''nil pointer dereference''
                | Some t \<Rightarrow>
                    Ret (cp\<lparr>cp_heap := heap[t := (heap ! t)\<lparr>h_next := Some holder\<rparr>],
                            cp_tail := Some holder, cp_size := cp_size cp + 1\<rparr>, conn))
      else Ret (cp, Connection_Close conn))"

definition Get :: "dial \<Rightarrow> ConnectionPool \<Rightarrow> ConnectionPool \<times> (error + Connection)" where
  "Get dial cp =
     (case cp_pool cp of
        None \<Rightarrow> (cp, Connect dial (cp_addr cp) 1)
      | Some p \<Rightarrow>
          let conn = h_conn (cp_heap cp ! p);
              cp = cp\<lparr>cp_pool := h_next (cp_heap cp ! p), cp_size := cp_size cp - 1\<rparr>;
              cp = (if cp_pool cp = None then cp\<lparr>cp_tail := None\<rparr> else cp)
          in (cp, Inr conn))"

section \<open>The queue that a pool represents\<close>

text \<open>\<open>linked h p ps\<close>: following the pointers from \<open>p\<close> visits the holders \<open>ps\<close> and ends.\<close>

fun linked :: "connHolder list \<Rightarrow> nat option \<Rightarrow> nat list \<Rightarrow> bool" where
  "linked h p [] \<longleftrightarrow> p = None"
| "linked h p (q # qs) \<longleftrightarrow> p = Some q \<and> q < length h \<and> linked h (h_next (h ! q)) qs"

definition pool_rep :: "ConnectionPool \<Rightarrow> nat list \<Rightarrow> bool" where
  "pool_rep cp ps \<longleftrightarrow>
     linked (cp_heap cp) (cp_pool cp) ps \<and> distinct ps \<and>
     cp_tail cp = (if ps = [] then None else Some (last ps)) \<and>
     cp_size cp = of_nat (length ps) \<and> length ps \<le> unat (cp_maxConn cp)"

definition represents :: "ConnectionPool \<Rightarrow> Connection list \<Rightarrow> bool" where
  "represents cp q \<longleftrightarrow> (\<exists>ps. pool_rep cp ps \<and> q = map (\<lambda>p. h_conn (cp_heap cp ! p)) ps)"

text \<open>The specification: a queue of at most \<open>n\<close> open connections.\<close>

definition q_put :: "nat \<Rightarrow> Connection list \<Rightarrow> Connection \<Rightarrow> Connection list \<times> Connection" where
  "q_put n q conn =
     (if isClosed conn then (q, conn)
      else if length q < n then (q @ [conn], conn)
      else (q, conn\<lparr>isClosed := True\<rparr>))"

definition q_get :: "(error + Connection) \<Rightarrow> Connection list \<Rightarrow> Connection list \<times> (error + Connection)" where
  "q_get fresh q = (case q of [] \<Rightarrow> ([], fresh) | conn # q \<Rightarrow> (q, Inr conn))"

lemma linked_bound: "linked h p ps \<Longrightarrow> q \<in> set ps \<Longrightarrow> q < length h"
  by (induction ps arbitrary: p) auto

lemma linked_append: "linked h p ps \<Longrightarrow> linked (h @ x) p ps"
  by (induction ps arbitrary: p) (auto simp: nth_append)

lemma linked_update: "linked h p ps \<Longrightarrow> q \<notin> set ps \<Longrightarrow> linked (h[q := x]) p ps"
  by (induction ps arbitrary: p) auto

lemma linked_snoc:
  assumes "linked h p ps" and "ps \<noteq> []" and "distinct ps"
  shows "linked ((h @ [\<lparr>h_conn = conn, h_next = None\<rparr>])
      [last ps := ((h @ [\<lparr>h_conn = conn, h_next = None\<rparr>]) ! last ps)\<lparr>h_next := Some (length h)\<rparr>])
    p (ps @ [length h])"
  using assms
proof (induction ps arbitrary: p)
  case (Cons q qs)
  show ?case
  proof (cases "qs = []")
    case True
    with Cons.prems show ?thesis by (simp add: nth_append)
  next
    case False
    with Cons.prems have "q \<noteq> last qs" using last_in_set by auto
    with Cons.prems False Cons.IH [of "h_next (h ! q)"] show ?thesis by (simp add: nth_append)
  qed
qed simp

lemma pool_rep_size: "pool_rep cp ps \<Longrightarrow> unat (cp_size cp) = length ps"
  using unsigned_less [of "cp_maxConn cp", where 'a = nat] by (simp add: pool_rep_def unat_of_nat)

lemma pool_rep_room:
  "pool_rep cp ps \<Longrightarrow> cp_size cp < cp_maxConn cp \<longleftrightarrow> length ps < unat (cp_maxConn cp)"
  by (simp add: word_less_nat_alt pool_rep_size)

lemma pool_rep_Nil: "pool_rep cp [] \<Longrightarrow> cp_pool cp = None"
  by (simp add: pool_rep_def)

text \<open>A holder is appended to an empty pool, and to one that is not empty.\<close>

lemma pool_rep_put_first:
  assumes "pool_rep cp []" and "0 < unat (cp_maxConn cp)"
  shows "pool_rep (cp\<lparr>cp_heap := cp_heap cp @ [\<lparr>h_conn = conn, h_next = None\<rparr>],
    cp_pool := Some (length (cp_heap cp)), cp_tail := Some (length (cp_heap cp)),
    cp_size := cp_size cp + 1\<rparr>) [length (cp_heap cp)]"
  using assms by (simp add: pool_rep_def Suc_le_eq)

lemma pool_rep_put_next:
  assumes "pool_rep cp ps" and "ps \<noteq> []" and "length ps < unat (cp_maxConn cp)"
  shows "pool_rep (cp\<lparr>cp_heap := (cp_heap cp @ [\<lparr>h_conn = conn, h_next = None\<rparr>])
      [last ps := ((cp_heap cp @ [\<lparr>h_conn = conn, h_next = None\<rparr>]) ! last ps)
        \<lparr>h_next := Some (length (cp_heap cp))\<rparr>],
    cp_tail := Some (length (cp_heap cp)), cp_size := cp_size cp + 1\<rparr>) (ps @ [length (cp_heap cp)])"
  using assms linked_bound by (force simp: pool_rep_def linked_snoc)

lemma holder_conns:
  assumes "linked h p ps" and "t \<in> set ps"
  shows "map (\<lambda>p. h_conn ((h @ [\<lparr>h_conn = conn, h_next = None\<rparr>])
      [t := ((h @ [\<lparr>h_conn = conn, h_next = None\<rparr>]) ! t)\<lparr>h_next := n\<rparr>] ! p)) (ps @ [length h]) =
    map (\<lambda>p. h_conn (h ! p)) ps @ [conn]"
  using linked_bound [OF assms(1)] linked_bound [OF assms]
  by (auto simp: nth_append nth_list_update)

lemma Put_refines:
  assumes "represents cp q"
  shows "\<exists>cp' q' conn'. Put cp conn = Ret (cp', conn') \<and> q_put (unat (cp_maxConn cp)) q conn = (q', conn') \<and>
    represents cp' q' \<and> cp_maxConn cp' = cp_maxConn cp \<and> cp_addr cp' = cp_addr cp"
proof -
  from assms obtain ps where ps: "pool_rep cp ps" and q: "q = map (\<lambda>p. h_conn (cp_heap cp ! p)) ps"
    by (auto simp: represents_def)
  consider "isClosed conn \<or> \<not> length ps < unat (cp_maxConn cp)"
    | "\<not> isClosed conn" "length ps < unat (cp_maxConn cp)" "ps = []"
    | "\<not> isClosed conn" "length ps < unat (cp_maxConn cp)" "ps \<noteq> []" by blast
  then show ?thesis
  proof cases
    case 1
    with assms q show ?thesis
      by (auto simp: Put_def q_put_def pool_rep_room [OF ps] Connection_Close_def)
  next
    case 2
    with ps q pool_rep_put_first [of cp conn] show ?thesis
      by (auto simp: Put_def q_put_def pool_rep_room [OF ps] Let_def pool_rep_Nil represents_def
          intro!: exI [of _ "[length (cp_heap cp)]"])
  next
    case 3
    then have ends: "cp_tail cp = Some (last ps)" "cp_pool cp \<noteq> None" "linked (cp_heap cp) (cp_pool cp) ps"
      using ps by (cases ps; auto simp: pool_rep_def)+
    with 3 q pool_rep_put_next [OF ps 3(3,2), of conn] holder_conns [OF ends(3), of "last ps" conn]
    show ?thesis
      by (auto simp: Put_def q_put_def pool_rep_room [OF ps] Let_def represents_def
          intro!: exI [of _ "ps @ [length (cp_heap cp)]"])
  qed
qed

lemma Get_refines:
  assumes "represents cp q" and "Get dial cp = (cp', r)"
  shows "\<exists>q'. q_get (Connect dial (cp_addr cp) 1) q = (q', r) \<and> represents cp' q' \<and>
    cp_maxConn cp' = cp_maxConn cp \<and> cp_addr cp' = cp_addr cp"
proof -
  from assms(1) obtain ps where ps: "pool_rep cp ps" and q: "q = map (\<lambda>p. h_conn (cp_heap cp ! p)) ps"
    by (auto simp: represents_def)
  show ?thesis
  proof (cases ps)
    case Nil
    with ps q assms show ?thesis by (auto simp: Get_def q_get_def pool_rep_Nil)
  next
    case (Cons p rest)
    let ?cp = "cp\<lparr>cp_pool := h_next (cp_heap cp ! p), cp_size := cp_size cp - 1\<rparr>"
    let ?cp' = "if cp_pool ?cp = None then ?cp\<lparr>cp_tail := None\<rparr> else ?cp"
    have "cp_pool ?cp = None \<longleftrightarrow> rest = []"
      using ps Cons by (cases rest) (auto simp: pool_rep_def)
    then have "pool_rep ?cp' rest"
      using ps Cons by (auto simp: pool_rep_def)
    moreover have "cp' = ?cp'" "r = Inr (h_conn (cp_heap cp ! p))"
      using ps Cons assms(2) by (auto simp: Get_def pool_rep_def Let_def)
    ultimately show ?thesis
      using q Cons by (auto simp: q_get_def represents_def intro!: exI [of _ rest])
  qed
qed

section \<open>The interface of a pool\<close>

text \<open>
  What the users of a pool rely on: it behaves like the bounded queue.  Sequences of calls
  then give the results that the queue gives.
\<close>

datatype pool_op = PutOp Connection | GetOp dial

fun run_ops ::
    "('p \<Rightarrow> Connection \<Rightarrow> ('p \<times> Connection) outcome) \<Rightarrow> (dial \<Rightarrow> 'p \<Rightarrow> 'p \<times> (error + Connection)) \<Rightarrow>
     'p \<Rightarrow> pool_op list \<Rightarrow> ('p \<times> (error + Connection) list) outcome" where
  "run_ops put get p [] = Ret (p, [])"
| "run_ops put get p (PutOp conn # ops) =
     obind (put p conn) (\<lambda>(p, conn). obind (run_ops put get p ops) (\<lambda>(p, rs). Ret (p, Inr conn # rs)))"
| "run_ops put get p (GetOp dial # ops) =
     (case get dial p of
        (p, r) \<Rightarrow> obind (run_ops put get p ops) (\<lambda>(p, rs). Ret (p, r # rs)))"

fun run_queue :: "string \<Rightarrow> nat \<Rightarrow> Connection list \<Rightarrow> pool_op list \<Rightarrow> Connection list \<times> (error + Connection) list" where
  "run_queue addr n q [] = (q, [])"
| "run_queue addr n q (PutOp conn # ops) =
     (case q_put n q conn of (q, conn) \<Rightarrow>
      case run_queue addr n q ops of (q, rs) \<Rightarrow> (q, Inr conn # rs))"
| "run_queue addr n q (GetOp dial # ops) =
     (case q_get (Connect dial addr 1) q of (q, r) \<Rightarrow>
      case run_queue addr n q ops of (q, rs) \<Rightarrow> (q, r # rs))"

locale conn_pool =
  fixes rep :: "'p \<Rightarrow> Connection list \<Rightarrow> bool"
    and put :: "'p \<Rightarrow> Connection \<Rightarrow> ('p \<times> Connection) outcome"
    and get :: "dial \<Rightarrow> 'p \<Rightarrow> 'p \<times> (error + Connection)"
    and cap :: "'p \<Rightarrow> nat"
    and addr :: "'p \<Rightarrow> string"
  assumes put: "rep p q \<Longrightarrow> \<exists>p' q' conn'. put p conn = Ret (p', conn') \<and>
      q_put (cap p) q conn = (q', conn') \<and> rep p' q' \<and> cap p' = cap p \<and> addr p' = addr p"
    and get: "rep p q \<Longrightarrow> get dial p = (p', r) \<Longrightarrow>
      \<exists>q'. q_get (Connect dial (addr p) 1) q = (q', r) \<and> rep p' q' \<and> cap p' = cap p \<and> addr p' = addr p"
begin

lemma run_refines:
  assumes "rep p q"
  shows "\<exists>p' q' rs. run_ops put get p ops = Ret (p', rs) \<and> run_queue (addr p) (cap p) q ops = (q', rs) \<and>
    rep p' q' \<and> cap p' = cap p \<and> addr p' = addr p"
  using assms
proof (induction ops arbitrary: p q)
  case (Cons oper ops)
  show ?case
  proof (cases oper)
    case (PutOp conn)
    from put [OF Cons.prems] obtain p1 q1 conn1 where 1: "put p conn = Ret (p1, conn1)"
      "q_put (cap p) q conn = (q1, conn1)" "rep p1 q1" "cap p1 = cap p" "addr p1 = addr p" by metis
    from Cons.IH [OF 1(3)] show ?thesis using 1 PutOp by auto
  next
    case (GetOp dial)
    obtain p1 r where g: "get dial p = (p1, r)" by fastforce
    from get [OF Cons.prems g] obtain q1 where 1: "q_get (Connect dial (addr p) 1) q = (q1, r)" "rep p1 q1"
      "cap p1 = cap p" "addr p1 = addr p" by blast
    from Cons.IH [OF 1(2)] show ?thesis using 1 g GetOp by auto
  qed
qed simp

lemma put_total: "rep p q \<Longrightarrow> \<exists>p' q' conn'. put p conn = Ret (p', conn') \<and> rep p' q'"
  using put by blast

end

interpretation pool: conn_pool represents Put Get "\<lambda>cp. unat (cp_maxConn cp)" cp_addr
proof
  show "\<exists>p' q' conn'. Put p conn = Ret (p', conn') \<and> q_put (unat (cp_maxConn p)) q conn = (q', conn') \<and>
      represents p' q' \<and> unat (cp_maxConn p') = unat (cp_maxConn p) \<and> cp_addr p' = cp_addr p"
    if "represents p q" for p q conn
    using Put_refines [OF that, of conn] by metis
  show "\<exists>q'. q_get (Connect dial (cp_addr p) 1) q = (q', r) \<and> represents p' q' \<and>
      unat (cp_maxConn p') = unat (cp_maxConn p) \<and> cp_addr p' = cp_addr p"
    if "represents p q" "Get dial p = (p', r)" for p q dial p' r
    using Get_refines [OF that] by metis
qed

lemma represents_New: "represents (NewConnectionPool addr maxConn timeout) []"
  by (simp add: represents_def pool_rep_def NewConnectionPool_def Let_def)

section \<open>Properties\<close>

text \<open>
  C36: the connection pool is a bounded first-in first-out queue.  For every sequence of calls
  on a new pool, no pointer is followed that is nil, and the calls return what they return on
  a queue that holds at most \<^verbatim>\<open>maxConn\<close> open connections (10 if none is given): connections
  come out in the order they were put in, a connection that does not fit is closed, and
  a new connection is opened exactly when the queue is empty.
\<close>

theorem pool_is_queue:
  "\<exists>cp q rs. run_ops Put Get (NewConnectionPool addr maxConn timeout) ops = Ret (cp, rs) \<and>
     run_queue addr (if maxConn = 0 then 10 else unat maxConn) [] ops = (q, rs) \<and>
     represents cp q \<and> unat (cp_size cp) = length q"
proof -
  let ?cp = "NewConnectionPool addr maxConn timeout"
  from pool.run_refines [OF represents_New [of addr maxConn timeout], of ops] obtain cp q rs where
    run: "run_ops Put Get ?cp ops = Ret (cp, rs)"
    "run_queue (cp_addr ?cp) (unat (cp_maxConn ?cp)) [] ops = (q, rs)" "represents cp q" by blast
  moreover have "unat (cp_size cp) = length q"
    using run(3) by (auto simp: represents_def pool_rep_size)
  ultimately show ?thesis
    by (auto simp: NewConnectionPool_def Let_def)
qed

end
