(* ===== verification/Cluster.thy ===== *)
theory Cluster
  imports Truncation Pool KVStore "HOL-Library.Signed_Division"
begin

text \<open>
  The cluster (\<^verbatim>\<open>cluster/cluster.go\<close>, \<^verbatim>\<open>cluster/node.go\<close>, \<^verbatim>\<open>cluster/server.go\<close>): the nodes
  that a cluster knows, the handshake and the requests over their connections, discovery of
  peers at start, streaming of keys, and the server that answers other nodes.

  The network is an argument: a record of operations on a state of its own, which every
  call threads through.  Messages cross it as bytes, in the wire form of their codec.
\<close>

section \<open>The network\<close>

text \<open>
  \<open>net_read\<close> gives the bytes that arrive on a socket for the next message; when the connection
  ends early they are cut off.  Closing a socket shows on the network only in what later reads
  and writes give.
\<close>

record 'w Net =
  net_dial :: "'w \<Rightarrow> string \<Rightarrow> 64 word \<Rightarrow> 'w \<times> (error + nat)"
  net_write :: "'w \<Rightarrow> nat \<Rightarrow> bytes \<Rightarrow> 'w \<times> error option"
  net_read :: "'w \<Rightarrow> nat \<Rightarrow> 'w \<times> bytes"

section \<open>The state of a cluster\<close>

definition CLUSTER_INITIALIZING :: string where "CLUSTER_INITIALIZING = ''''"
definition CLUSTER_NORMAL :: string where "CLUSTER_NORMAL = ''NORMAL''"
definition CLUSTER_STREAMING :: string where "CLUSTER_STREAMING = ''STREAMING''"

text \<open>
  A node is a pointer: \<open>0\<close> for the local node, \<open>Suc k\<close> for the \<open>k\<close>-th remote node that was created.
  What \<^verbatim>\<open>baseNode\<close> holds is the record \<open>Node\<close>; the pool and the flag of a remote node are
  kept in the cluster, by its number.
\<close>

record RemoteNode =
  rn_pool :: ConnectionPool
  rn_isStarted :: bool

record Cluster =
  c_store :: KVStore
  c_seeds :: "string list"
  c_replicationFactor :: "32 word"
  c_topology :: Topology
  c_name :: string
  c_token :: bytes
  c_nodeId :: NodeId
  c_dcId :: DatacenterID
  c_peerAddr :: string
  c_status :: string
  c_isRunning :: bool
  c_listening :: bool
  c_localStarted :: bool
  c_remotes :: "RemoteNode list"
  c_streams :: "Node list"

text \<open>
  A call on a cluster changes the network and the cluster and returns, fails or panics.
  \<open>c_streams\<close> lists the goroutines that stream to another node.
\<close>

type_synonym ('w, 'a) cproc = "'w \<times> Cluster \<Rightarrow> ('w \<times> Cluster) \<times> 'a outcome"

definition creturn :: "'a \<Rightarrow> ('w, 'a) cproc" where
  "creturn a s = (s, Ret a)"

definition cfail :: "error \<Rightarrow> ('w, 'a) cproc" where
  "cfail e s = (s, Err e)"

definition cpanic :: "string \<Rightarrow> ('w, 'a) cproc" where
  "cpanic p s = (s, Panic p)"

definition cbind :: "('w, 'a) cproc \<Rightarrow> ('a \<Rightarrow> ('w, 'b) cproc) \<Rightarrow> ('w, 'b) cproc" where
  "cbind p f s =
     (case p s of (s, Ret a) \<Rightarrow> f a s | (s, Err e) \<Rightarrow> (s, Err e) | (s, Panic x) \<Rightarrow> (s, Panic x))"

definition ccatch :: "('w, 'a) cproc \<Rightarrow> (error \<Rightarrow> ('w, 'a) cproc) \<Rightarrow> ('w, 'a) cproc" where
  "ccatch p h s = (case p s of (s, Err e) \<Rightarrow> h e s | r \<Rightarrow> r)"

definition cget :: "(Cluster \<Rightarrow> 'a) \<Rightarrow> ('w, 'a) cproc" where
  "cget f s = (s, Ret (f (snd s)))"

definition cmod :: "(Cluster \<Rightarrow> Cluster) \<Rightarrow> ('w, unit) cproc" where
  "cmod f s = ((fst s, f (snd s)), Ret ())"

definition cout :: "'a outcome \<Rightarrow> ('w, 'a) cproc" where
  "cout r s = (s, r)"

definition GetNodeId :: "Cluster \<Rightarrow> NodeId" where "GetNodeId c = c_nodeId c"
definition GetDatacenterId :: "Cluster \<Rightarrow> DatacenterID" where "GetDatacenterId c = c_dcId c"
definition Cluster_GetToken :: "Cluster \<Rightarrow> bytes" where "Cluster_GetToken c = c_token c"
definition GetName :: "Cluster \<Rightarrow> string" where "GetName c = c_name c"
definition GetPeerAddr :: "Cluster \<Rightarrow> string" where "GetPeerAddr c = c_peerAddr c"

section \<open>Nodes\<close>

text \<open>The fields of a node are written wherever the topology holds the pointer.\<close>

definition subst_node :: "Node \<Rightarrow> Node \<Rightarrow> Node" where
  "subst_node n x = (if node_ref x = node_ref n then n else x)"

definition ring_put :: "Node \<Rightarrow> Ring \<Rightarrow> Ring" where
  "ring_put n r =
     r\<lparr>nodeMap := map (\<lambda>(k, x). (k, subst_node n x)) (nodeMap r),
       tokenRing := map (subst_node n) (tokenRing r), priorRing := map (subst_node n) (priorRing r)\<rparr>"

definition put_node :: "Node \<Rightarrow> Cluster \<Rightarrow> Cluster" where
  "put_node n c =
     c\<lparr>c_topology := (c_topology c)
        \<lparr>rings := map (\<lambda>(dc, r). (dc, ring_put n r)) (rings (c_topology c)),
         top_nodes := (\<lambda>k. map_option (subst_node n) (top_nodes (c_topology c) k))\<rparr>\<rparr>"

text \<open>What the pointer of a node refers to now, if the topology holds it.\<close>

definition deref :: "Cluster \<Rightarrow> Node \<Rightarrow> Node" where
  "deref c n =
     (case List.find (\<lambda>x. node_ref x = node_ref n) (Topology_AllNodes (c_topology c)) of
        None \<Rightarrow> n | Some x \<Rightarrow> x)"

definition cput :: "Node \<Rightarrow> ('w, Node) cproc" where
  "cput n = cbind (cmod (put_node n)) (\<lambda>_. creturn n)"

definition remote :: "Cluster \<Rightarrow> Node \<Rightarrow> RemoteNode" where
  "remote c n = c_remotes c ! (node_ref n - 1)"

definition put_remote :: "Node \<Rightarrow> RemoteNode \<Rightarrow> Cluster \<Rightarrow> Cluster" where
  "put_remote n rn c = c\<lparr>c_remotes := (c_remotes c)[node_ref n - 1 := rn]\<rparr>"

text \<open>\<^verbatim>\<open>v.(*RemoteNode)\<close>\<close>

definition is_remote :: "Node \<Rightarrow> bool" where
  "is_remote n \<longleftrightarrow> node_ref n \<noteq> 0"

definition NewLocalNode :: "NodeId \<Rightarrow> DatacenterID \<Rightarrow> bytes \<Rightarrow> string \<Rightarrow> Node" where
  "NewLocalNode nid dcId token name =
     \<lparr>node_name = name, node_addr = '''', node_token = token, node_id = nid, node_dcId = dcId,
      node_status = NODE_UP, node_ref = 0\<rparr>"

definition NewRemoteNode :: "string \<Rightarrow> ('w, Node) cproc" where
  "NewRemoteNode addr =
     cbind (cget (\<lambda>c. Suc (length (c_remotes c)))) (\<lambda>ref.
     cbind (cmod (\<lambda>c. c\<lparr>c_remotes := c_remotes c @
       [\<lparr>rn_pool = NewConnectionPool addr 10 10000, rn_isStarted = False\<rparr>]\<rparr>)) (\<lambda>_.
     creturn \<lparr>node_name = '''', node_addr = addr, node_token = [], node_id = zero_B16, node_dcId = '''',
       node_status = NODE_INITIALIZING, node_ref = ref\<rparr>))"

definition NewRemoteNodeInfo ::
    "NodeId \<Rightarrow> DatacenterID \<Rightarrow> bytes \<Rightarrow> string \<Rightarrow> string \<Rightarrow> ('w, Node) cproc" where
  "NewRemoteNodeInfo nid dcId token name addr =
     cbind (NewRemoteNode addr) (\<lambda>n.
     creturn (n\<lparr>node_id := nid, node_dcId := dcId, node_token := token, node_name := name\<rparr>))"

text \<open>Taking a connection from the pool of a node, and giving it back.\<close>

definition pool_get :: "'w Net \<Rightarrow> Node \<Rightarrow> ('w, Connection) cproc" where
  "pool_get N n = (\<lambda>(w, c).
     let cp = rn_pool (remote c n);
         w' = (if cp_pool cp = None then fst (net_dial N w (cp_addr cp) 1) else w)
     in case Get (\<lambda>addr timeout. snd (net_dial N w addr timeout)) cp of
          (cp, r) \<Rightarrow>
            ((w', put_remote n ((remote c n)\<lparr>rn_pool := cp\<rparr>) c),
             case r of Inl err \<Rightarrow> Err err | Inr conn \<Rightarrow> Ret conn))"

definition pool_put :: "Node \<Rightarrow> Connection \<Rightarrow> ('w, unit) cproc" where
  "pool_put n conn = (\<lambda>(w, c).
     case Put (rn_pool (remote c n)) conn of
       Ret (cp, _) \<Rightarrow> ((w, put_remote n ((remote c n)\<lparr>rn_pool := cp\<rparr>) c), Ret ())
     | Err e \<Rightarrow> ((w, c), Err e)
     | Panic p \<Rightarrow> ((w, c), Panic p))"

text \<open>\<^verbatim>\<open>message.WriteMessage(conn, m)\<close> and \<^verbatim>\<open>message.ReadMessage(conn)\<close>\<close>

definition write_message :: "'w Net \<Rightarrow> nat \<Rightarrow> cluster_msg \<Rightarrow> ('w, unit) cproc" where
  "write_message N sock m = (\<lambda>(w, c).
     case net_write N w sock (WriteMessage cluster_GetType cluster_Serialize m) of
       (w, None) \<Rightarrow> ((w, c), Ret ())
     | (w, Some err) \<Rightarrow> ((w, c), Err err))"

definition read_message :: "'w Net \<Rightarrow> nat \<Rightarrow> ('w, cluster_msg) cproc" where
  "read_message N sock = (\<lambda>(w, c).
     case net_read N w sock of
       (w, bs) \<Rightarrow>
         ((w, c), case ReadMessage cluster_constructors bs of Inl err \<Rightarrow> Err err | Inr (m, _) \<Rightarrow> Ret m))"

definition node_down :: "Node \<Rightarrow> error \<Rightarrow> ('w, 'a) cproc" where
  "node_down n err = cbind (cput (n\<lparr>node_status := NODE_DOWN\<rparr>)) (\<lambda>_. cfail err)"

definition connection_request :: "Cluster \<Rightarrow> cluster_msg" where
  "connection_request c =
     ConnectionRequest \<lparr>pd_NodeId = GetNodeId c, pd_DCId = GetDatacenterId c, pd_Addr = GetPeerAddr c,
       pd_Name = GetName c, pd_Token = Cluster_GetToken c\<rparr>"

definition copy_accept :: "Node \<Rightarrow> ConnectionAcceptedResponse \<Rightarrow> Node" where
  "copy_accept n acc =
     (if node_status n = NODE_INITIALIZING
      then n\<lparr>node_id := ca_NodeId acc, node_dcId := ca_DCId acc, node_name := ca_Name acc,
             node_token := ca_Token acc\<rparr>
      else n)"

definition handshake :: "'w Net \<Rightarrow> Node \<Rightarrow> Connection \<Rightarrow> ('w, Node \<times> Connection) cproc" where
  "handshake N n conn =
     cbind (ccatch
       (cbind (cget connection_request) (\<lambda>msg.
        cbind (write_message N (socket conn) msg) (\<lambda>_.
        cbind (read_message N (socket conn)) (\<lambda>response.
          case response of
            ConnectionAccepted acc \<Rightarrow> creturn acc
          | _ \<Rightarrow> cfail (Errorf ''Unexpected response type, expected *ConnectionAcceptedResponse, got %T'')))))
       (node_down n)) (\<lambda>acc.
     cbind (cput (copy_accept n acc)) (\<lambda>n. creturn (n, SetHandshakeCompleted conn)))"

definition getConnection :: "'w Net \<Rightarrow> Node \<Rightarrow> ('w, Node \<times> Connection) cproc" where
  "getConnection N n =
     cbind (pool_get N n) (\<lambda>conn.
       if \<not> HandshakeCompleted conn then handshake N n conn else creturn (n, conn))"

definition RemoteNode_Start :: "'w Net \<Rightarrow> Node \<Rightarrow> ('w, Node) cproc" where
  "RemoteNode_Start N n =
     cbind (getConnection N n) (\<lambda>(n, conn).
     cbind (pool_put n conn) (\<lambda>_.
     cbind (cput (n\<lparr>node_status := NODE_UP\<rparr>)) (\<lambda>n.
     cbind (cmod (\<lambda>c. put_remote n ((remote c n)\<lparr>rn_isStarted := True\<rparr>) c)) (\<lambda>_.
     creturn n))))"

definition RemoteNode_Stop :: "Node \<Rightarrow> ('w, unit) cproc" where
  "RemoteNode_Stop n = cmod (\<lambda>c. put_remote n ((remote c n)\<lparr>rn_isStarted := False\<rparr>) c)"

text \<open>The connection is closed, and does not go back to the pool, when sending or receiving fails.\<close>

definition RemoteNode_SendMessage :: "'w Net \<Rightarrow> Node \<Rightarrow> cluster_msg \<Rightarrow> ('w, Node \<times> cluster_msg) cproc" where
  "RemoteNode_SendMessage N n m =
     cbind (ccatch (getConnection N n) (node_down n)) (\<lambda>(n, conn).
     cbind (ccatch
       (cbind (write_message N (socket conn) m) (\<lambda>_. read_message N (socket conn)))
       (node_down n)) (\<lambda>response.
     cbind (cput (n\<lparr>node_status := NODE_UP\<rparr>)) (\<lambda>n.
     cbind (pool_put n conn) (\<lambda>_.
     creturn (n, response)))))"

definition LocalNode_Start :: "Node \<Rightarrow> ('w, Node) cproc" where
  "LocalNode_Start n = cbind (cmod (\<lambda>c. c\<lparr>c_localStarted := True\<rparr>)) (\<lambda>_. creturn n)"

definition LocalNode_Stop :: "('w, unit) cproc" where
  "LocalNode_Stop = cmod (\<lambda>c. c\<lparr>c_localStarted := False\<rparr>)"

definition LocalNode_SendMessage :: "Node \<Rightarrow> cluster_msg \<Rightarrow> ('w, Node \<times> cluster_msg) cproc" where
  "LocalNode_SendMessage n m = cpanic ''can't send messages to local nodes''"

text \<open>The methods of the interface \<^verbatim>\<open>topology.Node\<close>.\<close>

definition IsStarted :: "Cluster \<Rightarrow> Node \<Rightarrow> bool" where
  "IsStarted c n = (if is_remote n then rn_isStarted (remote c n) else c_localStarted c)"

definition Node_Start :: "'w Net \<Rightarrow> Node \<Rightarrow> ('w, Node) cproc" where
  "Node_Start N n = (if is_remote n then RemoteNode_Start N n else LocalNode_Start n)"

definition Node_Stop :: "Node \<Rightarrow> ('w, unit) cproc" where
  "Node_Stop n = (if is_remote n then RemoteNode_Stop n else LocalNode_Stop)"

section \<open>Creating a cluster and adding nodes\<close>

definition NewCluster ::
    "KVStore \<Rightarrow> string \<Rightarrow> string \<Rightarrow> bytes \<Rightarrow> NodeId \<Rightarrow> DatacenterID \<Rightarrow> 32 word \<Rightarrow> (string \<Rightarrow> bytes) option \<Rightarrow>
     string list \<Rightarrow> error + Cluster" where
  "NewCluster store addr name token nodeId dcId rf prtnr seeds =
     (if rf < 1 then Inl (Errorf ''Invalid replication factor: %v'')
      else case prtnr of
        None \<Rightarrow> Inl (Errorf ''partitioner cannot be nil'')
      | Some p \<Rightarrow>
          Inr \<lparr>c_store = store, c_seeds = seeds, c_replicationFactor = rf,
            c_topology = fst (Topology_AddNode (NewTopology nodeId dcId p (ucast rf))
              (NewLocalNode nodeId dcId token name)),
            c_name = name, c_token = token, c_nodeId = nodeId, c_dcId = dcId, c_peerAddr = addr,
            c_status = CLUSTER_INITIALIZING, c_isRunning = False, c_listening = False, c_localStarted = False,
            c_remotes = [], c_streams = []\<rparr>)"

definition addNode :: "'w Net \<Rightarrow> Node \<Rightarrow> ('w, Node) cproc" where
  "addNode N n =
     cbind (cget (\<lambda>c. Topology_AddNode (c_topology c) n)) (\<lambda>(t, err).
     cbind (cmod (\<lambda>c. c\<lparr>c_topology := t\<rparr>)) (\<lambda>_.
       case err of
         Some e \<Rightarrow> cfail e
       | None \<Rightarrow>
           cbind (cget c_status) (\<lambda>status.
             if status \<noteq> CLUSTER_INITIALIZING then Node_Start N n else creturn n)))"

definition peer_data :: "Node \<Rightarrow> PeerData" where
  "peer_data n =
     \<lparr>pd_NodeId = node_id n, pd_DCId = node_dcId n, pd_Addr = node_addr n, pd_Name = node_name n,
      pd_Token = node_token n\<rparr>"

definition getPeerData :: "Cluster \<Rightarrow> PeerData list" where
  "getPeerData c = map peer_data (Topology_AllNodes (c_topology c))"

section \<open>Discovering peers\<close>

definition addrIsKnown :: "Cluster \<Rightarrow> string \<Rightarrow> bool" where
  "addrIsKnown c addr =
     list_ex (\<lambda>n. is_remote n \<and> node_addr n = addr) (Topology_AllNodes (c_topology c))"

text \<open>A seed that cannot be started is passed over; the error of adding it is ignored.\<close>

fun discover_seeds :: "'w Net \<Rightarrow> string list \<Rightarrow> ('w, unit) cproc" where
  "discover_seeds N [] = creturn ()"
| "discover_seeds N (addr # addrs) =
     cbind (cget (\<lambda>c. addrIsKnown c addr)) (\<lambda>known.
     cbind (if known then creturn ()
            else
              cbind (NewRemoteNode addr) (\<lambda>n.
              ccatch (cbind (RemoteNode_Start N n) (\<lambda>n. cbind (addNode N n) (\<lambda>_. creturn ())))
                (\<lambda>_. creturn ()))) (\<lambda>_.
     discover_seeds N addrs))"

definition getRemoteNodes :: "Cluster \<Rightarrow> Node list" where
  "getRemoteNodes c = filter is_remote (Topology_AllNodes (c_topology c))"

fun add_peers :: "'w Net \<Rightarrow> PeerData list \<Rightarrow> ('w, unit) cproc" where
  "add_peers N [] = creturn ()"
| "add_peers N (peer # peers) =
     cbind (NewRemoteNodeInfo (pd_NodeId peer) (pd_DCId peer) (pd_Token peer) (pd_Name peer) (pd_Addr peer)) (\<lambda>n.
     cbind (addNode N n) (\<lambda>_. add_peers N peers))"

fun ask_peers :: "'w Net \<Rightarrow> Node list \<Rightarrow> ('w, unit) cproc" where
  "ask_peers N [] = creturn ()"
| "ask_peers N (n # ns) =
     cbind (cget GetNodeId) (\<lambda>nodeId.
       if node_id n = nodeId then ask_peers N ns
       else
         cbind (RemoteNode_SendMessage N n (DiscoverPeersRequest nodeId)) (\<lambda>(n, response).
           case response of
             DiscoverPeerResponse peers \<Rightarrow> cbind (add_peers N peers) (\<lambda>_. ask_peers N ns)
           | _ \<Rightarrow> cfail (Errorf ''Unexpected message type. Expected *DiscoverPeerResponse, got %T'')))"

definition discoverPeers :: "'w Net \<Rightarrow> ('w, unit) cproc" where
  "discoverPeers N =
     cbind (cget c_seeds) (\<lambda>seeds.
     cbind (discover_seeds N seeds) (\<lambda>_.
     cbind (cget getRemoteNodes) (\<lambda>peers.
     ask_peers N peers)))"

section \<open>Key routing and streaming\<close>

definition GetLocalNodesForKey :: "Cluster \<Rightarrow> string \<Rightarrow> Node list" where
  "GetLocalNodesForKey c k = GetLocalNodesForToken (c_topology c) (partitioner (c_topology c) k)"

definition GetNodesForKey :: "Cluster \<Rightarrow> string \<Rightarrow> (DatacenterID \<times> Node list) list" where
  "GetNodesForKey c k = GetNodesForToken (c_topology c) (GetToken (c_topology c) k)"

definition streamFromNode :: "'w Net \<Rightarrow> Node \<Rightarrow> ('w, unit) cproc" where
  "streamFromNode N n =
     (if \<not> is_remote n then cpanic ''interface conversion''
      else
        cbind (RemoteNode_SendMessage N n StreamRequest) (\<lambda>(n, response).
          if response \<noteq> StreamResponse then cfail (Errorf ''Expected STREAM_RESPONSE, got: %T'')
          else cmod (\<lambda>c. c\<lparr>c_status := CLUSTER_STREAMING\<rparr>)))"

definition replicates :: "Cluster \<Rightarrow> Node \<Rightarrow> string \<Rightarrow> bool" where
  "replicates c n key = list_ex (\<lambda>rnode. node_id rnode = node_id n) (GetLocalNodesForKey c key)"

fun stream_keys :: "'w Net \<Rightarrow> Node \<Rightarrow> string list \<Rightarrow> ('w, Node) cproc" where
  "stream_keys N n [] = creturn n"
| "stream_keys N n (key # keys) =
     cbind (cget (\<lambda>c. replicates c n key)) (\<lambda>rep.
       if rep then
         cbind (cget (\<lambda>c. GetRawKey (c_store c) key)) (\<lambda>raw.
         cbind (cout raw) (\<lambda>val.
         cbind (RemoteNode_SendMessage N n
           (StreamDataRequest [\<lparr>sd_Key = key, sd_Data = SerializeValue val\<rparr>])) (\<lambda>(n, response).
           if cluster_GetType response \<noteq> STREAM_DATA_RESPONSE
           then cfail (Errorf ''Expected StreamDataResponse, got %T'')
           else stream_keys N n keys)))
       else stream_keys N n keys)"

text \<open>\<open>keys\<close> is the order in which \<^verbatim>\<open>GetKeys\<close> gives the keys of the store.\<close>

definition streamToNode :: "'w Net \<Rightarrow> string list \<Rightarrow> Node \<Rightarrow> ('w, unit) cproc" where
  "streamToNode N keys n =
     (if \<not> is_remote n then cpanic ''interface conversion''
      else
        cbind (stream_keys N n keys) (\<lambda>n.
        cbind (RemoteNode_SendMessage N n StreamCompleteRequest) (\<lambda>(n, response).
          if cluster_GetType response \<noteq> STREAM_COMPLETE_RESPONSE
          then cfail (Errorf ''Expected StreamCompleteRequest, got %T'')
          else creturn ())))"

definition receiveStreamedData :: "StreamData list \<Rightarrow> ('w, unit) cproc" where
  "receiveStreamedData data = creturn ()"

section \<open>Starting and stopping\<close>

text \<open>
  \<open>%\<close> truncates towards zero, so the index before the first node is \<open>-1\<close> unless there is one
  node only.  The error of \<^verbatim>\<open>streamFromNode\<close> is dropped.
\<close>

definition left_index :: "nat \<Rightarrow> nat \<Rightarrow> int" where
  "left_index idx len = (int idx - 1) smod int len"

definition JoinCluster :: "'w Net \<Rightarrow> ('w, unit) cproc" where
  "JoinCluster N =
     cbind (cget (\<lambda>c. AllLocalNodes (c_topology c))) (\<lambda>local.
     cbind (cout local) (\<lambda>nodes.
     cbind (cget GetNodeId) (\<lambda>nodeId.
       let idx = (case List.find (\<lambda>i. node_id (nodes ! i) = nodeId) [0..<length nodes] of
                    None \<Rightarrow> 0 | Some i \<Rightarrow> i)
       in if length nodes \<le> idx then cpanic ''index out of range''
          else if node_id (nodes ! idx) \<noteq> nodeId then cpanic ''node at index is not the local node''
          else if left_index idx (length nodes) < 0 then cpanic ''index out of range''
          else ccatch (streamFromNode N (nodes ! nat (left_index idx (length nodes)))) (\<lambda>_. creturn ()))))"

fun start_nodes :: "'w Net \<Rightarrow> Node list \<Rightarrow> ('w, unit) cproc" where
  "start_nodes N [] = creturn ()"
| "start_nodes N (n # ns) =
     cbind (cget (\<lambda>c. IsStarted c n)) (\<lambda>started.
     cbind (if \<not> started then cbind (Node_Start N n) (\<lambda>_. creturn ()) else creturn ()) (\<lambda>_.
     start_nodes N ns))"

text \<open>
  \<open>listen\<close> is the error of opening the port of the server, if any; \<open>c_listening\<close> tells whether the
  server has a listener.  The error of closing the listener is dropped by \<^verbatim>\<open>Cluster.Stop\<close>.
\<close>

definition PeerServer_Start :: "error option \<Rightarrow> ('w, unit) cproc" where
  "PeerServer_Start listen =
     (case listen of Some err \<Rightarrow> cfail err | None \<Rightarrow> cmod (\<lambda>c. c\<lparr>c_listening := True, c_isRunning := True\<rparr>))"

definition PeerServer_Stop :: "('w, unit) cproc" where
  "PeerServer_Stop =
     cbind (cget c_listening) (\<lambda>listening.
       if listening then cmod (\<lambda>c. c\<lparr>c_isRunning := False\<rparr>)
       else cpanic ''nil pointer dereference'')"

definition Cluster_Start :: "'w Net \<Rightarrow> error option \<Rightarrow> ('w, unit) cproc" where
  "Cluster_Start N listen =
     cbind (cget (\<lambda>c. AllLocalNodes (c_topology c))) (\<lambda>local.
     cbind (cout local) (\<lambda>nodes.
     let firstStartup = (length nodes = 0) in
     cbind (PeerServer_Start listen) (\<lambda>_.
     cbind (start_nodes N nodes) (\<lambda>_.
     cbind (discoverPeers N) (\<lambda>_.
       if firstStartup then JoinCluster N
       else cmod (\<lambda>c. c\<lparr>c_status := CLUSTER_NORMAL\<rparr>))))))"

fun stop_nodes :: "Node list \<Rightarrow> ('w, unit) cproc" where
  "stop_nodes [] = creturn ()"
| "stop_nodes (n # ns) = cbind (Node_Stop n) (\<lambda>_. stop_nodes ns)"

definition Cluster_Stop :: "('w, unit) cproc" where
  "Cluster_Stop =
     cbind PeerServer_Stop (\<lambda>_.
     cbind (cget (\<lambda>c. AllLocalNodes (c_topology c))) (\<lambda>local.
     cbind (cout local) stop_nodes))"

definition MoveNode :: "bytes \<Rightarrow> ('w, unit) cproc" where
  "MoveNode token = cpanic ''not implemented''"

definition RemoveNode :: "('w, unit) cproc" where
  "RemoveNode = cpanic ''not implemented''"

section \<open>The peer server\<close>

text \<open>
  \<^verbatim>\<open>cluster/server.go\<close>.  Requests that have an empty branch fall out of the switch into the
  panic behind it.
\<close>

definition executeRequest :: "Node \<Rightarrow> cluster_msg \<Rightarrow> ('w, cluster_msg) cproc" where
  "executeRequest n request =
     (let mtype = cluster_GetType request in
      if mtype = DISCOVER_PEERS_REQUEST then cget (\<lambda>c. DiscoverPeerResponse (getPeerData c))
      else if mtype = STREAM_REQUEST
      then cbind (cmod (\<lambda>c. c\<lparr>c_streams := c_streams c @ [n]\<rparr>)) (\<lambda>_. creturn StreamResponse)
      else if mtype \<in> {READ_REQUEST, WRITE_REQUEST, STREAM_DATA_REQUEST, STREAM_COMPLETE_REQUEST}
      then cpanic ''unreachable''
      else cfail (Errorf ''unexpected message type: %T''))"

definition refuse :: "'w Net \<Rightarrow> nat \<Rightarrow> string \<Rightarrow> ('w, unit) cproc" where
  "refuse N sock reason =
     ccatch (write_message N sock (ConnectionRefusedResponse reason)) (\<lambda>_. creturn ())"

definition acceptance :: "Cluster \<Rightarrow> cluster_msg" where
  "acceptance c =
     ConnectionAccepted \<lparr>ca_NodeId = GetNodeId c, ca_DCId = '''', ca_Name = GetName c,
       ca_Token = Cluster_GetToken c\<rparr>"

text \<open>
  The part of \<^verbatim>\<open>handleConnection\<close> up to the loop, and one round of the loop.  \<open>bs\<close> are the
  bytes that arrive for a message.
\<close>

definition accept_connection :: "'w Net \<Rightarrow> nat \<Rightarrow> bytes \<Rightarrow> ('w, Node) cproc" where
  "accept_connection N sock bs =
     (case ReadMessage cluster_constructors bs of
        Inl err \<Rightarrow>
          cbind (refuse N sock ''Error reading message: %v'') (\<lambda>_.
          cfail (Errorf ''Error reading opening message''))
      | Inr (ConnectionRequest req, _) \<Rightarrow>
          cbind (cget acceptance) (\<lambda>msg.
          cbind (write_message N sock msg) (\<lambda>_.
          cbind (NewRemoteNodeInfo (pd_NodeId req) (pd_DCId req) (pd_Token req) (pd_Name req) (pd_Addr req)) (\<lambda>n.
          ccatch (addNode N n) (\<lambda>_. cget (\<lambda>c. deref c n)))))
      | Inr (m, _) \<Rightarrow>
          cbind (refuse N sock ''ConnectionRequest expected, got: %T'') (\<lambda>_.
          cfail (Errorf ''ConnectionRequest expected, got: %T'')))"

definition serve_request :: "'w Net \<Rightarrow> nat \<Rightarrow> Node \<Rightarrow> bytes \<Rightarrow> ('w, unit) cproc" where
  "serve_request N sock n bs =
     (case ReadMessage cluster_constructors bs of
        Inl err \<Rightarrow> cfail err
      | Inr (request, _) \<Rightarrow>
          cbind (executeRequest n request) (\<lambda>response. write_message N sock response))"

text \<open>After the last of \<open>inputs\<close> the connection ends.\<close>

fun serve_loop :: "'w Net \<Rightarrow> nat \<Rightarrow> Node \<Rightarrow> bytes list \<Rightarrow> ('w, unit) cproc" where
  "serve_loop N sock n [] = cfail EOF"
| "serve_loop N sock n (bs # inputs) =
     cbind (serve_request N sock n bs) (\<lambda>_. serve_loop N sock n inputs)"

definition handleConnection :: "'w Net \<Rightarrow> nat \<Rightarrow> bytes list \<Rightarrow> ('w, unit) cproc" where
  "handleConnection N sock inputs =
     (case inputs of
        [] \<Rightarrow> cbind (accept_connection N sock []) (\<lambda>_. cfail EOF)
      | bs # inputs \<Rightarrow> cbind (accept_connection N sock bs) (\<lambda>n. serve_loop N sock n inputs))"

end
