(* ===== verification/ClusterInv.thy ===== *)
theory ClusterInv
  imports Cluster
begin

text \<open>
  The invariant of a cluster and the calls that keep it: whatever the network does, the
  pools of the remote nodes represent queues, every pointer to a node is valid and the local
  node stays in the ring of its datacenter, so that no call on the way of \<^verbatim>\<open>Start\<close> and of
  the server panics, apart from the requests that have no implementation.
\<close>

named_theorems cok_intros \<open>calls that keep the invariant\<close>

section \<open>Composing calls\<close>

lemma cbind_simps [simp]:
  "cbind (creturn a) f = f a" "cbind (cget g) f s = f (g (snd s)) s"
  "cbind (cmod h) k s = k () (fst s, h (snd s))" "cbind (cout (Ret a)) f = f a"
  "cbind (cfail e) f = cfail e" "cbind (cpanic x) f = cpanic x"
  by (auto simp: cbind_def creturn_def cget_def cmod_def cout_def cfail_def cpanic_def)

lemma cbind_put [simp]: "cbind (cput n) f s = f n (fst s, put_node n (snd s))"
  by (simp add: cput_def cbind_def cmod_def creturn_def)

lemma cbind_pool_put:
  "Put (rn_pool (remote c n)) conn = Ret (cp, x) \<Longrightarrow>
     cbind (pool_put n conn) f (w, c) = f () (w, put_remote n ((remote c n)\<lparr>rn_pool := cp\<rparr>) c)"
  by (simp add: cbind_def pool_put_def)

lemma cbind_run: "p s = (s', Ret a) \<Longrightarrow> cbind p f s = f a s'"
  by (simp add: cbind_def)

lemma ccatch_run: "p s = (s', Ret a) \<Longrightarrow> ccatch p h s = (s', Ret a)"
  by (simp add: ccatch_def)

lemma cbind_assoc: "cbind (cbind p f) g = cbind p (\<lambda>a. cbind (f a) g)"
  by (rule ext) (auto simp: cbind_def split: prod.splits outcome.splits)

section \<open>The invariant\<close>

definition ring_nodes :: "Ring \<Rightarrow> Node set" where
  "ring_nodes r = snd ` set (nodeMap r) \<union> set (tokenRing r)"

definition topology_nodes :: "Topology \<Rightarrow> Node set" where
  "topology_nodes t = (\<Union>(dc, r) \<in> set (rings t). ring_nodes r)"

text \<open>The local node is in its ring, under its own identifier.\<close>

definition has_local :: "NodeId \<Rightarrow> Ring \<Rightarrow> bool" where
  "has_local nid r \<longleftrightarrow>
     (\<exists>n. node_ref n = 0 \<and> node_id n = nid \<and> (nid, n) \<in> set (nodeMap r) \<and> n \<in> set (tokenRing r))"

definition pool_ok :: "RemoteNode \<Rightarrow> bool" where
  "pool_ok rn \<longleftrightarrow> (\<exists>q. represents (rn_pool rn) q)"

definition cluster_inv :: "Cluster \<Rightarrow> bool" where
  "cluster_inv c \<longleftrightarrow>
     (\<forall>rn \<in> set (c_remotes c). pool_ok rn) \<and>
     (\<forall>n \<in> topology_nodes (c_topology c). node_ref n \<le> length (c_remotes c)) \<and>
     c_listening c \<and> localDcID (c_topology c) = c_dcId c \<and>
     (\<exists>r. map_of (rings (c_topology c)) (c_dcId c) = Some r \<and> has_local (c_nodeId c) r)"

text \<open>
  \<open>cok K Q p\<close>: on a cluster with at least \<open>K\<close> remote nodes that satisfies the invariant, the call
  \<open>p\<close> keeps the invariant, forgets no remote node and does not panic, and its result \<open>a\<close> and the
  number \<open>L\<close> of remote nodes satisfy \<open>Q a L\<close>.
\<close>

definition cok :: "nat \<Rightarrow> ('a \<Rightarrow> nat \<Rightarrow> bool) \<Rightarrow> ('w, 'a) cproc \<Rightarrow> bool" where
  "cok K Q p \<longleftrightarrow>
     (\<forall>w c w' c' r. cluster_inv c \<longrightarrow> K \<le> length (c_remotes c) \<longrightarrow> p (w, c) = ((w', c'), r) \<longrightarrow>
        cluster_inv c' \<and> length (c_remotes c) \<le> length (c_remotes c') \<and>
        (case r of Ret a \<Rightarrow> Q a (length (c_remotes c')) | Err e \<Rightarrow> True | Panic x \<Rightarrow> False))"

lemma cokI:
  assumes "\<And>w c w' c' r. cluster_inv c \<Longrightarrow> K \<le> length (c_remotes c) \<Longrightarrow> p (w, c) = ((w', c'), r) \<Longrightarrow>
    cluster_inv c' \<and> length (c_remotes c) \<le> length (c_remotes c') \<and>
    (case r of Ret a \<Rightarrow> Q a (length (c_remotes c')) | Err e \<Rightarrow> True | Panic x \<Rightarrow> False)"
  shows "cok K Q p"
  using assms unfolding cok_def by blast

lemma cokD:
  assumes "cok K Q p" and "cluster_inv c" and "K \<le> length (c_remotes c)" and "p (w, c) = ((w', c'), r)"
  shows "cluster_inv c'" and "length (c_remotes c) \<le> length (c_remotes c')"
    and "r = Ret a \<Longrightarrow> Q a (length (c_remotes c'))" and "r \<noteq> Panic x"
  using assms unfolding cok_def by (fastforce split: outcome.splits)+

lemma cok_weaken: "cok K Q p \<Longrightarrow> K \<le> K' \<Longrightarrow> (\<And>a L. K' \<le> L \<Longrightarrow> Q a L \<Longrightarrow> Q' a L) \<Longrightarrow> cok K' Q' p"
proof (rule cokI)
  fix w c w' c' r
  assume p: "cok K Q p" "K \<le> K'" "\<And>a L. K' \<le> L \<Longrightarrow> Q a L \<Longrightarrow> Q' a L"
    and c: "cluster_inv c" "K' \<le> length (c_remotes c)" "p (w, c) = ((w', c'), r)"
  note d = cokD [OF p(1) c(1) _ c(3)]
  show "cluster_inv c' \<and> length (c_remotes c) \<le> length (c_remotes c') \<and>
    (case r of Ret a \<Rightarrow> Q' a (length (c_remotes c')) | Err e \<Rightarrow> True | Panic x \<Rightarrow> False)"
    using d p c by (cases r) auto
qed

lemma cok_bind:
  assumes "cok K Q p" and "\<And>a L. K \<le> L \<Longrightarrow> Q a L \<Longrightarrow> cok L R (f a)"
  shows "cok K R (cbind p f)"
proof (rule cokI)
  fix w c w' c' r
  assume c: "cluster_inv c" "K \<le> length (c_remotes c)" and run: "cbind p f (w, c) = ((w', c'), r)"
  obtain w1 c1 r1 where p: "p (w, c) = ((w1, c1), r1)" by (metis surj_pair)
  note d = cokD [OF assms(1) c p]
  show "cluster_inv c' \<and> length (c_remotes c) \<le> length (c_remotes c') \<and>
    (case r of Ret a \<Rightarrow> R a (length (c_remotes c')) | Err e \<Rightarrow> True | Panic x \<Rightarrow> False)"
  proof (cases r1)
    case (Ret a)
    then have f: "f a (w1, c1) = ((w', c'), r)" using run p by (simp add: cbind_def)
    have "cok (length (c_remotes c1)) R (f a)"
      using assms(2) d(2) d(3) [OF Ret] c(2) by simp
    from cokD [OF this d(1) _ f] d(2) show ?thesis by (cases r) auto
  qed (use d run p in \<open>auto simp: cbind_def\<close>)
qed

lemma cok_catch:
  assumes "cok K Q p" and "\<And>e. cok K Q (h e)"
  shows "cok K Q (ccatch p h)"
proof (rule cokI)
  fix w c w' c' r
  assume c: "cluster_inv c" "K \<le> length (c_remotes c)" and run: "ccatch p h (w, c) = ((w', c'), r)"
  obtain w1 c1 r1 where p: "p (w, c) = ((w1, c1), r1)" by (metis surj_pair)
  note d = cokD [OF assms(1) c p]
  show "cluster_inv c' \<and> length (c_remotes c) \<le> length (c_remotes c') \<and>
    (case r of Ret a \<Rightarrow> Q a (length (c_remotes c')) | Err e \<Rightarrow> True | Panic x \<Rightarrow> False)"
  proof (cases r1)
    case (Err e)
    then have h: "h e (w1, c1) = ((w', c'), r)" using run p by (simp add: ccatch_def)
    have "K \<le> length (c_remotes c1)" using d(2) c(2) by simp
    from cokD [OF assms(2) d(1) this h] d(2) show ?thesis by (cases r) auto
  qed (use d run p in \<open>auto simp: ccatch_def\<close>)
qed

lemma cok_return: "(\<And>L. K \<le> L \<Longrightarrow> Q a L) \<Longrightarrow> cok K Q (creturn a)"
  by (rule cokI) (auto simp: creturn_def)

lemma cok_fail: "cok K Q (cfail e)"
  by (rule cokI) (auto simp: cfail_def)

lemma cok_get: "(\<And>c. cluster_inv c \<Longrightarrow> K \<le> length (c_remotes c) \<Longrightarrow> Q (f c) (length (c_remotes c))) \<Longrightarrow> cok K Q (cget f)"
  by (rule cokI) (auto simp: cget_def)

lemma cok_mod:
  assumes "\<And>c. cluster_inv c \<Longrightarrow> K \<le> length (c_remotes c) \<Longrightarrow>
    cluster_inv (f c) \<and> length (c_remotes c) \<le> length (c_remotes (f c))"
  shows "cok K (\<lambda>_ _. True) (cmod f)"
  by (rule cokI) (use assms in \<open>auto simp: cmod_def\<close>)

lemma cok_out: "(\<And>x. r \<noteq> Panic x) \<Longrightarrow> (\<And>a L. r = Ret a \<Longrightarrow> K \<le> L \<Longrightarrow> Q a L) \<Longrightarrow> cok K Q (cout r)"
  by (rule cokI) (auto simp: cout_def split: outcome.splits)

section \<open>Nodes and their connections\<close>

definition valid :: "Node \<Rightarrow> nat \<Rightarrow> bool" where
  "valid n L \<longleftrightarrow> 0 < node_ref n \<and> node_ref n \<le> L"

lemma valid_mono: "valid n K \<Longrightarrow> K \<le> L \<Longrightarrow> valid n L"
  by (simp add: valid_def)

lemma valid_ref: "node_ref n' = node_ref n \<Longrightarrow> valid n' L = valid n L"
  by (simp add: valid_def)

lemma map_of_rings: "map_of (map (\<lambda>(dc, r). (dc, f r)) rs) dc = map_option f (map_of rs dc)"
  by (induction rs) auto

lemma topology_nodes_put:
  "x \<in> topology_nodes (c_topology (put_node n c)) \<Longrightarrow> x = n \<or> x \<in> topology_nodes (c_topology c)"
  by (fastforce simp: topology_nodes_def ring_nodes_def put_node_def ring_put_def subst_node_def
      split: if_splits)

lemma put_node_remotes [simp]: "c_remotes (put_node n c) = c_remotes c" "c_listening (put_node n c) = c_listening c"
  by (simp_all add: put_node_def)

lemma has_local_put: "has_local nid r \<Longrightarrow> 0 < node_ref n \<Longrightarrow> has_local nid (ring_put n r)"
  by (force simp: has_local_def ring_put_def subst_node_def)

lemma cluster_inv_put_node:
  assumes "cluster_inv c" and "valid n (length (c_remotes c))"
  shows "cluster_inv (put_node n c)"
proof -
  from assms(1) obtain r where r: "map_of (rings (c_topology c)) (c_dcId c) = Some r"
    "has_local (c_nodeId c) r" by (auto simp: cluster_inv_def)
  then have "map_of (rings (c_topology (put_node n c))) (c_dcId (put_node n c)) = Some (ring_put n r)"
    by (simp add: put_node_def map_of_rings)
  moreover have "has_local (c_nodeId (put_node n c)) (ring_put n r)"
    using has_local_put [OF r(2)] assms(2) by (simp add: put_node_def valid_def)
  moreover have "node_ref x \<le> length (c_remotes c)" if "x \<in> topology_nodes (c_topology (put_node n c))" for x
    using topology_nodes_put [OF that] assms by (auto simp: cluster_inv_def valid_def)
  moreover have "localDcID (c_topology (put_node n c)) = c_dcId (put_node n c)"
    using assms(1) by (simp add: cluster_inv_def put_node_def)
  ultimately show ?thesis
    using assms(1) by (simp add: cluster_inv_def)
qed

lemma cok_put [cok_intros]: "valid n K \<Longrightarrow> cok K (\<lambda>n' L. n' = n) (cput n)"
  unfolding cput_def
  by (rule cok_bind [OF cok_mod]) (auto intro: cluster_inv_put_node valid_mono cok_return)

lemma cluster_inv_put_remote:
  assumes "cluster_inv c" and "pool_ok rn"
  shows "cluster_inv (put_remote n rn c)"
  using assms set_update_subset_insert [of "c_remotes c" "node_ref n - 1" rn]
  by (auto simp: cluster_inv_def put_remote_def)

lemma put_remote_length [simp]: "length (c_remotes (put_remote n rn c)) = length (c_remotes c)"
  by (simp add: put_remote_def)

lemma remote_ok: "cluster_inv c \<Longrightarrow> valid n (length (c_remotes c)) \<Longrightarrow> pool_ok (remote c n)"
  by (auto simp: cluster_inv_def valid_def remote_def)

lemma cok_pool_get [cok_intros]:
  assumes "valid n K"
  shows "cok K (\<lambda>_ _. True) (pool_get N n)"
proof (rule cokI)
  fix w c w' c' r
  assume c: "cluster_inv c" "K \<le> length (c_remotes c)" "pool_get N n (w, c) = ((w', c'), r)"
  let ?dial = "\<lambda>addr timeout. snd (net_dial N w addr timeout)"
  obtain cp q where g: "Get ?dial (rn_pool (remote c n)) = (cp, q)" by fastforce
  have "valid n (length (c_remotes c))" using valid_mono [OF assms c(2)] .
  then have "pool_ok ((remote c n)\<lparr>rn_pool := cp\<rparr>)"
    using remote_ok [OF c(1)] Get_refines [OF _ g] by (auto simp: pool_ok_def)
  with c(1) have "cluster_inv (put_remote n ((remote c n)\<lparr>rn_pool := cp\<rparr>) c)"
    by (rule cluster_inv_put_remote)
  with c(3) g show "cluster_inv c' \<and> length (c_remotes c) \<le> length (c_remotes c') \<and>
      (case r of Ret a \<Rightarrow> True | Err e \<Rightarrow> True | Panic x \<Rightarrow> False)"
    by (auto simp: pool_get_def Let_def split: sum.splits)
qed

lemma cok_pool_put [cok_intros]:
  assumes "valid n K"
  shows "cok K (\<lambda>_ _. True) (pool_put n conn)"
proof (rule cokI)
  fix w c w' c' r
  assume c: "cluster_inv c" "K \<le> length (c_remotes c)" "pool_put n conn (w, c) = ((w', c'), r)"
  have "valid n (length (c_remotes c))" using valid_mono [OF assms c(2)] .
  then obtain q where "represents (rn_pool (remote c n)) q"
    using remote_ok [OF c(1)] by (auto simp: pool_ok_def)
  from pool.put_total [OF this, of conn] obtain cp q' conn' where
    p: "Put (rn_pool (remote c n)) conn = Ret (cp, conn')" "represents cp q'" by blast
  then have "pool_ok ((remote c n)\<lparr>rn_pool := cp\<rparr>)" by (auto simp: pool_ok_def)
  with c(1) have "cluster_inv (put_remote n ((remote c n)\<lparr>rn_pool := cp\<rparr>) c)"
    by (rule cluster_inv_put_remote)
  with c(3) p(1) show "cluster_inv c' \<and> length (c_remotes c) \<le> length (c_remotes c') \<and>
      (case r of Ret a \<Rightarrow> True | Err e \<Rightarrow> True | Panic x \<Rightarrow> False)"
    by (auto simp: pool_put_def)
qed

lemma cok_write [cok_intros]: "cok K (\<lambda>_ _. True) (write_message N sock m)"
  by (rule cokI) (auto simp: write_message_def split: prod.splits option.splits)

lemma cok_read [cok_intros]: "cok K (\<lambda>_ _. True) (read_message N sock)"
  by (rule cokI) (auto simp: read_message_def split: prod.splits sum.splits)

lemma cok_node_down [cok_intros]: "valid n K \<Longrightarrow> cok K Q (node_down n err)"
  unfolding node_down_def
  by (rule cok_bind [OF cok_put]) (auto simp: valid_def intro: cok_fail)

lemma cok_handshake [cok_intros]:
  assumes "valid n K"
  shows "cok K (\<lambda>(n', conn) L. node_ref n' = node_ref n) (handshake N n conn)"
  unfolding handshake_def
proof (rule cok_bind [OF cok_catch [where Q = "\<lambda>_ _. True"]])
  show "cok K (\<lambda>_ _. True)
     (cbind (cget connection_request) (\<lambda>msg.
      cbind (write_message N (socket conn) msg) (\<lambda>_.
      cbind (read_message N (socket conn)) (\<lambda>response.
        case response of ConnectionAccepted acc \<Rightarrow> creturn acc
        | _ \<Rightarrow> cfail (Errorf ''Unexpected response type, expected *ConnectionAcceptedResponse, got %T'')))))"
    by (rule cok_bind [OF cok_get [where Q = "\<lambda>_ _. True"]], simp,
        rule cok_bind [OF cok_write], rule cok_bind [OF cok_read])
      (auto intro: cok_return cok_fail split: cluster_msg.split)
  show "cok K (\<lambda>_ _. True) (node_down n e)" for e
    using assms by (rule cok_node_down)
  show "cok M (\<lambda>(n', conn) L. node_ref n' = node_ref n)
      (cbind (cput (copy_accept n acc)) (\<lambda>n. creturn (n, SetHandshakeCompleted conn)))" if "K \<le> M" for acc M
    using assms that by (intro cok_bind [OF cok_put] cok_return) (auto simp: valid_def copy_accept_def)
qed

lemma cok_getConnection [cok_intros]:
  assumes "valid n K"
  shows "cok K (\<lambda>(n', conn) L. node_ref n' = node_ref n) (getConnection N n)"
  unfolding getConnection_def
proof (rule cok_bind [OF cok_pool_get [OF assms]])
  fix conn :: Connection and L
  assume "K \<le> L"
  then show "cok L (\<lambda>(n', conn) L. node_ref n' = node_ref n)
      (if \<not> HandshakeCompleted conn then handshake N n conn else creturn (n, conn))"
    by (auto intro: cok_return cok_handshake valid_mono [OF assms])
qed

lemma cok_RemoteNode_Start [cok_intros]:
  assumes "valid n K"
  shows "cok K (\<lambda>n' L. node_ref n' = node_ref n) (RemoteNode_Start N n)"
  unfolding RemoteNode_Start_def
proof (rule cok_bind [OF cok_getConnection [OF assms]], clarify)
  fix n' :: Node and conn :: Connection and L
  assume "K \<le> L" and ref: "node_ref n' = node_ref n"
  then have v: "valid n' L" using assms by (simp add: valid_def)
  have started: "cok M (\<lambda>_ _. True) (cmod (\<lambda>c. put_remote n' ((remote c n')\<lparr>rn_isStarted := True\<rparr>) c))"
    if "valid n' M" for n' M
    using valid_mono [OF that] remote_ok
    by (intro cok_mod) (auto intro!: cluster_inv_put_remote simp: pool_ok_def)
  show "cok L (\<lambda>n' L. node_ref n' = node_ref n)
      (cbind (pool_put n' conn) (\<lambda>_. cbind (cput (n'\<lparr>node_status := NODE_UP\<rparr>)) (\<lambda>n.
       cbind (cmod (\<lambda>c. put_remote n ((remote c n)\<lparr>rn_isStarted := True\<rparr>) c)) (\<lambda>_. creturn n))))"
    by (rule cok_bind [OF cok_pool_put [OF v]], rule cok_bind [OF cok_put], use v in \<open>simp add: valid_def\<close>,
        rule cok_bind [OF started]) (use v ref in \<open>auto simp: valid_def intro: cok_return\<close>)
qed

lemma cok_SendMessage [cok_intros]:
  assumes "valid n K"
  shows "cok K (\<lambda>(n', m) L. node_ref n' = node_ref n) (RemoteNode_SendMessage N n m)"
  unfolding RemoteNode_SendMessage_def
proof (rule cok_bind [OF cok_catch [OF cok_getConnection [OF assms] cok_node_down [OF assms]]], clarify)
  fix n' :: Node and conn :: Connection and L
  assume "K \<le> L" and ref: "node_ref n' = node_ref n"
  then have v: "valid n' L" using assms by (simp add: valid_def)
  have io: "cok L (\<lambda>_ _. True)
      (ccatch (cbind (write_message N (socket conn) m) (\<lambda>_. read_message N (socket conn))) (node_down n'))"
    using v by (intro cok_catch cok_bind [OF cok_write] cok_read cok_node_down)
  show "cok L (\<lambda>(n', m) L. node_ref n' = node_ref n)
      (cbind (ccatch (cbind (write_message N (socket conn) m) (\<lambda>_. read_message N (socket conn)))
         (node_down n')) (\<lambda>response.
       cbind (cput (n'\<lparr>node_status := NODE_UP\<rparr>)) (\<lambda>n. cbind (pool_put n conn) (\<lambda>_. creturn (n, response)))))"
    by (rule cok_bind [OF io], rule cok_bind [OF cok_put], use v in \<open>simp add: valid_def\<close>,
        rule cok_bind [OF cok_pool_put]) (use v ref in \<open>auto simp: valid_def intro: cok_return\<close>)
qed

lemma cok_Node_Start [cok_intros]:
  assumes "node_ref n \<le> K"
  shows "cok K (\<lambda>n' L. node_ref n' = node_ref n) (Node_Start N n)"
proof (cases "is_remote n")
  case True
  with assms have "valid n K" by (simp add: valid_def is_remote_def)
  with True show ?thesis by (simp add: Node_Start_def cok_RemoteNode_Start)
next
  case False
  have "cok K (\<lambda>_ _. True) (cmod (\<lambda>c. c\<lparr>c_localStarted := True\<rparr>))"
    by (rule cok_mod) (simp add: cluster_inv_def)
  then have "cok K (\<lambda>n' L. node_ref n' = node_ref n) (LocalNode_Start n)"
    unfolding LocalNode_Start_def by (rule cok_bind) (simp add: cok_return)
  with False show ?thesis by (simp add: Node_Start_def)
qed

section \<open>Adding nodes\<close>

lemma AList_update_subset: "set (AList.update k v al) \<subseteq> insert (k, v) (set al)"
  by (induction al) auto

lemma ring_nodes_New [simp]: "ring_nodes NewRing = {}"
  by (simp add: ring_nodes_def NewRing_def)

lemma ring_nodes_AddNode: "Ring_AddNode r n = Inr r' \<Longrightarrow> ring_nodes r' \<subseteq> insert n (ring_nodes r)"
  by (drule Ring_AddNode_Inr) (auto simp: ring_nodes_def)

lemma topology_nodes_ensure:
  "(\<Union>(dc, r) \<in> set (ensure_ring dcId rs). ring_nodes r) \<subseteq> (\<Union>(dc, r) \<in> set rs. ring_nodes r)"
  using AList_update_subset [of dcId NewRing rs] by (fastforce simp: ensure_ring_def split: option.splits)

lemma ensure_ring_Some: "\<exists>r. map_of (ensure_ring dcId rs) dcId = Some r"
  by (auto simp: ensure_ring_def update_conv' split: option.splits)

lemma ensure_ring_old: "map_of rs dc = Some r \<Longrightarrow> map_of (ensure_ring dcId rs) dc = Some r"
  by (auto simp: ensure_ring_def update_conv' split: option.splits)

lemma topology_nodes_AddNode:
  assumes "Topology_AddNode t n = (t', err)"
  shows "topology_nodes t' \<subseteq> insert n (topology_nodes t)"
proof -
  let ?rs = "ensure_ring (node_dcId n) (rings t)"
  obtain r where r: "map_of ?rs (node_dcId n) = Some r" using ensure_ring_Some by blast
  then have in_rs: "(node_dcId n, r) \<in> set ?rs" by (rule map_of_SomeD)
  have base: "(\<Union>(dc, r) \<in> set ?rs. ring_nodes r) \<subseteq> topology_nodes t"
    using topology_nodes_ensure by (simp add: topology_nodes_def)
  show ?thesis
  proof (cases "Ring_AddNode r n")
    case (Inl e)
    then have "rings t' = ?rs" using assms r by (auto simp: Topology_AddNode_def Let_def)
    with base show ?thesis unfolding topology_nodes_def by auto
  next
    case (Inr r')
    have "ring_nodes r' \<subseteq> insert n (topology_nodes t)"
      using ring_nodes_AddNode [OF Inr] in_rs base by fastforce
    moreover have "rings t' = AList.update (node_dcId n) r' ?rs"
      using assms r Inr by (auto simp: Topology_AddNode_def Let_def)
    ultimately show ?thesis
      using AList_update_subset [of "node_dcId n" r' ?rs] base
      unfolding topology_nodes_def by fastforce
  qed
qed

lemma has_local_AddNode: "has_local nid r \<Longrightarrow> Ring_AddNode r n = Inr r' \<Longrightarrow> has_local nid r'"
  by (drule Ring_AddNode_Inr) (force simp: has_local_def)

lemma local_ring_AddNode:
  assumes "Topology_AddNode t n = (t', err)" and "map_of (rings t) dc = Some r" and "has_local nid r"
  shows "localDcID t' = localDcID t \<and> (\<exists>r. map_of (rings t') dc = Some r \<and> has_local nid r)"
proof -
  let ?rs = "ensure_ring (node_dcId n) (rings t)"
  have old: "map_of ?rs dc = Some r" using assms(2) by (rule ensure_ring_old)
  obtain r1 where r1: "map_of ?rs (node_dcId n) = Some r1" using ensure_ring_Some by blast
  show ?thesis
  proof (cases "Ring_AddNode r1 n")
    case (Inl e)
    with assms r1 old show ?thesis by (auto simp: Topology_AddNode_def Let_def)
  next
    case (Inr r2)
    have "has_local nid r2" if "dc = node_dcId n"
      using has_local_AddNode [OF assms(3)] Inr old r1 that by simp
    with assms r1 old Inr show ?thesis by (auto simp: Topology_AddNode_def Let_def update_conv')
  qed
qed

lemma cluster_inv_AddNode:
  assumes "cluster_inv c" and "node_ref n \<le> length (c_remotes c)"
    and "Topology_AddNode (c_topology c) n = (t, err)"
  shows "cluster_inv (c\<lparr>c_topology := t\<rparr>)"
  using assms topology_nodes_AddNode [OF assms(3)] local_ring_AddNode [OF assms(3)]
  unfolding cluster_inv_def by fastforce

lemma cok_addNode [cok_intros]:
  assumes "node_ref n \<le> K"
  shows "cok K (\<lambda>n' L. node_ref n' = node_ref n) (addNode N n)"
proof (rule cokI)
  fix w c w' c' r
  assume c: "cluster_inv c" "K \<le> length (c_remotes c)" "addNode N n (w, c) = ((w', c'), r)"
  obtain t err where t: "Topology_AddNode (c_topology c) n = (t, err)" by fastforce
  have inv: "cluster_inv (c\<lparr>c_topology := t\<rparr>)"
    using c(1) _ t by (rule cluster_inv_AddNode) (use assms c(2) in simp)
  show "cluster_inv c' \<and> length (c_remotes c) \<le> length (c_remotes c') \<and>
      (case r of Ret a \<Rightarrow> node_ref a = node_ref n | Err e \<Rightarrow> True | Panic x \<Rightarrow> False)"
  proof (cases "err = None \<and> c_status c \<noteq> CLUSTER_INITIALIZING")
    case True
    then have "Node_Start N n (w, c\<lparr>c_topology := t\<rparr>) = ((w', c'), r)"
      using c(3) t by (simp add: addNode_def cbind_def cget_def cmod_def)
    from cokD [OF cok_Node_Start [OF assms] inv _ this] c(2) show ?thesis by (cases r) auto
  next
    case False
    then show ?thesis
      using c(3) t inv by (auto simp: addNode_def cbind_def cget_def cmod_def creturn_def cfail_def
          split: option.splits if_splits)
  qed
qed

lemma cok_NewRemoteNode [cok_intros]: "cok K valid (NewRemoteNode addr)"
proof (rule cokI)
  fix w c w' c' r
  assume c: "cluster_inv c" "K \<le> length (c_remotes c)" "NewRemoteNode addr (w, c) = ((w', c'), r)"
  have "pool_ok \<lparr>rn_pool = NewConnectionPool addr 10 10000, rn_isStarted = False\<rparr>"
    using represents_New by (auto simp: pool_ok_def)
  with c show "cluster_inv c' \<and> length (c_remotes c) \<le> length (c_remotes c') \<and>
      (case r of Ret a \<Rightarrow> valid a (length (c_remotes c')) | Err e \<Rightarrow> True | Panic x \<Rightarrow> False)"
    by (force simp: NewRemoteNode_def cbind_def cget_def cmod_def creturn_def cluster_inv_def valid_def)
qed

lemma cok_NewRemoteNodeInfo [cok_intros]: "cok K valid (NewRemoteNodeInfo nid dc token name addr)"
  unfolding NewRemoteNodeInfo_def
  by (rule cok_bind [OF cok_NewRemoteNode]) (auto intro!: cok_return simp: valid_def)

section \<open>Discovery and start\<close>

lemma AllNodes_subset: "set (Topology_AllNodes t) \<subseteq> topology_nodes t"
proof -
  have "set (fold (\<lambda>(_, ring) nodes. nodes @ Ring_AllNodes ring) rs ns) \<subseteq>
      set ns \<union> (\<Union>(dc, r) \<in> set rs. ring_nodes r)" for rs ns
    by (induction rs arbitrary: ns) (fastforce simp: Ring_AllNodes_def map_nth ring_nodes_def)+
  then show ?thesis unfolding Topology_AllNodes_def topology_nodes_def by fastforce
qed

lemma getRemoteNodes_valid:
  "cluster_inv c \<Longrightarrow> n \<in> set (getRemoteNodes c) \<Longrightarrow> valid n (length (c_remotes c))"
  using AllNodes_subset [of "c_topology c"]
  by (auto simp: getRemoteNodes_def cluster_inv_def valid_def is_remote_def)

lemma cok_discover_seeds [cok_intros]: "cok K (\<lambda>_ _. True) (discover_seeds N addrs)"
proof (induction addrs arbitrary: K)
  case (Cons addr addrs)
  have add: "cok L (\<lambda>_ _. True)
      (cbind (NewRemoteNode addr) (\<lambda>n.
       ccatch (cbind (RemoteNode_Start N n) (\<lambda>n. cbind (addNode N n) (\<lambda>_. creturn ()))) (\<lambda>_. creturn ())))" for L
  proof (rule cok_bind [OF cok_NewRemoteNode], rule cok_catch)
    fix n M assume n: "valid n M"
    show "cok M (\<lambda>_ _. True) (cbind (RemoteNode_Start N n) (\<lambda>n. cbind (addNode N n) (\<lambda>_. creturn ())))"
      by (rule cok_bind [OF cok_RemoteNode_Start [OF n]], rule cok_bind [OF cok_addNode])
        (use n in \<open>auto simp: valid_def intro: cok_return\<close>)
  qed (simp add: cok_return)
  have body: "cok L (\<lambda>_ _. True)
      (if known then creturn () else cbind (NewRemoteNode addr) (\<lambda>n.
       ccatch (cbind (RemoteNode_Start N n) (\<lambda>n. cbind (addNode N n) (\<lambda>_. creturn ()))) (\<lambda>_. creturn ())))" for L known
    using add by (simp add: cok_return)
  show ?case
    unfolding discover_seeds.simps
    by (rule cok_bind [OF cok_get [where Q = "\<lambda>_ _. True"]], simp, rule cok_bind [OF body Cons.IH])
qed (simp add: cok_return)

lemma cok_add_peers [cok_intros]: "cok K (\<lambda>_ _. True) (add_peers N peers)"
proof (induction peers arbitrary: K)
  case (Cons peer peers)
  show ?case
    unfolding add_peers.simps
    by (rule cok_bind [OF cok_NewRemoteNodeInfo], rule cok_bind [OF cok_addNode Cons.IH]) (simp add: valid_def)
qed (simp add: cok_return)

lemma cok_ask_peers [cok_intros]:
  "\<forall>n \<in> set ns. valid n K \<Longrightarrow> cok K (\<lambda>_ _. True) (ask_peers N ns)"
proof (induction ns arbitrary: K)
  case (Cons n ns)
  have rest: "cok L (\<lambda>_ _. True) (ask_peers N ns)" if "K \<le> L" for L
    using Cons that valid_mono by (metis list.set_intros(2))
  have "cok L (\<lambda>_ _. True) (cbind (RemoteNode_SendMessage N n (DiscoverPeersRequest nodeId)) (\<lambda>(n, response).
           case response of
             DiscoverPeerResponse peers \<Rightarrow> cbind (add_peers N peers) (\<lambda>_. ask_peers N ns)
           | _ \<Rightarrow> cfail (Errorf ''Unexpected message type. Expected *DiscoverPeerResponse, got %T'')))"
    if "K \<le> L" for L nodeId
  proof (rule cok_bind [OF cok_SendMessage], goal_cases)
    case 1 show ?case using Cons.prems that valid_mono by auto
  next
    case (2 a M)
    with that rest show ?case
      by (auto intro!: cok_fail cok_bind [OF cok_add_peers] split: cluster_msg.split)
  qed
  with rest show ?case
    unfolding ask_peers.simps by (intro cok_bind [OF cok_get [where Q = "\<lambda>_ _. True"]]) auto
qed (simp add: cok_return)

lemma cok_discoverPeers [cok_intros]: "cok K (\<lambda>_ _. True) (discoverPeers N)"
  unfolding discoverPeers_def
proof (rule cok_bind [OF cok_get [where Q = "\<lambda>_ _. True"]], simp, rule cok_bind [OF cok_discover_seeds],
    rule cok_bind [OF cok_get [where Q = "\<lambda>ns L. \<forall>n \<in> set ns. valid n L"]])
  show "\<forall>n \<in> set (getRemoteNodes c). valid n (length (c_remotes c))" if "cluster_inv c" for c
    using getRemoteNodes_valid [OF that] by blast
  show "cok L (\<lambda>_ _. True) (ask_peers N ns)" if "\<forall>n \<in> set ns. valid n L" for ns L
    using that by (rule cok_ask_peers)
qed

lemma cok_start_nodes [cok_intros]:
  "\<forall>n \<in> set ns. node_ref n \<le> K \<Longrightarrow> cok K (\<lambda>_ _. True) (start_nodes N ns)"
proof (induction ns arbitrary: K)
  case (Cons n ns)
  have rest: "cok L (\<lambda>_ _. True) (start_nodes N ns)" if "K \<le> L" for L
    using Cons that le_trans by (metis list.set_intros(2))
  have body: "cok L (\<lambda>_ _. True) (if \<not> started then cbind (Node_Start N n) (\<lambda>_. creturn ()) else creturn ())"
    if "K \<le> L" for started L
  proof -
    have "cok L (\<lambda>_ _. True) (cbind (Node_Start N n) (\<lambda>_. creturn ()))"
      by (rule cok_bind [OF cok_Node_Start]) (use Cons.prems that in \<open>auto intro: cok_return\<close>)
    then show ?thesis by (simp add: cok_return)
  qed
  show ?case
    unfolding start_nodes.simps
    by (rule cok_bind [OF cok_get [where Q = "\<lambda>_ _. True"]], simp, rule cok_bind [OF body]) (auto intro: rest)
qed (simp add: cok_return)

lemma AllLocalNodes_inv:
  assumes "cluster_inv c"
  shows "\<exists>ns. AllLocalNodes (c_topology c) = Ret ns \<and> ns \<noteq> [] \<and> (\<forall>n \<in> set ns. node_ref n \<le> length (c_remotes c))"
proof -
  from assms obtain r where r: "map_of (rings (c_topology c)) (c_dcId c) = Some r" "has_local (c_nodeId c) r"
    and t: "localDcID (c_topology c) = c_dcId c"
    and refs: "\<forall>n \<in> topology_nodes (c_topology c). node_ref n \<le> length (c_remotes c)"
    by (auto simp: cluster_inv_def)
  have "set (tokenRing r) \<subseteq> topology_nodes (c_topology c)"
    using map_of_SomeD [OF r(1)] by (fastforce simp: topology_nodes_def ring_nodes_def)
  moreover have "tokenRing r \<noteq> []" using r(2) by (auto simp: has_local_def)
  ultimately show ?thesis
    using r t refs by (auto simp: AllLocalNodes_def Ring_AllNodes_def map_nth)
qed

lemma cok_Cluster_Start:
  assumes "cluster_inv c" and "Cluster_Start N listen (w, c) = ((w', c'), r)"
  shows "cluster_inv c' \<and> length (c_remotes c) \<le> length (c_remotes c') \<and> r \<noteq> Panic x"
proof -
  from AllLocalNodes_inv [OF assms(1)] obtain ns where ns: "AllLocalNodes (c_topology c) = Ret ns" "ns \<noteq> []"
    "\<forall>n \<in> set ns. node_ref n \<le> length (c_remotes c)" by blast
  let ?rest = "cbind (PeerServer_Start listen) (\<lambda>_. cbind (start_nodes N ns) (\<lambda>_.
    cbind (discoverPeers N) (\<lambda>_. cmod (\<lambda>c. c\<lparr>c_status := CLUSTER_NORMAL\<rparr>))))"
  have run: "?rest (w, c) = ((w', c'), r)"
    using assms(2) ns(1,2) by (simp add: Cluster_Start_def Let_def)
  have status: "cok L (\<lambda>_ _. True) (cmod (\<lambda>c. c\<lparr>c_status := CLUSTER_NORMAL\<rparr>))" for L
    by (rule cok_mod) (simp add: cluster_inv_def)
  have "cok L (\<lambda>_ _. True) (PeerServer_Start listen)" for L
    by (cases listen) (auto simp: PeerServer_Start_def cluster_inv_def intro!: cok_mod cok_fail)
  then have "cok (length (c_remotes c)) (\<lambda>_ _. True) ?rest"
    by (rule cok_bind, intro cok_bind [OF cok_start_nodes] cok_bind [OF cok_discoverPeers] status)
      (use ns(3) in force)
  from cokD [OF this assms(1) _ run] show ?thesis by simp
qed

section \<open>The server and whole runs\<close>

text \<open>The requests for which the server has no implementation.\<close>

definition unimplemented :: "bytes \<Rightarrow> bool" where
  "unimplemented bs =
     (case ReadMessage cluster_constructors bs of
        Inl _ \<Rightarrow> False
      | Inr (m, _) \<Rightarrow>
          cluster_GetType m \<in> {READ_REQUEST, WRITE_REQUEST, STREAM_DATA_REQUEST, STREAM_COMPLETE_REQUEST})"

lemma cok_refuse [cok_intros]: "cok K (\<lambda>_ _. True) (refuse N sock reason)"
  unfolding refuse_def by (rule cok_catch [OF cok_write]) (simp add: cok_return)

lemma cok_accept_connection [cok_intros]: "cok K (\<lambda>_ _. True) (accept_connection N sock bs)"
proof -
  have acc: "cok K (\<lambda>_ _. True)
      (cbind (cget acceptance) (\<lambda>msg.
       cbind (write_message N sock msg) (\<lambda>_.
       cbind (NewRemoteNodeInfo nid dc token name addr) (\<lambda>n.
       ccatch (addNode N n) (\<lambda>_. cget (\<lambda>c. deref c n))))))" for nid dc token name addr
  proof (rule cok_bind [OF cok_get [where Q = "\<lambda>_ _. True"]], simp, rule cok_bind [OF cok_write],
      rule cok_bind [OF cok_NewRemoteNodeInfo], rule cok_catch)
    show "cok L (\<lambda>_ _. True) (addNode N n)" if "valid n L" for n L
      by (rule cok_weaken [OF cok_addNode]) (use that in \<open>auto simp: valid_def\<close>)
  qed (simp add: cok_get)
  have "cok K (\<lambda>_ _. True) (cbind (refuse N sock reason) (\<lambda>_. cfail e))" for reason e
    by (rule cok_bind [OF cok_refuse]) (rule cok_fail)
  with acc show ?thesis
    by (auto simp: accept_connection_def split: sum.split cluster_msg.split)
qed

lemma cok_executeRequest:
  "cluster_GetType m \<notin> {READ_REQUEST, WRITE_REQUEST, STREAM_DATA_REQUEST, STREAM_COMPLETE_REQUEST} \<Longrightarrow>
     cok K (\<lambda>_ _. True) (executeRequest n m)"
  unfolding executeRequest_def Let_def
  by (auto simp: cluster_inv_def intro!: cok_get cok_fail cok_return cok_bind [OF cok_mod])

lemma cok_serve_loop:
  "\<forall>bs \<in> set inputs. \<not> unimplemented bs \<Longrightarrow> cok K (\<lambda>_ _. True) (serve_loop N sock n inputs)"
proof (induction inputs arbitrary: K)
  case (Cons bs inputs)
  have "cok K (\<lambda>_ _. True) (serve_request N sock n bs)"
    using Cons.prems
    by (auto simp: serve_request_def unimplemented_def intro!: cok_fail cok_bind [OF cok_executeRequest] cok_write
        split: sum.splits)
  then show ?case unfolding serve_loop.simps by (rule cok_bind) (use Cons in simp)
qed (simp add: cok_fail)

lemma cok_handleConnection:
  assumes "\<forall>bs \<in> set (tl inputs). \<not> unimplemented bs"
  shows "cok K (\<lambda>_ _. True) (handleConnection N sock inputs)"
  using assms
  by (cases inputs) (auto simp: handleConnection_def intro!: cok_bind [OF cok_accept_connection] cok_fail cok_serve_loop)

lemma cok_stop_nodes:
  "\<forall>n \<in> set ns. node_ref n \<le> K \<Longrightarrow> cok K (\<lambda>_ _. True) (stop_nodes ns)"
proof (induction ns arbitrary: K)
  case (Cons n ns)
  have "cok K (\<lambda>_ _. True) (Node_Stop n)"
  proof (cases "is_remote n")
    case True
    then have "valid n K" using Cons.prems by (simp add: valid_def is_remote_def)
    then show ?thesis
      using True valid_mono remote_ok
      by (auto simp: Node_Stop_def RemoteNode_Stop_def pool_ok_def intro!: cok_mod cluster_inv_put_remote)
  next
    case False
    then show ?thesis by (auto simp: Node_Stop_def LocalNode_Stop_def cluster_inv_def intro!: cok_mod)
  qed
  then show ?case
    unfolding stop_nodes.simps by (rule cok_bind) (use Cons in \<open>auto intro!: Cons.IH intro: le_trans\<close>)
qed (simp add: cok_return)

lemma cok_Cluster_Stop:
  assumes "cluster_inv c" and "Cluster_Stop (w, c) = ((w', c'), r)"
  shows "cluster_inv c' \<and> length (c_remotes c) \<le> length (c_remotes c') \<and> r \<noteq> Panic x"
proof -
  let ?c = "c\<lparr>c_isRunning := False\<rparr>"
  have inv: "cluster_inv ?c" using assms(1) by (simp add: cluster_inv_def)
  from AllLocalNodes_inv [OF assms(1)] obtain ns where ns: "AllLocalNodes (c_topology c) = Ret ns"
    "\<forall>n \<in> set ns. node_ref n \<le> length (c_remotes c)" by blast
  have "stop_nodes ns (w, ?c) = ((w', c'), r)"
    using assms ns(1) by (simp add: Cluster_Stop_def PeerServer_Stop_def cbind_assoc cluster_inv_def)
  from cokD [OF cok_stop_nodes [OF ns(2)] inv _ this] show ?thesis by simp
qed

text \<open>
  What happens to a cluster: it is started and stopped, and other nodes connect to it and send
  what they like.  Errors of these calls end in the log.
\<close>

datatype call =
    StartCall "error option"
  | StopCall
  | ConnectionCall nat "bytes list"

fun run_call :: "'w Net \<Rightarrow> call \<Rightarrow> ('w, unit) cproc" where
  "run_call N (StartCall listen) = Cluster_Start N listen"
| "run_call N StopCall = Cluster_Stop"
| "run_call N (ConnectionCall sock inputs) = handleConnection N sock inputs"

fun run_calls :: "'w Net \<Rightarrow> call list \<Rightarrow> ('w, unit) cproc" where
  "run_calls N [] = creturn ()"
| "run_calls N (call # calls) = cbind (ccatch (run_call N call) (\<lambda>_. creturn ())) (\<lambda>_. run_calls N calls)"

fun answerable :: "call \<Rightarrow> bool" where
  "answerable (ConnectionCall sock inputs) \<longleftrightarrow> (\<forall>bs \<in> set (tl inputs). \<not> unimplemented bs)"
| "answerable _ \<longleftrightarrow> True"

lemma cok_no_panic:
  assumes "\<And>w c w' c' r x. cluster_inv c \<Longrightarrow> p (w, c) = ((w', c'), r) \<Longrightarrow>
    cluster_inv c' \<and> length (c_remotes c) \<le> length (c_remotes c') \<and> r \<noteq> Panic x"
  shows "cok K (\<lambda>_ _. True) p"
  by (rule cokI) (use assms in \<open>auto split: outcome.split\<close>)

lemma cok_run_call:
  assumes "answerable call"
  shows "cok K (\<lambda>_ _. True) (run_call N call)"
proof (cases call)
  case (StartCall listen)
  then show ?thesis by (auto intro: cok_no_panic [OF cok_Cluster_Start])
next
  case StopCall
  then show ?thesis by (auto intro: cok_no_panic [OF cok_Cluster_Stop])
next
  case (ConnectionCall sock inputs)
  with assms show ?thesis by (simp add: cok_handleConnection)
qed

lemma cok_run_calls: "list_all answerable calls \<Longrightarrow> cok K (\<lambda>_ _. True) (run_calls N calls)"
proof (induction calls arbitrary: K)
  case (Cons call calls)
  have "cok K (\<lambda>_ _. True) (ccatch (run_call N call) (\<lambda>_. creturn ()))"
    by (rule cok_catch [OF cok_run_call]) (use Cons.prems in \<open>auto intro: cok_return\<close>)
  then show ?case unfolding run_calls.simps by (rule cok_bind) (use Cons in simp)
qed (simp add: cok_return)

lemma run_calls_not_Err: "run_calls N calls s \<noteq> (s', Err e)"
  by (induction calls arbitrary: s)
    (auto simp: creturn_def cbind_def ccatch_def split: prod.splits outcome.splits)

lemma start_listening:
  assumes "cluster_inv (c\<lparr>c_listening := True\<rparr>)"
  shows "run_calls N (StartCall None # calls) (w, c\<lparr>c_listening := True\<rparr>) =
    run_calls N (StartCall None # calls) (w, c)"
  using AllLocalNodes_inv [OF assms]
  by (auto simp add: Cluster_Start_def PeerServer_Start_def cbind_def ccatch_def cget_def cout_def cmod_def Let_def)

lemma cluster_inv_New:
  assumes "NewCluster store addr name token nodeId dcId rf prtnr seeds = Inr c"
  shows "cluster_inv (c\<lparr>c_listening := True\<rparr>)"
proof -
  let ?n = "NewLocalNode nodeId dcId token name"
  have "sort_Sort node_Less [?n] = [?n]" by (simp add: sort_Sort_def)
  with assms show ?thesis
    by (auto simp: NewCluster_def cluster_inv_def Topology_AddNode_def NewTopology_def ensure_ring_def
        Ring_AddNode_def NewRing_def refreshRing_def NewLocalNode_def topology_nodes_def ring_nodes_def
        has_local_def Let_def split: if_splits option.splits)
qed

section \<open>Properties\<close>

text \<open>
  C17: a cluster survives its network.  When a new cluster has been started, then for every
  sequence of starts, stops and incoming connections, whatever the network does with dialled connections and whatever
  bytes other nodes send, as long as these are no requests that the server has no
  implementation for: no call panics, the connection pools stay queues, every node pointer
  stays valid, and the local node stays in the ring of its datacenter.
\<close>

theorem cluster_survives_network:
  assumes "NewCluster store addr name token nodeId dcId rf prtnr seeds = Inr c"
    and "list_all answerable calls" and "run_calls N (StartCall None # calls) (w, c) = ((w', c'), r)"
  shows "r = Ret () \<and> cluster_inv c'"
proof -
  let ?calls = "StartCall None # calls"
  have run: "run_calls N ?calls (w, c\<lparr>c_listening := True\<rparr>) = ((w', c'), r)"
    using assms(3) unfolding start_listening [OF cluster_inv_New [OF assms(1)]] .
  have "list_all answerable ?calls" using assms(2) by simp
  from cokD [OF cok_run_calls [OF this] cluster_inv_New [OF assms(1)] le0 run]
    run_calls_not_Err [of N ?calls] assms(3) show ?thesis by (cases r) auto
qed

text \<open>A network on which nobody answers.\<close>

definition dead_net :: "unit Net" where
  "dead_net = \<lparr>net_dial = (\<lambda>w addr timeout. (w, Inl (Errorf ''connection refused''))),
     net_write = (\<lambda>w sock bs. (w, None)), net_read = (\<lambda>w sock. (w, []))\<rparr>"

definition ex_cluster :: "string \<Rightarrow> nat \<Rightarrow> string list \<Rightarrow> Cluster" where
  "ex_cluster addr k seeds =
     projr (NewCluster NewKVStore addr ''n'' [of_nat k] \<lparr>b0 = 0, b1 = of_nat k\<rparr> ''DC1'' 3 (Some string_bytes) seeds)"

lemma ex_cluster_New:
  "NewCluster NewKVStore addr ''n'' [of_nat k] \<lparr>b0 = 0, b1 = of_nat k\<rparr> ''DC1'' 3 (Some string_bytes) seeds =
     Inr (ex_cluster addr k seeds)"
  by (simp add: ex_cluster_def NewCluster_def)

theorem cluster_survives_network_witness:
  "\<exists>c'. run_calls dead_net [StartCall None, ConnectionCall 0 [[], []], StopCall] ((), ex_cluster ''a'' 1 [''b'']) =
     (((), c'), Ret ()) \<and> cluster_inv c'"
proof -
  let ?calls = "[ConnectionCall 0 [[], []], StopCall]"
  obtain w' c' r where run: "run_calls dead_net (StartCall None # ?calls) ((), ex_cluster ''a'' 1 [''b'']) = ((w', c'), r)"
    by (metis surj_pair)
  have "list_all answerable ?calls" by (simp add: unimplemented_def ReadMessage_def rbind_def)
  from cluster_survives_network [OF ex_cluster_New this run] run show ?thesis by simp
qed

text \<open>
  The exception: a peer that sends a read, a write, streamed data or the end of a stream makes
  the server panic.
\<close>

theorem unimplemented_request_panics:
  assumes "cluster_ok m"
    and "cluster_GetType m \<in> {READ_REQUEST, WRITE_REQUEST, STREAM_DATA_REQUEST, STREAM_COMPLETE_REQUEST}"
  shows "serve_request N sock n (WriteMessage cluster_GetType cluster_Serialize m) s = (s, Panic ''unreachable'')"
proof -
  have "ReadMessage cluster_constructors (WriteMessage cluster_GetType cluster_Serialize m) = Inr (m, [])"
    using cluster_messages.framed.roundtrip_end [OF assms(1)] .
  moreover have "executeRequest n m s = (s, Panic ''unreachable'')"
    using assms(2) by (auto simp: executeRequest_def cluster_type_defs cpanic_def)
  ultimately show ?thesis by (simp add: serve_request_def cbind_def)
qed

end
