(* ===== verification/Streaming.thy ===== *)
theory Streaming
  imports ClusterInv
begin

text \<open>
  Requests to a peer that answers, and what they add up to: the contract of a network on which
  a connection is answered, the result of sending a request over a pooled connection under
  this contract, and the streaming of the keys that another node replicates.
\<close>

section \<open>A connection that is answered\<close>

text \<open>
  \<open>up w s\<close>: the socket \<open>s\<close> is connected to a peer.  \<open>answer w s m\<close> is the message that the peer sends
  when it gets \<open>m\<close>, if it sends one, and the network afterwards.
\<close>

locale answering =
  fixes N :: "'w Net"
    and up :: "'w \<Rightarrow> nat \<Rightarrow> bool"
    and answer :: "'w \<Rightarrow> nat \<Rightarrow> cluster_msg \<Rightarrow> 'w \<times> cluster_msg option"
  assumes exchange: "up w s \<Longrightarrow> cluster_ok m \<Longrightarrow> answer w s m = (w', Some r) \<Longrightarrow> cluster_ok r \<Longrightarrow>
      \<exists>w1. net_write N w s (WriteMessage cluster_GetType cluster_Serialize m) = (w1, None) \<and>
        net_read N w1 s = (w', WriteMessage cluster_GetType cluster_Serialize r)"
    and stays_up: "up w s \<Longrightarrow> answer w s m = (w', Some r) \<Longrightarrow> up w' s"
begin

lemma write_read:
  assumes "up w s" and "cluster_ok m" and "answer w s m = (w', Some r)" and "cluster_ok r"
  shows "cbind (write_message N s m) (\<lambda>_. read_message N s) (w, c) = ((w', c), Ret r)"
  using exchange [OF assms] cluster_messages.framed.roundtrip_end [OF assms(4)]
  by (auto simp: cbind_def write_message_def read_message_def)

text \<open>A request over a connection that the pool holds.\<close>

lemma send_pooled:
  assumes "valid n (length (c_remotes c))" and "represents (rn_pool (remote c n)) (conn # q)"
    and "completedHandshake conn" and "\<not> isClosed conn"
    and "up w (socket conn)" and "cluster_ok m" and "answer w (socket conn) m = (w', Some r)" and "cluster_ok r"
  shows "\<exists>rs. RemoteNode_SendMessage N n m (w, c) =
      ((w', put_node (n\<lparr>node_status := NODE_UP\<rparr>) (c\<lparr>c_remotes := rs\<rparr>)), Ret (n\<lparr>node_status := NODE_UP\<rparr>, r)) \<and>
    length rs = length (c_remotes c) \<and> represents (rn_pool (rs ! (node_ref n - 1))) (q @ [conn]) \<and>
    up w' (socket conn)"
proof -
  let ?i = "node_ref n - 1" and ?n = "n\<lparr>node_status := NODE_UP\<rparr>"
  have i: "?i < length (c_remotes c)" using assms(1) by (auto simp: valid_def)
  let ?dial = "\<lambda>addr timeout. snd (net_dial N w addr timeout)"
  obtain cp x where g: "Get ?dial (rn_pool (remote c n)) = (cp, x)" by fastforce
  from Get_refines [OF assms(2) g] have x: "x = Inr conn" and cp: "represents cp q"
    and cap: "cp_maxConn cp = cp_maxConn (rn_pool (remote c n))"
    by (auto simp: q_get_def)
  have pooled: "cp_pool (rn_pool (remote c n)) \<noteq> None"
    using assms(2) by (auto simp: represents_def pool_rep_def)
  let ?rs = "(c_remotes c)[?i := (remote c n)\<lparr>rn_pool := cp\<rparr>]"
  have get: "getConnection N n (w, c) = ((w, c\<lparr>c_remotes := ?rs\<rparr>), Ret (n, conn))"
    using g x assms(3) pooled
    by (auto simp: getConnection_def pool_get_def put_remote_def Let_def HandshakeCompleted_def creturn_def
        cbind_def)
  have room: "length q < unat (cp_maxConn cp)"
    using assms(2) cap by (auto simp: represents_def pool_rep_def)
  from Put_refines [OF cp, of conn] room assms(4) obtain cp' where
    put: "Put cp conn = Ret (cp', conn)" "represents cp' (q @ [conn])"
    by (auto simp: q_put_def)
  let ?rs' = "?rs[?i := (?rs ! ?i)\<lparr>rn_pool := cp'\<rparr>]"
  have "RemoteNode_SendMessage N n m (w, c) = ((w', put_node ?n (c\<lparr>c_remotes := ?rs'\<rparr>)), Ret (?n, r))"
    using write_read [OF assms(5,6,7,8), of "c\<lparr>c_remotes := ?rs\<rparr>"] get put i
    by (simp add: RemoteNode_SendMessage_def cbind_run ccatch_run cbind_pool_put remote_def put_remote_def
        creturn_def put_node_def)
  then show ?thesis using put(2) i stays_up [OF assms(5,7)] by (intro exI [of _ ?rs']) simp
qed

end

section \<open>The replicas of a key while a node changes its status\<close>

lemma search_loop_cong: "\<forall>k < j. f k = g k \<Longrightarrow> search_loop f i j = search_loop g i j"
proof (induction f i j rule: search_loop.induct)
  case (1 f i j)
  show ?case
  proof (cases "i < j")
    case True
    let ?h = "i + (j - i) div 2"
    have h: "?h < j" using True by linarith
    with 1 True have "search_loop f (?h + 1) j = search_loop g (?h + 1) j" if "\<not> f ?h"
      using that by simp
    moreover have "search_loop f i ?h = search_loop g i ?h" if "f ?h"
      using 1 True h that by simp
    ultimately show ?thesis
      using True h 1(3) by (simp add: search_loop.simps [of f i j] search_loop.simps [of g i j] Let_def)
  qed (simp add: search_loop.simps [of f i j] search_loop.simps [of g i j])
qed

lemma replicas_ids_cong:
  assumes "map node_token (tokenRing r') = map node_token (tokenRing r)"
    and "map node_id (tokenRing r') = map node_id (tokenRing r)"
  shows "map node_id (Ring_GetNodesForToken r' t rf) = map node_id (Ring_GetNodesForToken r t rf)"
proof -
  let ?n = "length (tokenRing r)"
  have len: "length (tokenRing r') = ?n" using map_eq_imp_length_eq [OF assms(1)] .
  have tok: "node_token (tokenRing r' ! k) = node_token (tokenRing r ! k)" if "k < ?n" for k
    using arg_cong [OF assms(1), of "\<lambda>xs. xs ! k"] that len by simp
  have ids: "node_id (tokenRing r' ! k) = node_id (tokenRing r ! k)" if "k < ?n" for k
    using arg_cong [OF assms(2), of "\<lambda>xs. xs ! k"] that len by simp
  have start: "ring_start r' t = ring_start r t"
    unfolding ring_start_def sort_Search_def len by (rule search_loop_cong) (simp add: tok)
  show ?thesis
  proof (cases "?n = 0")
    case True
    then show ?thesis by (simp add: Ring_GetNodesForToken_alt len)
  next
    case False
    then show ?thesis by (simp add: Ring_GetNodesForToken_alt len start ids)
  qed
qed

text \<open>\<open>n\<close> agrees with what the topology holds under its pointer.\<close>

definition refers :: "Cluster \<Rightarrow> Node \<Rightarrow> bool" where
  "refers c n \<longleftrightarrow>
     (\<forall>x \<in> topology_nodes (c_topology c). node_ref x = node_ref n \<longrightarrow>
        node_id x = node_id n \<and> node_token x = node_token n)"

lemma refers_put:
  assumes "refers c n" and "node_ref n' = node_ref n" and "node_id n' = node_id n" and "node_token n' = node_token n"
  shows "refers (put_node n' (c\<lparr>c_remotes := rs\<rparr>)) n'"
  using assms topology_nodes_put [of _ n' "c\<lparr>c_remotes := rs\<rparr>"] unfolding refers_def by fastforce

lemma replicates_put:
  assumes "refers c n" and "node_ref n' = node_ref n" and "node_id n' = node_id n" and "node_token n' = node_token n"
  shows "replicates (put_node n' (c\<lparr>c_remotes := rs\<rparr>)) n' key = replicates c n key"
proof (cases "map_of (rings (c_topology c)) (localDcID (c_topology c))")
  case None
  then show ?thesis
    by (simp add: replicates_def GetLocalNodesForKey_def GetLocalNodesForToken_def put_node_def map_of_rings)
next
  case (Some r)
  have "x \<in> topology_nodes (c_topology c)" if "x \<in> set (tokenRing r)" for x
    using map_of_SomeD [OF Some] that by (auto simp: topology_nodes_def ring_nodes_def)
  then have same: "node_id (subst_node n' x) = node_id x \<and> node_token (subst_node n' x) = node_token x"
    if "x \<in> set (tokenRing r)" for x
    using assms that by (auto simp: refers_def subst_node_def)
  have ids: "map node_id (Ring_GetNodesForToken (ring_put n' r) t rf) =
      map node_id (Ring_GetNodesForToken r t rf)" for t rf
    by (rule replicas_ids_cong) (use same in \<open>simp_all add: ring_put_def\<close>)
  have any: "list_ex (\<lambda>x. node_id x = k) xs \<longleftrightarrow> k \<in> set (map node_id xs)" for k xs
    by (auto simp: list_ex_iff)
  have put: "GetLocalNodesForKey (put_node n' (c\<lparr>c_remotes := rs\<rparr>)) key =
      Ring_GetNodesForToken (ring_put n' r) (partitioner (c_topology c) key) (ucast (replicationFactor (c_topology c)))"
    using Some by (simp add: GetLocalNodesForKey_def GetLocalNodesForToken_def put_node_def map_of_rings)
  have "GetLocalNodesForKey c key =
      Ring_GetNodesForToken r (partitioner (c_topology c) key) (ucast (replicationFactor (c_topology c)))"
    using Some by (simp add: GetLocalNodesForKey_def GetLocalNodesForToken_def)
  with put ids assms(3) show ?thesis unfolding replicates_def any by simp
qed

section \<open>Streaming to a peer that acknowledges\<close>

text \<open>The network of a peer that notes the messages it gets and acknowledges those of a stream.\<close>

fun ack :: "cluster_msg \<Rightarrow> cluster_msg" where
  "ack (StreamDataRequest _) = StreamDataResponse"
| "ack StreamCompleteRequest = StreamCompleteResponse"
| "ack m = m"

definition ack_net :: "cluster_msg list Net" where
  "ack_net =
     \<lparr>net_dial = (\<lambda>w addr timeout. (w, Inl (Errorf ''connection refused''))),
      net_write = (\<lambda>w sock bs.
        case ReadMessage cluster_constructors bs of Inl e \<Rightarrow> (w, Some e) | Inr (m, _) \<Rightarrow> (w @ [m], None)),
      net_read = (\<lambda>w sock. (w, WriteMessage cluster_GetType cluster_Serialize (ack (last w))))\<rparr>"

interpretation acks: answering ack_net "\<lambda>w s. True" "\<lambda>w s m. (w @ [m], Some (ack m))"
proof
  show "\<exists>w1. net_write ack_net w s (WriteMessage cluster_GetType cluster_Serialize m) = (w1, None) \<and>
      net_read ack_net w1 s = (w', WriteMessage cluster_GetType cluster_Serialize r)"
    if "cluster_ok m" "(w @ [m], Some (ack m)) = (w', Some r)" for w s m w' r
    using cluster_messages.framed.roundtrip_end [OF that(1)] that(2) by (auto simp: ack_net_def)
qed simp

definition stream_ready :: "Cluster \<Rightarrow> Node \<Rightarrow> Connection \<Rightarrow> bool" where
  "stream_ready c n conn \<longleftrightarrow>
     valid n (length (c_remotes c)) \<and> represents (rn_pool (remote c n)) [conn] \<and>
     completedHandshake conn \<and> \<not> isClosed conn \<and> refers c n"

definition store_ok :: "KVStore \<Rightarrow> bool" where
  "store_ok s \<longleftrightarrow>
     (\<forall>k v. kv_data s k = Some v \<longrightarrow> fits32 k \<and> Value_ok v \<and> fits32 (SerializeValue v))"

definition stream_message :: "KVStore \<Rightarrow> string \<Rightarrow> cluster_msg" where
  "stream_message s key = StreamDataRequest [\<lparr>sd_Key = key, sd_Data = SerializeValue (the (kv_data s key))\<rparr>]"

lemma send_ready:
  assumes "stream_ready c n conn" and "cluster_ok m" and "cluster_ok (ack m)"
  shows "\<exists>c' n'. RemoteNode_SendMessage ack_net n m (ws, c) = ((ws @ [m], c'), Ret (n', ack m)) \<and>
    stream_ready c' n' conn \<and> c_store c' = c_store c \<and> (\<forall>key. replicates c' n' key = replicates c n key)"
proof -
  let ?n = "n\<lparr>node_status := NODE_UP\<rparr>"
  from acks.send_pooled [where n = n and c = c and conn = conn and q = "[]" and w = ws and m = m] assms obtain rs where
    run: "RemoteNode_SendMessage ack_net n m (ws, c) =
      ((ws @ [m], put_node ?n (c\<lparr>c_remotes := rs\<rparr>)), Ret (?n, ack m))"
    and rs: "length rs = length (c_remotes c)" "represents (rn_pool (rs ! (node_ref n - 1))) [conn]"
    by (auto simp: stream_ready_def)
  have "stream_ready (put_node ?n (c\<lparr>c_remotes := rs\<rparr>)) ?n conn"
    using assms(1) rs refers_put [of c n ?n rs] by (simp add: stream_ready_def valid_def remote_def)
  moreover have "replicates (put_node ?n (c\<lparr>c_remotes := rs\<rparr>)) ?n key = replicates c n key" for key
    using assms(1) by (intro replicates_put) (simp_all add: stream_ready_def)
  ultimately show ?thesis using run by (auto simp: put_node_def)
qed

lemma stream_message_ok: "store_ok s \<Longrightarrow> kv_data s key = Some v \<Longrightarrow> cluster_ok (stream_message s key)"
  by (auto simp: stream_message_def store_ok_def StreamData_ok_def fits32_def)

lemma stream_keys_run:
  assumes "stream_ready c n conn" and "store_ok (c_store c)" and "set keys \<subseteq> dom (kv_data (c_store c))"
  shows "\<exists>c' n'. stream_keys ack_net n keys (ws, c) =
      ((ws @ map (stream_message (c_store c)) (filter (replicates c n) keys), c'), Ret n') \<and>
    stream_ready c' n' conn"
  using assms
proof (induction keys arbitrary: ws c n)
  case Nil
  then show ?case by (auto simp: creturn_def)
next
  case (Cons key keys)
  show ?case
  proof (cases "replicates c n key")
    case False
    with Cons.IH [of c n ws] Cons.prems show ?thesis by simp
  next
    case True
    let ?m = "stream_message (c_store c) key"
    obtain v where v: "kv_data (c_store c) key = Some v" using Cons.prems(3) by auto
    have "cluster_ok ?m" using Cons.prems(2) v by (rule stream_message_ok)
    from send_ready [OF Cons.prems(1) this, of ws] obtain c1 n1 where
      run: "RemoteNode_SendMessage ack_net n ?m (ws, c) = ((ws @ [?m], c1), Ret (n1, StreamDataResponse))"
      and c1: "stream_ready c1 n1 conn" "c_store c1 = c_store c" "\<forall>key. replicates c1 n1 key = replicates c n key"
      by (auto simp: stream_message_def)
    have "stream_keys ack_net n (key # keys) (ws, c) = stream_keys ack_net n1 keys (ws @ [?m], c1)"
      using True v run by (simp add: GetRawKey_def stream_message_def cbind_run)
    with Cons.IH [of c1 n1 "ws @ [?m]"] Cons.prems c1 True show ?thesis by simp
  qed
qed

lemma streamed_values:
  assumes "GetKeys s keys" and "P = replicates c n"
  shows "set (map (stream_message s) (filter P keys)) =
    {StreamDataRequest [\<lparr>sd_Key = k, sd_Data = SerializeValue v\<rparr>] | k v. kv_data s k = Some v \<and> P k}"
  using assms by (force simp: GetKeys_def stream_message_def dom_def image_def)

section \<open>Properties\<close>

text \<open>
  C28: a stream carries exactly the keys that the other node replicates.  If a node streams to
  a peer over a connection that is answered, it sends every key of its store that the peer
  replicates once, with a value that the peer decodes to the stored value, no other key, and
  then the end of the stream, in whatever order the store lists its keys.
\<close>

theorem stream_sends_replicas:
  assumes "stream_ready c n conn" and "store_ok (c_store c)" and "GetKeys (c_store c) keys"
  shows "\<exists>sent c'. streamToNode ack_net keys n (ws, c) = ((ws @ sent @ [StreamCompleteRequest], c'), Ret ()) \<and>
    distinct sent \<and>
    set sent = {StreamDataRequest [\<lparr>sd_Key = k, sd_Data = SerializeValue v\<rparr>] | k v.
      kv_data (c_store c) k = Some v \<and> replicates c n k} \<and>
    (\<forall>k v. kv_data (c_store c) k = Some v \<longrightarrow>
      DeserializeValue (SerializeValue v) = Inr (v, GetValueType v))"
proof -
  let ?sent = "map (stream_message (c_store c)) (filter (replicates c n) keys)"
  have keys: "distinct keys" "set keys \<subseteq> dom (kv_data (c_store c))"
    using assms(3) by (auto simp: GetKeys_def)
  from stream_keys_run [OF assms(1,2) keys(2), of ws] obtain c1 n1 where
    run: "stream_keys ack_net n keys (ws, c) = ((ws @ ?sent, c1), Ret n1)" and c1: "stream_ready c1 n1 conn"
    by blast
  from send_ready [OF c1, of StreamCompleteRequest "ws @ ?sent"] obtain c2 n2 where
    "RemoteNode_SendMessage ack_net n1 StreamCompleteRequest (ws @ ?sent, c1) =
      ((ws @ ?sent @ [StreamCompleteRequest], c2), Ret (n2, StreamCompleteResponse))" by auto
  then have "streamToNode ack_net keys n (ws, c) = ((ws @ ?sent @ [StreamCompleteRequest], c2), Ret ())"
    using run assms(1)
    by (simp add: streamToNode_def is_remote_def stream_ready_def valid_def cbind_run creturn_def)
  moreover have "distinct ?sent"
    using keys(1) by (simp add: distinct_map inj_on_def stream_message_def)
  moreover have "DeserializeValue (SerializeValue v) = Inr (v, GetValueType v)"
    if "kv_data (c_store c) k = Some v" for k v
    using assms(2) that by (auto simp: store_ok_def intro: DeserializeValue_SerializeValue)
  ultimately show ?thesis
    using streamed_values [OF assms(3) refl, of c n] by blast
qed

definition ex_conn :: Connection where
  "ex_conn = \<lparr>socket = 0, conn_timeout = 1, isClosed = False, completedHandshake = True\<rparr>"

definition ex_pool :: ConnectionPool where
  "ex_pool = (NewConnectionPool ''b'' 10 10000)\<lparr>cp_size := 1, cp_pool := Some 0, cp_tail := Some 0,
     cp_heap := [\<lparr>h_conn = ex_conn, h_next = None\<rparr>]\<rparr>"

definition ex_remote_node :: Node where
  "ex_remote_node = (ex_node 2)\<lparr>node_addr := ''b'', node_ref := 1\<rparr>"

definition ex_streaming :: Cluster where
  "ex_streaming = (ex_cluster ''a'' 1 [])
     \<lparr>c_store := SetRawKey NewKVStore ''k'' (String ''v'' zero_Time),
      c_remotes := [\<lparr>rn_pool = ex_pool, rn_isStarted = True\<rparr>],
      c_topology := fst (Topology_AddNode (c_topology (ex_cluster ''a'' 1 [])) ex_remote_node)\<rparr>"

lemma ex_streaming_ready: "stream_ready ex_streaming ex_remote_node ex_conn"
proof -
  have "represents ex_pool [ex_conn]"
    by (auto simp: represents_def pool_rep_def ex_pool_def ex_conn_def NewConnectionPool_def Let_def
        intro!: exI [of _ "[0]"])
  moreover have "refers ex_streaming ex_remote_node"
    unfolding refers_def
  proof (intro ballI impI)
    fix x assume x: "x \<in> topology_nodes (c_topology ex_streaming)" "node_ref x = node_ref ex_remote_node"
    obtain t err where t: "Topology_AddNode (c_topology (ex_cluster ''a'' 1 [])) ex_remote_node = (t, err)"
      by fastforce
    have "\<forall>y \<in> topology_nodes (c_topology (ex_cluster ''a'' 1 [])). node_ref y = 0"
      using cluster_inv_New [OF ex_cluster_New [of "''a''" 1 "[]"]]
      by (simp add: cluster_inv_def) (simp add: ex_cluster_def NewCluster_def)
    with x topology_nodes_AddNode [OF t] t
    show "node_id x = node_id ex_remote_node \<and> node_token x = node_token ex_remote_node"
      by (auto simp: ex_streaming_def ex_remote_node_def)
  qed
  ultimately show ?thesis
    by (simp add: stream_ready_def valid_def ex_streaming_def remote_def ex_remote_node_def ex_conn_def)
qed

theorem stream_sends_replicas_witness:
  "\<exists>sent c'. streamToNode ack_net [''k''] ex_remote_node ([], ex_streaming) =
     ((sent @ [StreamCompleteRequest], c'), Ret ()) \<and> distinct sent"
proof -
  have "store_ok (c_store ex_streaming)"
    using kv_value.len [of "String ''v'' zero_Time"]
    by (auto simp: store_ok_def ex_streaming_def SetRawKey_def NewKVStore_def fits32_def SerializeValue_def NumTimeBytes_def
        split: if_splits)
  moreover have "GetKeys (c_store ex_streaming) [''k'']"
    by (auto simp: GetKeys_def ex_streaming_def SetRawKey_def NewKVStore_def)
  ultimately show ?thesis
    using stream_sends_replicas [OF ex_streaming_ready, of "[''k'']" "[]"] by auto
qed

end
