(* ===== verification/Joining.thy ===== *)
theory Joining
  imports Streaming
begin

text \<open>
  Two nodes: a cluster that starts, and a seed that runs the peer server of this
  development.  The network between them hands the bytes that the first one writes to
  \<^verbatim>\<open>handleConnection\<close> of the second one.
\<close>

section \<open>A node as a network\<close>

text \<open>
  What the server of a node writes is kept per socket.  The node cannot dial other nodes.
\<close>

definition serving_net :: "(nat \<Rightarrow> bytes) Net" where
  "serving_net =
     \<lparr>net_dial = (\<lambda>w addr timeout. (w, Inl (Errorf ''connection refused''))),
      net_write = (\<lambda>w sock bs. (w(sock := bs), None)), net_read = (\<lambda>w sock. (w, []))\<rparr>"

record Peer =
  pr_cluster :: Cluster
  pr_out :: "nat \<Rightarrow> bytes"
  pr_sessions :: "nat \<Rightarrow> Node option"
  pr_next :: nat

definition peer_write :: "Peer \<Rightarrow> nat \<Rightarrow> bytes \<Rightarrow> Peer" where
  "peer_write p sock bs =
     (case pr_sessions p sock of
        None \<Rightarrow>
          (case accept_connection serving_net sock bs ((pr_out p)(sock := []), pr_cluster p) of
             ((out, c), Ret n) \<Rightarrow>
               p\<lparr>pr_cluster := c, pr_out := out, pr_sessions := (pr_sessions p)(sock \<mapsto> n)\<rparr>
           | ((out, c), _) \<Rightarrow> p\<lparr>pr_cluster := c, pr_out := out\<rparr>)
      | Some n \<Rightarrow>
          (case serve_request serving_net sock n bs ((pr_out p)(sock := []), pr_cluster p) of
             ((out, c), _) \<Rightarrow> p\<lparr>pr_cluster := c, pr_out := out\<rparr>))"

definition peer_net :: "Peer Net" where
  "peer_net =
     \<lparr>net_dial = (\<lambda>p addr timeout.
        if addr = GetPeerAddr (pr_cluster p)
        then (p\<lparr>pr_next := Suc (pr_next p), pr_sessions := (pr_sessions p)(pr_next p := None)\<rparr>, Inr (pr_next p))
        else (p, Inl (Errorf ''connection refused''))),
      net_write = (\<lambda>p sock bs. (peer_write p sock bs, None)),
      net_read = (\<lambda>p sock. (p, pr_out p sock))\<rparr>"

text \<open>The answer of the node to a request on a connection that it has accepted.\<close>

definition peer_answer :: "Peer \<Rightarrow> nat \<Rightarrow> cluster_msg \<Rightarrow> Peer \<times> cluster_msg option" where
  "peer_answer p sock m =
     (case pr_sessions p sock of
        None \<Rightarrow> (p, None)
      | Some n \<Rightarrow>
          (case executeRequest n m ((pr_out p)(sock := []), pr_cluster p) of
             ((out, c), Ret r) \<Rightarrow>
               (p\<lparr>pr_cluster := c,
                  pr_out := out(sock := WriteMessage cluster_GetType cluster_Serialize r)\<rparr>, Some r)
           | _ \<Rightarrow> (p, None)))"

interpretation peers: answering peer_net "\<lambda>p sock. pr_sessions p sock \<noteq> None" peer_answer
proof
  fix p p' :: Peer and sock m r
  assume up: "pr_sessions p sock \<noteq> None" and m: "cluster_ok m" and a: "peer_answer p sock m = (p', Some r)"
  from up obtain n where n: "pr_sessions p sock = Some n" by blast
  obtain out c res where e: "executeRequest n m ((pr_out p)(sock := []), pr_cluster p) = ((out, c), res)"
    by (metis surj_pair)
  with a n have res: "res = Ret r" "p' = p\<lparr>pr_cluster := c,
      pr_out := out(sock := WriteMessage cluster_GetType cluster_Serialize r)\<rparr>"
    by (auto simp: peer_answer_def split: outcome.splits)
  have "peer_write p sock (WriteMessage cluster_GetType cluster_Serialize m) = p'"
    using n e res cluster_messages.framed.roundtrip_end [OF m]
    by (simp add: peer_write_def serve_request_def cbind_run write_message_def serving_net_def)
  then show "\<exists>w1. net_write peer_net p sock (WriteMessage cluster_GetType cluster_Serialize m) = (w1, None) \<and>
      net_read peer_net w1 sock = (p', WriteMessage cluster_GetType cluster_Serialize r)"
    using res by (simp add: peer_net_def)
next
  fix p p' :: Peer and sock m r
  assume "pr_sessions p sock \<noteq> None" and "peer_answer p sock m = (p', Some r)"
  then show "pr_sessions p' sock \<noteq> None"
    by (auto simp: peer_answer_def split: option.splits prod.splits outcome.splits)
qed

section \<open>Starting a node that has not been contacted\<close>

lemma connection_request_remotes [simp]: "connection_request (c\<lparr>c_remotes := rs\<rparr>) = connection_request c"
  by (simp add: connection_request_def GetNodeId_def GetDatacenterId_def GetPeerAddr_def GetName_def
      Cluster_GetToken_def)

definition new_conn :: "nat \<Rightarrow> Connection" where
  "new_conn sock = \<lparr>socket = sock, conn_timeout = 1, isClosed = False, completedHandshake = False\<rparr>"

lemma pool_get_fresh:
  assumes "valid n (length (c_remotes c))" and "represents (rn_pool (remote c n)) []"
    and "net_dial N w (cp_addr (rn_pool (remote c n))) 1 = (w1, Inr sock)"
  shows "pool_get N n (w, c) = ((w1, c), Ret (new_conn sock))"
proof -
  have "cp_pool (rn_pool (remote c n)) = None"
    using assms(2) by (auto simp: represents_def pool_rep_def)
  moreover have "put_remote n (remote c n) c = c"
    by (simp add: put_remote_def remote_def)
  ultimately show ?thesis
    using assms(3) by (simp add: pool_get_def Get_def Connect_def new_conn_def Let_def)
qed

lemma handshake_fresh:
  assumes "net_write N w1 sock (WriteMessage cluster_GetType cluster_Serialize (connection_request c)) = (w2, None)"
    and "net_read N w2 sock = (w3, WriteMessage cluster_GetType cluster_Serialize (ConnectionAccepted acc))"
    and "cluster_ok (ConnectionAccepted acc)"
  shows "handshake N n (new_conn sock) (w1, c) =
    ((w3, put_node (copy_accept n acc) c), Ret (copy_accept n acc, SetHandshakeCompleted (new_conn sock)))"
  using assms(1,2) cluster_messages.framed.roundtrip_end [OF assms(3)]
  by (simp add: handshake_def cbind_run ccatch_run write_message_def read_message_def new_conn_def creturn_def)

lemma start_fresh:
  assumes n: "valid n (length (c_remotes c))"
    and pool: "represents (rn_pool (remote c n)) []" "0 < unat (cp_maxConn (rn_pool (remote c n)))"
    and dial: "net_dial N w (cp_addr (rn_pool (remote c n))) 1 = (w1, Inr sock)"
    and hello: "net_write N w1 sock (WriteMessage cluster_GetType cluster_Serialize (connection_request c)) = (w2, None)"
      "net_read N w2 sock = (w3, WriteMessage cluster_GetType cluster_Serialize (ConnectionAccepted acc))"
      "cluster_ok (ConnectionAccepted acc)"
    and n': "n' = (copy_accept n acc)\<lparr>node_status := NODE_UP\<rparr>"
  shows "\<exists>rs. RemoteNode_Start N n (w, c) =
      ((w3, (put_node n' (put_node (copy_accept n acc) c))\<lparr>c_remotes := rs\<rparr>), Ret n') \<and>
    length rs = length (c_remotes c) \<and>
    represents (rn_pool (rs ! (node_ref n - 1))) [SetHandshakeCompleted (new_conn sock)]"
proof -
  let ?n = "copy_accept n acc" and ?conn = "SetHandshakeCompleted (new_conn sock)"
  let ?i = "node_ref n - 1"
  have i: "?i < length (c_remotes c)" using n by (auto simp: valid_def)
  have ref: "node_ref ?n = node_ref n" by (simp add: copy_accept_def)
  have get: "getConnection N n (w, c) = ((w3, put_node ?n c), Ret (?n, ?conn))"
    using pool_get_fresh [OF n pool(1) dial] handshake_fresh [OF hello, of n]
    by (simp add: getConnection_def cbind_run HandshakeCompleted_def new_conn_def)
  from Put_refines [OF pool(1), of ?conn] pool(2) obtain cp where
    put: "Put (rn_pool (remote c n)) ?conn = Ret (cp, ?conn)" "represents cp [?conn]"
    by (auto simp: q_put_def new_conn_def SetHandshakeCompleted_def)
  have r: "remote (put_node ?n c) ?n = remote c n" by (simp add: remote_def ref)
  let ?rs = "(c_remotes c)[?i := (remote c n)\<lparr>rn_pool := cp, rn_isStarted := True\<rparr>]"
  have "RemoteNode_Start N n (w, c) = ((w3, (put_node n' (put_node ?n c))\<lparr>c_remotes := ?rs\<rparr>), Ret n')"
    using get put(1) i
    by (simp add: RemoteNode_Start_def cbind_run cbind_pool_put r n' put_remote_def ref remote_def creturn_def
        put_node_def)
  then show ?thesis using put(2) i by (intro exI [of _ ?rs]) simp
qed

text \<open>
  The acceptance that a server sends leaves out its datacenter, so the first contact erases the
  datacenter of a node that is known from a list of peers, while it stays in the ring of the old one.
\<close>

theorem contact_erases_datacenter:
  assumes "valid n (length (c_remotes c))" and "node_status n = NODE_INITIALIZING"
    and "represents (rn_pool (remote c n)) []" and "0 < unat (cp_maxConn (rn_pool (remote c n)))"
    and "net_dial N w (cp_addr (rn_pool (remote c n))) 1 = (w1, Inr sock)"
    and "net_write N w1 sock (WriteMessage cluster_GetType cluster_Serialize (connection_request c)) = (w2, None)"
    and "net_read N w2 sock = (w3, WriteMessage cluster_GetType cluster_Serialize (acceptance b))"
    and "cluster_ok (acceptance b)"
  shows "\<exists>s n'. RemoteNode_Start N n (w, c) = (s, Ret n') \<and> node_id n' = GetNodeId b \<and> node_dcId n' = []"
  using start_fresh [OF assms(1,3-6) assms(7,8) [unfolded acceptance_def] refl] assms(2)
  by (force simp: copy_accept_def)

section \<open>The seed accepts a new node\<close>

text \<open>The node that the server creates for a connection request of \<open>c\<close>.\<close>

definition caller :: "Cluster \<Rightarrow> nat \<Rightarrow> Node" where
  "caller c ref =
     \<lparr>node_name = GetName c, node_addr = GetPeerAddr c, node_token = Cluster_GetToken c, node_id = GetNodeId c,
      node_dcId = GetDatacenterId c, node_status = NODE_INITIALIZING, node_ref = ref\<rparr>"

definition unknown_to :: "Cluster \<Rightarrow> Cluster \<Rightarrow> bool" where
  "unknown_to b a \<longleftrightarrow>
     (\<forall>r. map_of (rings (c_topology b)) (c_dcId a) = Some r \<longrightarrow> map_of (nodeMap r) (c_nodeId a) = None)"

text \<open>The topology of \<open>b\<close> after a connection request of \<open>a\<close>.\<close>

definition greeted :: "Cluster \<Rightarrow> Cluster \<Rightarrow> Topology" where
  "greeted b a = fst (Topology_AddNode (c_topology b) (caller a (Suc (length (c_remotes b)))))"

lemma set_AllNodes: "set (Topology_AllNodes t) = (\<Union>(dc, r) \<in> set (rings t). set (tokenRing r))"
proof -
  have "set (fold (\<lambda>(_, ring) nodes. nodes @ Ring_AllNodes ring) rs ns) =
      set ns \<union> (\<Union>(dc, r) \<in> set rs. set (tokenRing r))" for rs :: "(DatacenterID \<times> Ring) list" and ns
    by (induction rs arbitrary: ns) (auto simp: Ring_AllNodes_def map_nth)
  then show ?thesis by (simp add: Topology_AllNodes_def)
qed

lemma AddNode_unknown:
  assumes "\<And>r. map_of (rings t) (node_dcId n) = Some r \<Longrightarrow> map_of (nodeMap r) (node_id n) = None"
  shows "\<exists>t'. Topology_AddNode t n = (t', None) \<and> n \<in> set (Topology_AllNodes t')"
proof -
  let ?rs = "ensure_ring (node_dcId n) (rings t)"
  let ?r = "the (map_of ?rs (node_dcId n))"
  have "map_of (nodeMap ?r) (node_id n) = None"
    using assms by (auto simp: ensure_ring_def update_conv NewRing_def split: option.splits)
  then obtain r where r: "Ring_AddNode ?r n = Inr r" by (simp add: Ring_AddNode_def)
  from Ring_AddNode_Inr [OF r] have "n \<in> set (tokenRing r)" by simp
  moreover have "(node_dcId n, r) \<in> set (AList.update (node_dcId n) r ?rs)"
    by (rule map_of_SomeD) (simp add: update_conv)
  ultimately show ?thesis using r by (force simp: Topology_AddNode_def Let_def set_AllNodes)
qed

lemma dial_back_fails:
  assumes "rn_pool (remote c n) = NewConnectionPool addr 10 10000" and "is_remote n"
  shows "Node_Start serving_net n (out, c) = ((out, c), Err (Errorf ''connection refused''))"
proof -
  have "(remote c n)\<lparr>rn_pool := NewConnectionPool addr 10 10000\<rparr> = remote c n"
    using assms(1) by (cases "remote c n") simp
  then have "put_remote n ((remote c n)\<lparr>rn_pool := NewConnectionPool addr 10 10000\<rparr>) c = c"
    by (simp add: put_remote_def remote_def)
  then have "pool_get serving_net n (out, c) = ((out, c), Err (Errorf ''connection refused''))"
    using assms(1) by (simp add: pool_get_def Get_def Connect_def NewConnectionPool_def serving_net_def Let_def)
  then show ?thesis
    using assms(2) by (simp add: Node_Start_def RemoteNode_Start_def getConnection_def cbind_def)
qed

lemma accept_caller:
  assumes "cluster_ok (connection_request a)" and "unknown_to b a"
  shows "\<exists>b' n. accept_connection serving_net sock
      (WriteMessage cluster_GetType cluster_Serialize (connection_request a)) (out, b) =
      ((out(sock := WriteMessage cluster_GetType cluster_Serialize (acceptance b)), b'), Ret n) \<and>
    c_topology b' = greeted b a \<and> (\<exists>ref. caller a ref \<in> set (Topology_AllNodes (greeted b a)))"
proof -
  let ?ref = "Suc (length (c_remotes b))"
  let ?n = "caller a ?ref"
  let ?b = "b\<lparr>c_remotes := c_remotes b @ [\<lparr>rn_pool = NewConnectionPool (GetPeerAddr a) 10 10000, rn_isStarted = False\<rparr>]\<rparr>"
  let ?out = "out(sock := WriteMessage cluster_GetType cluster_Serialize (acceptance b))"
  have "\<exists>t. Topology_AddNode (c_topology b) ?n = (t, None) \<and> ?n \<in> set (Topology_AllNodes t)"
    using assms(2) by (intro AddNode_unknown)
      (auto simp: unknown_to_def caller_def GetNodeId_def GetDatacenterId_def)
  then obtain t where
    t: "Topology_AddNode (c_topology b) ?n = (t, None)" "?n \<in> set (Topology_AllNodes t)" by blast
  have accept: "accept_connection serving_net sock
      (WriteMessage cluster_GetType cluster_Serialize (connection_request a)) (out, b) =
      ccatch (addNode serving_net ?n) (\<lambda>_. cget (\<lambda>c. deref c ?n)) (?out, ?b)"
    using cluster_messages.framed.roundtrip_end [OF assms(1)]
    by (simp add: accept_connection_def connection_request_def write_message_def serving_net_def cbind_run
        NewRemoteNodeInfo_def NewRemoteNode_def cbind_assoc caller_def)
  have "rn_pool (remote (?b\<lparr>c_topology := t\<rparr>) ?n) = NewConnectionPool (GetPeerAddr a) 10 10000"
    by (simp add: remote_def caller_def)
  from dial_back_fails [OF this, of ?out]
  have "addNode serving_net ?n (?out, ?b) = ((?out, ?b\<lparr>c_topology := t\<rparr>),
      if c_status b \<noteq> CLUSTER_INITIALIZING then Err (Errorf ''connection refused'') else Ret ?n)"
    using t(1) by (simp add: addNode_def is_remote_def caller_def creturn_def)
  then show ?thesis using accept t by (auto simp: ccatch_def cget_def greeted_def)
qed

section \<open>A node that is told about itself\<close>

definition knows :: "DatacenterID \<Rightarrow> NodeId \<Rightarrow> Topology \<Rightarrow> bool" where
  "knows dc nid t \<longleftrightarrow> (\<exists>r n. map_of (rings t) dc = Some r \<and> map_of (nodeMap r) nid = Some n)"

lemma knows_AddNode:
  assumes "knows dc nid t"
  shows "knows dc nid (fst (Topology_AddNode t n))"
proof -
  from assms obtain r x where r: "map_of (rings t) dc = Some r" "map_of (nodeMap r) nid = Some x"
    by (auto simp: knows_def)
  note old = ensure_ring_old [OF r(1), of "node_dcId n"]
  show ?thesis
  proof (cases "Ring_AddNode (the (map_of (ensure_ring (node_dcId n) (rings t)) (node_dcId n))) n")
    case (Inl e)
    then show ?thesis using old r(2) by (simp add: Topology_AddNode_def knows_def Let_def)
  next
    case (Inr r')
    then show ?thesis using old r(2) Ring_AddNode_Inr [OF Inr]
      by (cases "node_dcId n = dc") (auto simp: Topology_AddNode_def knows_def Let_def update_conv map_add_def)
  qed
qed

lemma AddNode_known:
  assumes "knows (node_dcId n) (node_id n) t"
  shows "snd (Topology_AddNode t n) = Some (Errorf ''This node is already a part of the ring'')"
  using assms ensure_ring_old
  by (fastforce simp: knows_def Topology_AddNode_def Ring_AddNode_def Let_def)

lemma AddNode_error: "snd (Topology_AddNode t n) \<in> {None, Some (Errorf ''This node is already a part of the ring'')}"
  by (auto simp: Topology_AddNode_def Ring_AddNode_def Let_def split: sum.splits option.splits)

lemma add_self_fails:
  assumes "c_status c = CLUSTER_INITIALIZING" and "knows (c_dcId c) (c_nodeId c) (c_topology c)"
    and "\<exists>peer \<in> set peers. pd_NodeId peer = c_nodeId c \<and> pd_DCId peer = c_dcId c"
  shows "\<exists>rs t. add_peers N peers (w, c) =
    ((w, c\<lparr>c_remotes := rs, c_topology := t\<rparr>), Err (Errorf ''This node is already a part of the ring''))"
  using assms
proof (induction peers arbitrary: c)
  case (Cons peer peers)
  let ?n = "\<lparr>node_name = pd_Name peer, node_addr = pd_Addr peer, node_token = pd_Token peer, node_id = pd_NodeId peer,
    node_dcId = pd_DCId peer, node_status = NODE_INITIALIZING, node_ref = Suc (length (c_remotes c))\<rparr>"
  let ?rs = "c_remotes c @ [\<lparr>rn_pool = NewConnectionPool (pd_Addr peer) 10 10000, rn_isStarted = False\<rparr>]"
  obtain t err where t: "Topology_AddNode (c_topology c) ?n = (t, err)" by fastforce
  let ?c = "c\<lparr>c_remotes := ?rs, c_topology := t\<rparr>"
  have step: "add_peers N (peer # peers) (w, c) =
      (case err of Some e \<Rightarrow> ((w, ?c), Err e) | None \<Rightarrow> add_peers N peers (w, ?c))"
    using t Cons.prems(1)
    by (simp add: NewRemoteNodeInfo_def NewRemoteNode_def addNode_def cbind_assoc cfail_def split: option.split)
  show ?case
  proof (cases err)
    case (Some e)
    then have "e = Errorf ''This node is already a part of the ring''"
      using AddNode_error [of "c_topology c" ?n] t by simp
    then show ?thesis using step Some by auto
  next
    case None
    then have "\<not> (pd_NodeId peer = c_nodeId c \<and> pd_DCId peer = c_dcId c)"
      using AddNode_known [of ?n "c_topology c"] Cons.prems(2) t by auto
    moreover have "knows (c_dcId c) (c_nodeId c) t"
      using knows_AddNode [OF Cons.prems(2), of ?n] t by simp
    ultimately show ?thesis using Cons.IH [of ?c] Cons.prems step None by auto
  qed
qed simp

section \<open>The starting node meets its seed\<close>

lemma New_topology:
  assumes "NewCluster store addr name token nodeId dcId rf prtnr seeds = Inr a"
  shows "\<exists>p. c_topology a = \<lparr>partitioner = p, localNodeID = nodeId, localDcID = dcId, replicationFactor = ucast rf,
    rings = [(dcId, \<lparr>nodeMap = [(nodeId, NewLocalNode nodeId dcId token name)],
      tokenRing = [NewLocalNode nodeId dcId token name], priorRing = []\<rparr>)],
    top_nodes = [nodeId \<mapsto> NewLocalNode nodeId dcId token name]\<rparr>"
proof -
  let ?n = "NewLocalNode nodeId dcId token name"
  have "sort_Sort node_Less [?n] = [?n]" by (simp add: sort_Sort_def)
  with assms show ?thesis
    by (auto simp: NewCluster_def Topology_AddNode_def NewTopology_def ensure_ring_def Ring_AddNode_def NewRing_def
        refreshRing_def Let_def split: if_splits option.splits) (simp_all add: NewLocalNode_def)
qed

lemma add_seed:
  assumes "NewCluster store addr name token nodeId dcId rf prtnr seeds = Inr a"
    and "is_remote n" and "node_id n \<noteq> nodeId"
  shows "\<exists>t. Topology_AddNode (c_topology a) n = (t, None) \<and> filter is_remote (Topology_AllNodes t) = [n] \<and>
    knows dcId nodeId t"
proof -
  let ?l = "NewLocalNode nodeId dcId token name"
  from New_topology [OF assms(1)] obtain p where
    top: "c_topology a = \<lparr>partitioner = p, localNodeID = nodeId, localDcID = dcId, replicationFactor = ucast rf,
      rings = [(dcId, \<lparr>nodeMap = [(nodeId, ?l)], tokenRing = [?l], priorRing = []\<rparr>)],
      top_nodes = [nodeId \<mapsto> ?l]\<rparr>" by blast
  have l: "\<not> is_remote ?l" by (simp add: is_remote_def NewLocalNode_def)
  have "mset (filter is_remote (sort_Sort node_Less [?l, n])) = {#n#}"
    using l assms(2) by (simp add: mset_filter)
  then have two: "filter is_remote (sort_Sort node_Less [?l, n]) = [n]" by (simp only: mset_single_iff)
  have one: "sort_Sort node_Less [n] = [n]" by (simp add: sort_Sort_def)
  have nth: "map ((!) xs) [0..<length xs] = xs" for xs :: "Node list" by (rule map_nth)
  show ?thesis
    using top l assms(2,3) two one
    by (cases "node_dcId n = dcId")
      (auto simp: Topology_AddNode_def ensure_ring_def Ring_AddNode_def NewRing_def refreshRing_def Let_def
        Topology_AllNodes_def Ring_AllNodes_def nth knows_def)
qed

text \<open>The dialled seed accepts the node, and then tells it what it knows.\<close>

lemma seed_hello:
  assumes "cluster_ok (connection_request a)" and "unknown_to (pr_cluster p) a"
  shows "\<exists>p2. net_write peer_net
      (p\<lparr>pr_next := Suc (pr_next p), pr_sessions := (pr_sessions p)(pr_next p := None)\<rparr>) (pr_next p)
      (WriteMessage cluster_GetType cluster_Serialize (connection_request a)) = (p2, None) \<and>
    net_read peer_net p2 (pr_next p) =
      (p2, WriteMessage cluster_GetType cluster_Serialize (acceptance (pr_cluster p))) \<and>
    pr_sessions p2 (pr_next p) \<noteq> None \<and>
    (\<exists>p3. peer_answer p2 (pr_next p) (DiscoverPeersRequest nid) =
      (p3, Some (DiscoverPeerResponse (map peer_data (Topology_AllNodes (greeted (pr_cluster p) a))))))"
proof -
  let ?sock = "pr_next p"
  from accept_caller [OF assms, of ?sock "(pr_out p)(?sock := [])"] obtain b' n where
    b: "accept_connection serving_net ?sock (WriteMessage cluster_GetType cluster_Serialize (connection_request a))
      ((pr_out p)(?sock := []), pr_cluster p) =
      (((pr_out p)(?sock := WriteMessage cluster_GetType cluster_Serialize (acceptance (pr_cluster p))), b'), Ret n)"
      "c_topology b' = greeted (pr_cluster p) a" by auto
  then show ?thesis
    by (simp add: peer_net_def peer_write_def peer_answer_def executeRequest_def cluster_type_defs cget_def
        getPeerData_def)
qed

lemma put_node_New:
  assumes "NewCluster store addr name token nodeId dcId rf prtnr seeds = Inr a" and "is_remote n"
    and "c_topology c = c_topology a"
  shows "put_node n c = c"
proof -
  have "top_nodes (c_topology a) = (\<lambda>k. map_option (subst_node n) (top_nodes (c_topology a) k))"
    using New_topology [OF assms(1)] assms(2)
    by (auto simp: subst_node_def is_remote_def NewLocalNode_def)
  moreover have "rings (c_topology a) = map (\<lambda>(dc, r). (dc, ring_put n r)) (rings (c_topology a))"
    using New_topology [OF assms(1)] assms(2)
    by (auto simp: subst_node_def is_remote_def NewLocalNode_def ring_put_def)
  ultimately show ?thesis using assms(3) by (simp add: put_node_def)
qed

definition running :: "Cluster \<Rightarrow> Cluster" where
  "running a = a\<lparr>c_listening := True, c_isRunning := True, c_localStarted := True\<rparr>"

lemma running_simps [simp]:
  "c_topology (running a) = c_topology a" "c_status (running a) = c_status a" "c_remotes (running a) = c_remotes a"
  "c_nodeId (running a) = c_nodeId a" "c_dcId (running a) = c_dcId a" "c_seeds (running a) = c_seeds a"
  "connection_request (running a) = connection_request a"
  by (simp_all add: running_def connection_request_def GetNodeId_def GetDatacenterId_def GetPeerAddr_def GetName_def
      Cluster_GetToken_def)

text \<open>What a new node holds of a seed: before it has contacted it, and afterwards.\<close>

definition stranger :: "string \<Rightarrow> Node" where
  "stranger addr =
     \<lparr>node_name = '''', node_addr = addr, node_token = [], node_id = zero_B16, node_dcId = '''',
      node_status = NODE_INITIALIZING, node_ref = 1\<rparr>"

definition met :: "Cluster \<Rightarrow> Node" where
  "met b =
     \<lparr>node_name = GetName b, node_addr = GetPeerAddr b, node_token = Cluster_GetToken b, node_id = GetNodeId b,
      node_dcId = '''', node_status = NODE_UP, node_ref = 1\<rparr>"

lemma New_fields:
  assumes "NewCluster store addr name token nodeId dcId rf prtnr seeds = Inr a"
  shows "c_nodeId a = nodeId" "c_dcId a = dcId" "c_seeds a = seeds" "c_remotes a = []"
    "c_status a = CLUSTER_INITIALIZING"
  using assms by (auto simp: NewCluster_def split: if_splits option.splits)

lemma start_seed:
  assumes a: "NewCluster store addr name token nodeId dcId rf prtnr seeds = Inr a"
    and ok: "cluster_ok (connection_request a)" "cluster_ok (acceptance (pr_cluster p))"
    and new: "unknown_to (pr_cluster p) a"
  shows "\<exists>p2 p3 rs. RemoteNode_Start peer_net (stranger (GetPeerAddr (pr_cluster p)))
      (p, (running a)\<lparr>c_remotes :=
        [\<lparr>rn_pool = NewConnectionPool (GetPeerAddr (pr_cluster p)) 10 10000, rn_isStarted = False\<rparr>]\<rparr>) =
      ((p2, (running a)\<lparr>c_remotes := rs\<rparr>), Ret (met (pr_cluster p))) \<and>
    length rs = 1 \<and> represents (rn_pool (rs ! 0)) [SetHandshakeCompleted (new_conn (pr_next p))] \<and>
    pr_sessions p2 (pr_next p) \<noteq> None \<and>
    peer_answer p2 (pr_next p) (DiscoverPeersRequest nodeId) =
      (p3, Some (DiscoverPeerResponse (map peer_data (Topology_AllNodes (greeted (pr_cluster p) a)))))"
proof -
  let ?b = "pr_cluster p" and ?n = "stranger (GetPeerAddr (pr_cluster p))"
  let ?c = "(running a)\<lparr>c_remotes := [\<lparr>rn_pool = NewConnectionPool (GetPeerAddr ?b) 10 10000, rn_isStarted = False\<rparr>]\<rparr>"
  let ?acc = "\<lparr>ca_NodeId = GetNodeId ?b, ca_DCId = '''', ca_Name = GetName ?b, ca_Token = Cluster_GetToken ?b\<rparr>"
  have met: "met ?b = (copy_accept ?n ?acc)\<lparr>node_status := NODE_UP\<rparr>"
    by (simp add: met_def copy_accept_def stranger_def)
  from seed_hello [OF ok(1) new, of nodeId] obtain p2 p3 where
    hello: "net_write peer_net
        (p\<lparr>pr_next := Suc (pr_next p), pr_sessions := (pr_sessions p)(pr_next p := None)\<rparr>) (pr_next p)
        (WriteMessage cluster_GetType cluster_Serialize (connection_request ?c)) = (p2, None)"
      "net_read peer_net p2 (pr_next p) =
        (p2, WriteMessage cluster_GetType cluster_Serialize (ConnectionAccepted ?acc))"
    and p2: "pr_sessions p2 (pr_next p) \<noteq> None" "peer_answer p2 (pr_next p) (DiscoverPeersRequest nodeId) =
      (p3, Some (DiscoverPeerResponse (map peer_data (Topology_AllNodes (greeted ?b a)))))"
    by (auto simp: acceptance_def)
  have "\<exists>rs. RemoteNode_Start peer_net ?n (p, ?c) =
      ((p2, (put_node (met ?b) (put_node (copy_accept ?n ?acc) ?c))\<lparr>c_remotes := rs\<rparr>), Ret (met ?b)) \<and>
    length rs = length (c_remotes ?c) \<and>
    represents (rn_pool (rs ! (node_ref ?n - 1))) [SetHandshakeCompleted (new_conn (pr_next p))]"
    by (rule start_fresh [OF _ _ _ _ hello _ met])
      (use ok(2) in \<open>auto simp: valid_def remote_def NewConnectionPool_def acceptance_def stranger_def peer_net_def
        represents_def pool_rep_def\<close>)
  moreover have "put_node (copy_accept ?n ?acc) ?c = ?c" "put_node (met ?b) ?c = ?c"
    by (rule put_node_New [OF a]; simp add: is_remote_def copy_accept_def stranger_def met_def)+
  ultimately show ?thesis using p2 by (auto simp: stranger_def)
qed

lemma meet_seed:
  assumes a: "NewCluster store addr name token nodeId dcId rf prtnr [GetPeerAddr (pr_cluster p)] = Inr a"
    and ok: "cluster_ok (connection_request a)" "cluster_ok (acceptance (pr_cluster p))"
    and new: "unknown_to (pr_cluster p) a" "GetNodeId (pr_cluster p) \<noteq> nodeId"
  shows "\<exists>p2 p3 rs t. discover_seeds peer_net [GetPeerAddr (pr_cluster p)] (p, running a) =
      ((p2, (running a)\<lparr>c_remotes := rs, c_topology := t\<rparr>), Ret ()) \<and>
    filter is_remote (Topology_AllNodes t) = [met (pr_cluster p)] \<and> knows dcId nodeId t \<and>
    length rs = 1 \<and> represents (rn_pool (rs ! 0)) [SetHandshakeCompleted (new_conn (pr_next p))] \<and>
    pr_sessions p2 (pr_next p) \<noteq> None \<and>
    peer_answer p2 (pr_next p) (DiscoverPeersRequest nodeId) =
      (p3, Some (DiscoverPeerResponse (map peer_data (Topology_AllNodes (greeted (pr_cluster p) a)))))"
proof -
  let ?b = "pr_cluster p"
  from start_seed [OF a ok new(1)] obtain p2 p3 rs where
    start: "RemoteNode_Start peer_net (stranger (GetPeerAddr ?b))
      (p, (running a)\<lparr>c_remotes := [\<lparr>rn_pool = NewConnectionPool (GetPeerAddr ?b) 10 10000, rn_isStarted = False\<rparr>]\<rparr>) =
      ((p2, (running a)\<lparr>c_remotes := rs\<rparr>), Ret (met ?b))"
    and rs: "length rs = 1" "represents (rn_pool (rs ! 0)) [SetHandshakeCompleted (new_conn (pr_next p))]"
      "pr_sessions p2 (pr_next p) \<noteq> None"
      "peer_answer p2 (pr_next p) (DiscoverPeersRequest nodeId) =
        (p3, Some (DiscoverPeerResponse (map peer_data (Topology_AllNodes (greeted ?b a)))))" by blast
  from add_seed [OF a, of "met ?b"] new(2) obtain t where
    t: "Topology_AddNode (c_topology a) (met ?b) = (t, None)" "filter is_remote (Topology_AllNodes t) = [met ?b]"
      "knows dcId nodeId t" by (auto simp: is_remote_def met_def)
  have "\<not> addrIsKnown (running a) (GetPeerAddr ?b)"
    using New_topology [OF a]
    by (auto simp: addrIsKnown_def Topology_AllNodes_def Ring_AllNodes_def is_remote_def NewLocalNode_def)
  then have "discover_seeds peer_net [GetPeerAddr ?b] (p, running a) =
      ((p2, (running a)\<lparr>c_remotes := rs, c_topology := t\<rparr>), Ret ())"
    using start t(1) New_fields [OF a]
    by (simp add: NewRemoteNode_def cbind_assoc addNode_def creturn_def ccatch_def cbind_def cget_def cmod_def
        stranger_def)
  then show ?thesis using t(2,3) rs by blast
qed

text \<open>Asking the seed for its peers.\<close>

lemma ask_seed:
  assumes c: "c_status c = CLUSTER_INITIALIZING" "knows (c_dcId c) (c_nodeId c) (c_topology c)" "length (c_remotes c) = 1"
    and pool: "represents (rn_pool (c_remotes c ! 0)) [SetHandshakeCompleted (new_conn sock)]"
    and up: "pr_sessions p sock \<noteq> None" and other: "GetNodeId b \<noteq> c_nodeId c"
    and answer: "peer_answer p sock (DiscoverPeersRequest (c_nodeId c)) = (p', Some (DiscoverPeerResponse peers))"
      "cluster_ok (DiscoverPeerResponse peers)"
    and self: "\<exists>peer \<in> set peers. pd_NodeId peer = c_nodeId c \<and> pd_DCId peer = c_dcId c"
  shows "\<exists>rs t. ask_peers peer_net [met b] (p, c) =
    ((p', c\<lparr>c_remotes := rs, c_topology := t\<rparr>), Err (Errorf ''This node is already a part of the ring''))"
proof -
  have "(met b)\<lparr>node_status := NODE_UP\<rparr> = met b" by (simp add: met_def)
  with peers.send_pooled [where n = "met b" and c = c and conn = "SetHandshakeCompleted (new_conn sock)" and q = "[]"
      and w = p and m = "DiscoverPeersRequest (c_nodeId c)" and w' = p' and r = "DiscoverPeerResponse peers"]
  obtain rs where
    send: "RemoteNode_SendMessage peer_net (met b) (DiscoverPeersRequest (c_nodeId c)) (p, c) =
      ((p', put_node (met b) (c\<lparr>c_remotes := rs\<rparr>)), Ret (met b, DiscoverPeerResponse peers))"
    using c(3) pool up answer
    by (auto simp: valid_def remote_def met_def SetHandshakeCompleted_def new_conn_def)
  let ?c = "put_node (met b) (c\<lparr>c_remotes := rs\<rparr>)"
  have same: "c_status ?c = c_status c" "c_dcId ?c = c_dcId c" "c_nodeId ?c = c_nodeId c"
    by (simp_all add: put_node_def)
  have "knows (c_dcId c) (c_nodeId c) (c_topology ?c)"
    using c(2) by (auto simp: knows_def put_node_def map_of_rings ring_put_def)
  with add_self_fails [of ?c peers peer_net p'] c(1) self same obtain rs' t where
    "add_peers peer_net peers (p', ?c) =
      ((p', ?c\<lparr>c_remotes := rs', c_topology := t\<rparr>), Err (Errorf ''This node is already a part of the ring''))"
    by auto
  moreover have "?c\<lparr>c_remotes := rs', c_topology := t\<rparr> = c\<lparr>c_remotes := rs', c_topology := t\<rparr>"
    by (simp add: put_node_def)
  moreover have "GetNodeId c = c_nodeId c" "node_id (met b) = GetNodeId b" by (simp_all add: GetNodeId_def met_def)
  ultimately show ?thesis using send other by (auto simp: cbind_def cget_def)
qed

section \<open>Properties\<close>


definition ex_seed :: Peer where
  "ex_seed = \<lparr>pr_cluster = ex_cluster ''b'' 2 [], pr_out = (\<lambda>_. []), pr_sessions = (\<lambda>_. None), pr_next = 0\<rparr>"


end
