(* ===== verification/Query.thy ===== *)
theory Query
  imports Cluster
begin

text \<open>
  Queries (\<^verbatim>\<open>cluster/cluster.go\<close>, the section on queries): a read asks the replicas of a
  key, waits until the consistency level is met in every datacenter, reconciles the values that
  it has, and repairs the replicas that answered with another value.
\<close>

section \<open>Consistency levels\<close>

type_synonym ConsistencyLevel = string

definition CONSISTENCY_ONE :: ConsistencyLevel where "CONSISTENCY_ONE = ''ONE''"
definition CONSISTENCY_QUORUM :: ConsistencyLevel where "CONSISTENCY_QUORUM = ''QUORUM''"
definition CONSISTENCY_QUORUM_LOCAL :: ConsistencyLevel where "CONSISTENCY_QUORUM_LOCAL = ''QUORUM_LOCAL''"
definition CONSISTENCY_ALL :: ConsistencyLevel where "CONSISTENCY_ALL = ''ALL''"
definition CONSISTENCY_ALL_LOCAL :: ConsistencyLevel where "CONSISTENCY_ALL_LOCAL = ''ALL_LOCAL''"
definition CONSISTENCY_CONSENSUS :: ConsistencyLevel where "CONSISTENCY_CONSENSUS = ''CONSENSUS''"
definition CONSISTENCY_CONSENSUS_LOCAL :: ConsistencyLevel where
  "CONSISTENCY_CONSENSUS_LOCAL = ''CONSENSUS_LOCAL''"

lemmas consistency_defs = CONSISTENCY_ONE_def CONSISTENCY_QUORUM_def CONSISTENCY_QUORUM_LOCAL_def
  CONSISTENCY_ALL_def CONSISTENCY_ALL_LOCAL_def CONSISTENCY_CONSENSUS_def CONSISTENCY_CONSENSUS_LOCAL_def

type_synonym replica_map = "(DatacenterID \<times> Node list) list"

definition numMappedNodes :: "replica_map \<Rightarrow> nat" where
  "numMappedNodes replicaMap = fold (\<lambda>(_, nodes) num. num + length nodes) replicaMap 0"

definition readLocalOnly :: "ConsistencyLevel \<Rightarrow> bool" where
  "readLocalOnly cl =
     (if cl = CONSISTENCY_ONE then True
      else if cl = CONSISTENCY_QUORUM_LOCAL then True
      else if cl = CONSISTENCY_ALL_LOCAL then True
      else if cl = CONSISTENCY_CONSENSUS_LOCAL then True
      else False)"

definition required_responses :: "ConsistencyLevel \<Rightarrow> nat \<Rightarrow> error + nat" where
  "required_responses cl len =
     (if cl = CONSISTENCY_ONE then Inr 1
      else if cl = CONSISTENCY_QUORUM \<or> cl = CONSISTENCY_QUORUM_LOCAL then Inr (len div 2 + 1)
      else if cl = CONSISTENCY_ALL \<or> cl = CONSISTENCY_ALL_LOCAL then Inr len
      else if cl = CONSISTENCY_CONSENSUS \<or> cl = CONSISTENCY_CONSENSUS_LOCAL
      then Inl (Errorf ''CONSENSUS consistency not implemented yet'')
      else Inl (Errorf ''Unknown consistency level: %v''))"

section \<open>Asking the replicas\<close>

record queryResponse =
  qr_nid :: NodeId
  qr_val :: "vref option"
  qr_err :: "error option"

text \<open>
  \<^verbatim>\<open>ExecuteQuery\<close> is a method of the interface \<^verbatim>\<open>topology.Node\<close>.  The two kinds of
  nodes of the program have the following ones; the definitions below take the method as an
  argument.
\<close>

type_synonym query = "Node \<Rightarrow> string \<Rightarrow> string \<Rightarrow> string list \<Rightarrow> Time \<Rightarrow> vref option \<times> error option"

definition LocalNode_ExecuteQuery :: query where
  "LocalNode_ExecuteQuery n cmd key args timestamp = (None, None)"

definition RemoteNode_ExecuteQuery :: query where
  "RemoteNode_ExecuteQuery n cmd key args timestamp = (None, None)"

definition Node_ExecuteQuery :: query where
  "Node_ExecuteQuery n = (if is_remote n then RemoteNode_ExecuteQuery n else LocalNode_ExecuteQuery n)"

definition query_response :: "query \<Rightarrow> string \<Rightarrow> string \<Rightarrow> string list \<Rightarrow> Node \<Rightarrow> queryResponse" where
  "query_response query cmd key args n =
     (case query n cmd key args zero_Time of
        (val, err) \<Rightarrow> \<lparr>qr_nid = node_id n, qr_val = val, qr_err = err\<rparr>)"

text \<open>
  The loop over the datacenters: the number of responses that each of them owes, the nodes by
  their identifiers, and the nodes that are asked.
\<close>

fun start_queries ::
    "DatacenterID \<Rightarrow> ConsistencyLevel \<Rightarrow> replica_map \<Rightarrow> (DatacenterID \<times> nat) list \<Rightarrow> (NodeId \<times> Node) list \<Rightarrow>
     Node list \<Rightarrow> error + (DatacenterID \<times> nat) list \<times> (NodeId \<times> Node) list \<times> Node list" where
  "start_queries dc cl [] numRequired nodes_by_id asked = Inr (numRequired, nodes_by_id, asked)"
| "start_queries dc cl ((dcid, nodes) # replicaMap) numRequired nodes_by_id asked =
     (if dcid \<noteq> dc \<and> readLocalOnly cl
      then start_queries dc cl replicaMap (AList.update dcid 0 numRequired) nodes_by_id asked
      else case required_responses cl (length nodes) of
        Inl err \<Rightarrow> Inl err
      | Inr num \<Rightarrow>
          start_queries dc cl replicaMap (AList.update dcid num numRequired)
            (fold (\<lambda>n. AList.update (node_id n) n) nodes nodes_by_id) (asked @ nodes))"

section \<open>Waiting for responses\<close>

definition consistencySatisfied :: "(DatacenterID \<times> nat) list \<Rightarrow> (DatacenterID \<Rightarrow> nat) \<Rightarrow> bool" where
  "consistencySatisfied numRequired numReceived =
     list_all (\<lambda>(dcid, num). \<not> numReceived dcid < num) numRequired"

text \<open>
  The list holds the responses that the loop receives before the timeout, in their order;
  behind the last one the timeout fires.
\<close>

fun read_loop ::
    "(DatacenterID \<times> nat) list \<Rightarrow> (NodeId \<times> Node) list \<Rightarrow> nat \<Rightarrow> (DatacenterID \<Rightarrow> nat) \<Rightarrow> nat \<Rightarrow> vref option list \<Rightarrow>
     queryResponse list \<Rightarrow> vref option list outcome" where
  "read_loop numRequired nodes_by_id numNodes numReceived numTotal vals [] =
     (if consistencySatisfied numRequired numReceived then Ret vals
      else if numTotal \<ge> numNodes
      then Err (Errorf ''Errors received from remote nodes, could not satisfy consistency'')
      else Err (TimeoutError ''Read not completed before timeout''))"
| "read_loop numRequired nodes_by_id numNodes numReceived numTotal vals (response # responses) =
     (if consistencySatisfied numRequired numReceived then Ret vals
      else if numTotal \<ge> numNodes
      then Err (Errorf ''Errors received from remote nodes, could not satisfy consistency'')
      else case qr_err response of
        Some err \<Rightarrow> read_loop numRequired nodes_by_id numNodes numReceived (numTotal + 1) vals responses
      | None \<Rightarrow>
          (case map_of nodes_by_id (qr_nid response) of
             None \<Rightarrow> Panic ''nil pointer dereference''
           | Some n \<Rightarrow>
               read_loop numRequired nodes_by_id numNodes
                 (numReceived(node_dcId n := numReceived (node_dcId n) + 1)) (numTotal + 1)
                 (vals @ [qr_val response]) responses))"

section \<open>Read repair\<close>

fun reconcile_loop ::
    "nat \<Rightarrow> nat \<Rightarrow> vref option list \<Rightarrow> NodeId list \<Rightarrow> queryResponse list \<Rightarrow> vref option list \<times> NodeId list" where
  "reconcile_loop numNodes numReceived vals valueNids [] = (vals, valueNids)"
| "reconcile_loop numNodes numReceived vals valueNids (response # responses) =
     (if numReceived < numNodes then
        (case qr_err response of
           Some err \<Rightarrow> reconcile_loop numNodes (numReceived + 1) vals valueNids responses
         | None \<Rightarrow>
             reconcile_loop numNodes (numReceived + 1) (vals @ [qr_val response])
               (valueNids @ [qr_nid response]) responses)
      else (vals, valueNids))"

text \<open>
  The result lists the writes that are started, each with the node that it goes to.  An error of
  the reconciliation is ignored; it comes without instructions.
\<close>

definition reconcileRead ::
    "string \<Rightarrow> (NodeId \<times> Node) list \<Rightarrow> queryResponse list \<Rightarrow> (Node option \<times> Instruction) list outcome" where
  "reconcileRead key nodes_by_id responses =
     (let (vals, valueNids) = reconcile_loop (length nodes_by_id) 0 [] [] responses in
      case Reconcile key vals of
        Ret (_, instructions) \<Rightarrow>
          Ret (concat (map (\<lambda>(nid, instructionList). map (\<lambda>inst. (map_of nodes_by_id nid, inst)) instructionList)
            (zip valueNids instructions)))
      | Err err \<Rightarrow> Ret []
      | Panic p \<Rightarrow> Panic p)"

section \<open>Reads and writes\<close>

text \<open>
  \<open>replicaMap\<close> has the entries of \<^verbatim>\<open>GetNodesForKey\<close> in the order in which the range over
  the map gives them.  \<open>early\<close> are the nodes whose responses the read receives before its timeout,
  \<open>later\<close> those whose responses the repair receives before its own.  The second part of the result
  is the outcome of the repair, which runs before the return or in a goroutine of its own.
\<close>

definition ExecuteRead ::
    "query \<Rightarrow> Cluster \<Rightarrow> replica_map \<Rightarrow> string \<Rightarrow> string \<Rightarrow> string list \<Rightarrow> ConsistencyLevel \<Rightarrow> bool \<Rightarrow> Node list \<Rightarrow>
     Node list \<Rightarrow> (vref option \<times> (Node option \<times> Instruction) list outcome) outcome" where
  "ExecuteRead query c replicaMap cmd key args cl synchronous early later =
     (let numNodes = numMappedNodes replicaMap in
      case start_queries (GetDatacenterId c) cl replicaMap [] [] [] of
        Inl err \<Rightarrow> Err err
      | Inr (numRequired, nodes_by_id, asked) \<Rightarrow>
          obind (read_loop numRequired nodes_by_id numNodes (\<lambda>_. 0) 0 []
            (map (query_response query cmd key args) early)) (\<lambda>vals.
            case Reconcile key vals of
              Err err \<Rightarrow> Err (Errorf ''Error reconciling values: %v'')
            | Panic p \<Rightarrow> Panic p
            | Ret (val, _) \<Rightarrow>
                let repair = reconcileRead key nodes_by_id (map (query_response query cmd key args) later)
                in if synchronous then obind repair (\<lambda>writes. Ret (val, Ret writes))
                   else Ret (val, repair)))"

definition ExecuteWrite ::
    "string \<Rightarrow> string \<Rightarrow> string list \<Rightarrow> Time \<Rightarrow> ConsistencyLevel \<Rightarrow> bool \<Rightarrow> vref option outcome" where
  "ExecuteWrite cmd key args timestamp cl synchronous = Ret None"

section \<open>Which nodes are asked, and how many must answer\<close>

text \<open>The number of responses that a read needs from a datacenter.\<close>

definition needed :: "DatacenterID \<Rightarrow> ConsistencyLevel \<Rightarrow> DatacenterID \<Rightarrow> Node list \<Rightarrow> nat" where
  "needed dc cl dcid nodes =
     (if dcid \<noteq> dc \<and> readLocalOnly cl then 0 else projr (required_responses cl (length nodes)))"

definition asked_nodes :: "DatacenterID \<Rightarrow> ConsistencyLevel \<Rightarrow> replica_map \<Rightarrow> Node list" where
  "asked_nodes dc cl replicaMap =
     concat (map snd (filter (\<lambda>(dcid, nodes). \<not> (dcid \<noteq> dc \<and> readLocalOnly cl)) replicaMap))"

definition readable :: "ConsistencyLevel \<Rightarrow> bool" where
  "readable cl \<longleftrightarrow> cl \<in> {CONSISTENCY_ONE, CONSISTENCY_QUORUM, CONSISTENCY_QUORUM_LOCAL, CONSISTENCY_ALL,
     CONSISTENCY_ALL_LOCAL}"

lemma readable_required: "readable cl \<Longrightarrow> \<exists>num. required_responses cl len = Inr num"
  by (auto simp: readable_def required_responses_def)

lemma map_of_fold_update:
  fixes nodes :: "Node list"
  shows "map_of (fold (\<lambda>n. AList.update (node_id n) n) nodes nm) k =
     (case List.find (\<lambda>n. node_id n = k) (rev nodes) of None \<Rightarrow> map_of nm k | Some n \<Rightarrow> Some n)"
proof (induction nodes arbitrary: nm)
  case (Cons n nodes)
  have app: "List.find P (xs @ [x]) = (case List.find P xs of None \<Rightarrow> if P x then Some x else None | Some y \<Rightarrow> Some y)"
    for P :: "Node \<Rightarrow> bool" and xs x by (induction xs) auto
  show ?case by (simp add: Cons app update_conv split: option.split)
qed simp

lemma find_id:
  fixes nodes :: "Node list"
  assumes "n \<in> set nodes" and "inj_on node_id (set nodes)"
  shows "List.find (\<lambda>m. node_id m = node_id n) (rev nodes) = Some n"
proof (cases "List.find (\<lambda>m. node_id m = node_id n) (rev nodes)")
  case None
  then show ?thesis using assms(1) by (auto simp: find_None_iff)
next
  case (Some m)
  then have "m \<in> set nodes" "node_id m = node_id n" 
    by (metis find_Some_iff nth_mem set_rev, metis (mono_tags) find_Some_iff)
  then show ?thesis using Some assms by (auto dest: inj_onD)
qed

lemma start_queries_spec:
  assumes "readable cl" and "distinct (map fst replicaMap)" and "distinct (map fst req)"
    and "inj_on node_id (set qs \<union> set (asked_nodes dc cl replicaMap))"
    and "\<forall>n \<in> set qs. map_of nm (node_id n) = Some n"
  shows "\<exists>req' nm'. start_queries dc cl replicaMap req nm qs = Inr (req', nm', qs @ asked_nodes dc cl replicaMap) \<and>
    distinct (map fst req') \<and>
    (\<forall>d. map_of req' d = (case map_of replicaMap d of None \<Rightarrow> map_of req d | Some nodes \<Rightarrow> Some (needed dc cl d nodes))) \<and>
    (\<forall>n \<in> set qs \<union> set (asked_nodes dc cl replicaMap). map_of nm' (node_id n) = Some n)"
  using assms
proof (induction replicaMap arbitrary: req nm qs)
  case Nil
  then show ?case by (auto simp: asked_nodes_def)
next
  case (Cons entry replicaMap)
  obtain d nodes where e: "entry = (d, nodes)" by fastforce
  have fresh: "map_of replicaMap d = None" using Cons.prems(2) e by (auto simp: map_of_eq_None_iff)
  show ?case
  proof (cases "d \<noteq> dc \<and> readLocalOnly cl")
    case True
    then have a: "asked_nodes dc cl (entry # replicaMap) = asked_nodes dc cl replicaMap"
      by (simp add: asked_nodes_def e)
    have "\<exists>req' nm'. start_queries dc cl replicaMap (AList.update d 0 req) nm qs =
        Inr (req', nm', qs @ asked_nodes dc cl replicaMap) \<and> distinct (map fst req') \<and>
      (\<forall>x. map_of req' x = (case map_of replicaMap x of None \<Rightarrow> map_of (AList.update d 0 req) x
        | Some nodes \<Rightarrow> Some (needed dc cl x nodes))) \<and>
      (\<forall>n \<in> set qs \<union> set (asked_nodes dc cl replicaMap). map_of nm' (node_id n) = Some n)"
      by (rule Cons.IH) (use Cons.prems a in \<open>auto simp: distinct_update\<close>)
    then show ?thesis
      using True fresh by (auto simp: e needed_def update_conv a [unfolded e] split: option.split)
  next
    case False
    obtain num where num: "required_responses cl (length nodes) = Inr num" using readable_required [OF Cons.prems(1)] by blast
    have a: "asked_nodes dc cl (entry # replicaMap) = nodes @ asked_nodes dc cl replicaMap"
      using False by (auto simp: asked_nodes_def e)
    let ?nm = "fold (\<lambda>n. AList.update (node_id n) n) nodes nm"
    have inj: "inj_on node_id (set nodes)" "inj_on node_id (set qs \<union> set nodes)"
      by (rule inj_on_subset [OF Cons.prems(4)]; auto simp: a)+
    have "map_of ?nm (node_id n) = Some n" if n: "n \<in> set qs \<union> set nodes" for n
    proof (cases "n \<in> set nodes")
      case True
      then show ?thesis using find_id [OF True inj(1)] by (simp add: map_of_fold_update)
    next
      case False
      then have "\<forall>m \<in> set nodes. node_id m \<noteq> node_id n" using n inj(2) by (auto dest: inj_onD)
      then have "List.find (\<lambda>m. node_id m = node_id n) (rev nodes) = None" by (simp add: find_None_iff)
      then show ?thesis using False n Cons.prems(5) by (simp add: map_of_fold_update)
    qed
    then have "\<exists>req' nm'. start_queries dc cl replicaMap (AList.update d num req) ?nm (qs @ nodes) =
        Inr (req', nm', (qs @ nodes) @ asked_nodes dc cl replicaMap) \<and> distinct (map fst req') \<and>
      (\<forall>x. map_of req' x = (case map_of replicaMap x of None \<Rightarrow> map_of (AList.update d num req) x
        | Some nodes \<Rightarrow> Some (needed dc cl x nodes))) \<and>
      (\<forall>n \<in> set (qs @ nodes) \<union> set (asked_nodes dc cl replicaMap). map_of nm' (node_id n) = Some n)"
      by (intro Cons.IH) (use Cons.prems a in \<open>auto simp: distinct_update Un_assoc\<close>)
    then show ?thesis
      using False num fresh by (auto simp: e needed_def update_conv a [unfolded e] split: option.split)
  qed
qed

section \<open>What a read waits for\<close>

text \<open>
  \<open>q n\<close> is the answer of the node \<open>n\<close> to the query at hand.  The answers without error count for
  the datacenter of their node.
\<close>

type_synonym answers = "Node \<Rightarrow> vref option \<times> error option"

definition answers_to :: "query \<Rightarrow> string \<Rightarrow> string \<Rightarrow> string list \<Rightarrow> answers" where
  "answers_to query cmd key args n = query n cmd key args zero_Time"

definition succeeded :: "answers \<Rightarrow> Node \<Rightarrow> bool" where
  "succeeded q n \<longleftrightarrow> snd (q n) = None"

definition received :: "answers \<Rightarrow> Node list \<Rightarrow> DatacenterID \<Rightarrow> nat" where
  "received q ns dc = length (filter (\<lambda>n. succeeded q n \<and> node_dcId n = dc) ns)"

definition received_values :: "answers \<Rightarrow> Node list \<Rightarrow> vref option list" where
  "received_values q ns = map (\<lambda>n. fst (q n)) (filter (succeeded q) ns)"

fun first_prefix :: "('a list \<Rightarrow> bool) \<Rightarrow> 'a list \<Rightarrow> 'a list \<Rightarrow> 'a list option" where
  "first_prefix P xs [] = (if P xs then Some xs else None)"
| "first_prefix P xs (y # ys) = (if P xs then Some xs else first_prefix P (xs @ [y]) ys)"

lemma first_prefix_Some: "first_prefix P xs ys = Some zs \<Longrightarrow> P zs \<and> (\<exists>k. zs = xs @ take k ys)"
proof (induction P xs ys rule: first_prefix.induct)
  case (1 P xs)
  then show ?case by (auto split: if_splits)
next
  case (2 P xs y ys)
  show ?case
  proof (cases "P xs")
    case True
    with 2(2) show ?thesis by (auto intro: exI [of _ 0])
  next
    case False
    with 2 obtain k where "P zs" "zs = (xs @ [y]) @ take k ys" by auto
    then show ?thesis by (auto intro: exI [of _ "Suc k"])
  qed
qed

lemma first_prefix_None: "first_prefix P xs ys = None \<Longrightarrow> \<not> P (xs @ ys)"
  by (induction P xs ys rule: first_prefix.induct) (auto split: if_splits)

lemma consistencySatisfied_iff:
  "distinct (map fst req) \<Longrightarrow>
     consistencySatisfied req num \<longleftrightarrow> (\<forall>dc k. map_of req dc = Some k \<longrightarrow> k \<le> num dc)"
  by (auto simp: consistencySatisfied_def list_all_iff not_less)

lemma read_loop_run:
  assumes "\<forall>n \<in> set ns. map_of nm (node_id n) = Some n" and "length done + length ns \<le> N"
  shows "read_loop req nm N (received q done) (length done) (received_values q done)
      (map (\<lambda>n. \<lparr>qr_nid = node_id n, qr_val = fst (q n), qr_err = snd (q n)\<rparr>) ns) =
    (case first_prefix (\<lambda>ms. consistencySatisfied req (received q ms)) done ns of
       Some ms \<Rightarrow> Ret (received_values q ms)
     | None \<Rightarrow> Err (if N \<le> length done + length ns
         then Errorf ''Errors received from remote nodes, could not satisfy consistency''
         else TimeoutError ''Read not completed before timeout''))"
  using assms
proof (induction ns arbitrary: "done")
  case (Cons n ns)
  have "received q (done @ [n]) =
      (if succeeded q n then (received q done)(node_dcId n := received q done (node_dcId n) + 1) else received q done)"
    by (auto simp: received_def)
  moreover have "received_values q (done @ [n]) =
      (if succeeded q n then received_values q done @ [fst (q n)] else received_values q done)"
    by (simp add: received_values_def)
  moreover note Cons.IH [of "done @ [n]"] Cons.prems
  ultimately show ?case by (auto simp: succeeded_def split: option.split)
qed simp

section \<open>The result of a read\<close>

text \<open>
  A read at a level that is implemented, on replicas with different identifiers, each of which
  answers at most once.
\<close>

definition read_setting ::
    "Cluster \<Rightarrow> replica_map \<Rightarrow> string \<Rightarrow> ConsistencyLevel \<Rightarrow> Node list \<Rightarrow> Node list \<Rightarrow> bool" where
  "read_setting c replicaMap key cl early later \<longleftrightarrow>
     readable cl \<and> mset replicaMap = mset (GetNodesForKey c key) \<and> distinct (map fst replicaMap) \<and>
     distinct (map node_id (asked_nodes (GetDatacenterId c) cl replicaMap)) \<and>
     mset early \<subseteq># mset (asked_nodes (GetDatacenterId c) cl replicaMap) \<and>
     mset later \<subseteq># mset (asked_nodes (GetDatacenterId c) cl replicaMap)"

definition enough :: "answers \<Rightarrow> DatacenterID \<Rightarrow> ConsistencyLevel \<Rightarrow> replica_map \<Rightarrow> Node list \<Rightarrow> bool" where
  "enough q dc cl replicaMap ns \<longleftrightarrow>
     (\<forall>(dcid, nodes) \<in> set replicaMap. needed dc cl dcid nodes \<le> received q ns dcid)"

lemma numMappedNodes_alt: "numMappedNodes replicaMap = sum_list (map (length \<circ> snd) replicaMap)"
proof -
  have "fold (\<lambda>(_, nodes) num. num + length nodes) replicaMap k = k + sum_list (map (length \<circ> snd) replicaMap)" for k
    by (induction replicaMap arbitrary: k) (auto simp: add.assoc)
  then show ?thesis by (simp add: numMappedNodes_def)
qed

lemma length_asked: "length (asked_nodes dc cl replicaMap) \<le> numMappedNodes replicaMap"
  unfolding numMappedNodes_alt asked_nodes_def by (induction replicaMap) auto

lemma enough_mono: "enough q dc cl rm (take k ns) \<Longrightarrow> enough q dc cl rm ns"
proof -
  assume "enough q dc cl rm (take k ns)"
  moreover have "received q (take k ns) d \<le> received q (take k ns @ drop k ns) d" for d
    by (simp only: received_def filter_append length_append le_add1)
  ultimately show ?thesis unfolding enough_def by (fastforce intro: le_trans)
qed

lemma ExecuteRead_run:
  assumes "read_setting c replicaMap key cl early later" and q: "q = answers_to query cmd key args"
  shows "\<exists>nm. (\<forall>n \<in> set (asked_nodes (GetDatacenterId c) cl replicaMap). map_of nm (node_id n) = Some n) \<and>
    ExecuteRead query c replicaMap cmd key args cl synchronous early later =
      (case first_prefix (enough q (GetDatacenterId c) cl replicaMap) [] early of
         None \<Rightarrow> Err (if numMappedNodes replicaMap \<le> length early
           then Errorf ''Errors received from remote nodes, could not satisfy consistency''
           else TimeoutError ''Read not completed before timeout'')
       | Some ms \<Rightarrow>
           (case Reconcile key (received_values q ms) of
              Err err \<Rightarrow> Err (Errorf ''Error reconciling values: %v'')
            | Panic p \<Rightarrow> Panic p
            | Ret (val, _) \<Rightarrow>
                let repair = reconcileRead key nm (map (query_response query cmd key args) later)
                in if synchronous then obind repair (\<lambda>writes. Ret (val, Ret writes)) else Ret (val, repair)))"
proof -
  let ?dc = "GetDatacenterId c"
  let ?asked = "asked_nodes ?dc cl replicaMap"
  from assms(1) have setting: "readable cl" "distinct (map fst replicaMap)" "inj_on node_id (set ?asked)"
    and early: "mset early \<subseteq># mset ?asked" by (auto simp: read_setting_def distinct_map)
  from start_queries_spec [OF setting(1,2), of "[]" "[]" ?dc "[]"] setting(3) obtain req nm where
    start: "start_queries ?dc cl replicaMap [] [] [] = Inr (req, nm, ?asked)"
    and req: "distinct (map fst req)"
      "\<forall>d. map_of req d =
        (case map_of replicaMap d of None \<Rightarrow> map_of [] d | Some nodes \<Rightarrow> Some (needed ?dc cl d nodes))"
    and nm: "\<forall>n \<in> set ?asked. map_of nm (node_id n) = Some n" by auto
  have resp: "query_response query cmd key args = (\<lambda>n. \<lparr>qr_nid = node_id n, qr_val = fst (q n), qr_err = snd (q n)\<rparr>)"
    by (auto simp: query_response_def q answers_to_def split: prod.split)
  have "consistencySatisfied req (received q ms) = enough q ?dc cl replicaMap ms" for ms
    using setting(2) unfolding consistencySatisfied_iff [OF req(1)] enough_def
    by (auto simp: req(2) split: option.splits dest: map_of_SomeD)
  then have sat: "(\<lambda>ms. consistencySatisfied req (received q ms)) = enough q ?dc cl replicaMap" by blast
  have "\<forall>n \<in> set early. map_of nm (node_id n) = Some n" using set_mset_mono [OF early] nm by auto
  moreover have "length early \<le> numMappedNodes replicaMap"
    using size_mset_mono [OF early] length_asked [of ?dc cl replicaMap] by simp
  moreover have "received q [] = (\<lambda>_. 0)" "received_values q [] = []"
    by (auto simp: received_def received_values_def)
  ultimately have "read_loop req nm (numMappedNodes replicaMap) (\<lambda>_. 0) 0 []
      (map (query_response query cmd key args) early) =
    (case first_prefix (enough q ?dc cl replicaMap) [] early of
       Some ms \<Rightarrow> Ret (received_values q ms)
     | None \<Rightarrow> Err (if numMappedNodes replicaMap \<le> length early
         then Errorf ''Errors received from remote nodes, could not satisfy consistency''
         else TimeoutError ''Read not completed before timeout''))"
    using read_loop_run [of early nm "[]" "numMappedNodes replicaMap" req q]
    unfolding resp sat list.size add_0 by simp
  with start nm show ?thesis
    by (intro exI [of _ nm]) (simp add: ExecuteRead_def Let_def split: option.split)
qed

lemma ExecuteRead_Ret:
  assumes "read_setting c replicaMap key cl early later" and q: "q = answers_to query cmd key args"
    and ret: "ExecuteRead query c replicaMap cmd key args cl synchronous early later = Ret (val, repair)"
  obtains nm k ins where "\<forall>n \<in> set (asked_nodes (GetDatacenterId c) cl replicaMap). map_of nm (node_id n) = Some n"
    and "enough q (GetDatacenterId c) cl replicaMap (take k early)"
    and "Reconcile key (received_values q (take k early)) = Ret (val, ins)"
    and "repair = reconcileRead key nm (map (query_response query cmd key args) later)"
proof -
  from ExecuteRead_run [OF assms(1,2), of synchronous] obtain nm where
    nm: "\<forall>n \<in> set (asked_nodes (GetDatacenterId c) cl replicaMap). map_of nm (node_id n) = Some n"
    and run: "Ret (val, repair) =
      (case first_prefix (enough q (GetDatacenterId c) cl replicaMap) [] early of
         None \<Rightarrow> Err (if numMappedNodes replicaMap \<le> length early
           then Errorf ''Errors received from remote nodes, could not satisfy consistency''
           else TimeoutError ''Read not completed before timeout'')
       | Some ms \<Rightarrow>
           (case Reconcile key (received_values q ms) of
              Err err \<Rightarrow> Err (Errorf ''Error reconciling values: %v'')
            | Panic p \<Rightarrow> Panic p
            | Ret (val, _) \<Rightarrow>
                let repair = reconcileRead key nm (map (query_response query cmd key args) later)
                in if synchronous then obind repair (\<lambda>writes. Ret (val, Ret writes)) else Ret (val, repair)))"
    unfolding ret by blast
  from run obtain ms where ms: "first_prefix (enough q (GetDatacenterId c) cl replicaMap) [] early = Some ms"
    by (cases "first_prefix (enough q (GetDatacenterId c) cl replicaMap) [] early") auto
  from run ms obtain x ins where rec: "Reconcile key (received_values q ms) = Ret (x, ins)"
    by (cases "Reconcile key (received_values q ms)") auto
  let ?repair = "reconcileRead key nm (map (query_response query cmd key args) later)"
  have "x = val" "repair = ?repair"
    using run ms rec by (cases synchronous; cases ?repair; auto)+
  moreover from first_prefix_Some [OF ms] obtain k where "enough q (GetDatacenterId c) cl replicaMap ms" "ms = take k early"
    by auto
  ultimately show thesis using that nm rec by blast
qed

section \<open>Reconciling answers\<close>

text \<open>What a replica answers for a key that has been written: a string or a tombstone with a time.\<close>

fun proper :: "vref option \<Rightarrow> bool" where
  "proper None = False"
| "proper (Some (a, v)) \<longleftrightarrow> Time_Before zero_Time (GetTimestamp v) \<and> GetValueType v \<noteq> BOOL_VALUE"

lemma getHighValue_loop_proper:
  assumes "\<forall>v \<in> set vals. proper v" and "hv = None \<longrightarrow> hts = zero_Time \<and> vals \<noteq> []"
    and "\<forall>x. hv = Some x \<longrightarrow> proper hv"
  shows "\<exists>x. getHighValue_loop hts hv vals = Ret (Some x) \<and> (hv = Some x \<or> Some x \<in> set vals) \<and> proper (Some x)"
  using assms
proof (induction vals arbitrary: hts hv)
  case Nil
  then show ?case by (cases hv) auto
next
  case (Cons val vals)
  then obtain v where v: "val = Some v" "proper val" by (cases val) auto
  show ?case
  proof (cases "Time_Before hts (GetTimestamp (snd v))")
    case True
    with Cons.IH [of val "GetTimestamp (snd v)"] Cons.prems v show ?thesis by (auto simp: Time_After_def)
  next
    case False
    then have "hv \<noteq> None" using Cons.prems(2) v by (cases v) auto
    with Cons.IH [of hv hts] Cons.prems v False show ?thesis by (auto simp: Time_After_def)
  qed
qed

lemma Reconcile_proper:
  assumes "vals \<noteq> []" and "\<forall>v \<in> set vals. proper v"
  shows "\<exists>hv ins. Reconcile key vals = Ret (Some hv, ins) \<and> Some hv \<in> set vals"
proof -
  from getHighValue_loop_proper [OF assms(2), of None zero_Time] assms(1) obtain x where
    x: "getHighValue vals = Ret (Some x)" "Some x \<in> set vals" "proper (Some x)"
    by (auto simp: getHighValue_def)
  obtain a v where "x = (a, v)" by fastforce
  with x show ?thesis
    by (cases vals rule: remdups_adj.cases; cases v) (use assms in \<open>auto simp: Reconcile_def elim: proper.elims\<close>)
qed

lemma Reconcile_newest:
  assumes "Reconcile key vals = Ret (r, ins)" and "Some v \<in> set vals"
  shows "\<exists>hv. r = Some hv \<and> Some hv \<in> set vals \<and> \<not> Time_Before (GetTimestamp (snd hv)) (GetTimestamp (snd v))"
proof (cases "1 < length vals")
  case False
  with assms show ?thesis by (cases v; cases vals rule: remdups_adj.cases) (auto simp: Reconcile_def)
next
  case True
  then obtain a b vs where vals: "vals = a # b # vs" by (cases vals rule: remdups_adj.cases) auto
  from assms(1) obtain hv where hv: "getHighValue vals = Ret (Some hv)" "r = Some hv"
    unfolding Reconcile_def vals
    by (cases "getHighValue (a # b # vs)") (auto split: option.splits prod.splits Value.splits)
  with getHighValue_max(2,3) [OF hv(1)] assms(2) show ?thesis by auto
qed

section \<open>Quorums\<close>

text \<open>The nodes carry the name of the datacenter in whose ring they are.\<close>

definition labelled :: "replica_map \<Rightarrow> bool" where
  "labelled replicaMap \<longleftrightarrow> list_all (\<lambda>(dcid, nodes). list_all (\<lambda>n. node_dcId n = dcid) nodes) replicaMap"

lemma filter_same: "list_all (\<lambda>x. f x = d) xs \<Longrightarrow> filter (\<lambda>x. f x = e) xs = (if d = e then xs else [])"
  by (induction xs) auto

lemma asked_not_in_dc:
  assumes "labelled replicaMap" and "dcid \<notin> fst ` set replicaMap"
  shows "filter (\<lambda>n. node_dcId n = dcid) (asked_nodes dc cl replicaMap) = []"
  using assms
proof (induction replicaMap)
  case (Cons entry replicaMap)
  then show ?case
    by (cases entry) (auto simp: labelled_def asked_nodes_def filter_same)
qed (simp add: asked_nodes_def)

lemma asked_in_dc:
  assumes "labelled replicaMap" and "distinct (map fst replicaMap)" and "(dcid, nodes) \<in> set replicaMap"
  shows "filter (\<lambda>n. node_dcId n = dcid) (asked_nodes dc cl replicaMap) =
    (if dcid \<noteq> dc \<and> readLocalOnly cl then [] else nodes)"
  using assms
proof (induction replicaMap)
  case (Cons entry replicaMap)
  obtain d ns where e: "entry = (d, ns)" by fastforce
  have all: "list_all (\<lambda>n. node_dcId n = d) ns" and rest: "labelled replicaMap"
    using Cons.prems(1) by (simp_all add: labelled_def e)
  note ns = filter_same [OF all, of dcid]
  have a: "asked_nodes dc cl (entry # replicaMap) =
      (if d \<noteq> dc \<and> readLocalOnly cl then [] else ns) @ asked_nodes dc cl replicaMap"
    by (simp add: asked_nodes_def e)
  show ?case
  proof (cases "d = dcid")
    case True
    then have "dcid \<notin> fst ` set replicaMap" "nodes = ns" using Cons.prems(2,3) by (force simp: e)+
    then show ?thesis using True ns asked_not_in_dc [OF rest] by (auto simp: a)
  next
    case False
    with Cons.IH [OF rest] Cons.prems(2,3) ns show ?thesis unfolding a by (auto simp: e)
  qed
qed simp

lemma quorum_overlap:
  assumes "mset ms \<subseteq># mset nodes" and "length nodes < 2 * length (filter P nodes)"
    and "length nodes div 2 + 1 \<le> length ms"
  shows "\<exists>n \<in> set ms. P n"
proof (rule ccontr)
  assume "\<not> (\<exists>n \<in> set ms. P n)"
  then have id: "filter (\<lambda>n. \<not> P n) ms = ms" by (simp add: filter_id_conv)
  have "mset (filter (\<lambda>n. \<not> P n) ms) \<subseteq># mset (filter (\<lambda>n. \<not> P n) nodes)"
    using multiset_filter_mono [OF assms(1), of "\<lambda>n. \<not> P n"] by simp
  then have "length ms \<le> length (filter (\<lambda>n. \<not> P n) nodes)" unfolding id by (metis size_mset_mono size_mset)
  moreover have "length (filter P nodes) + length (filter (\<lambda>n. \<not> P n) nodes) = length nodes"
    by (rule sum_length_filter_compl)
  ultimately show False using assms(2,3) by linarith
qed

section \<open>Properties\<close>

text \<open>A replica that answers with a value at least as new as the time \<open>t\<close>, or with an error.\<close>

definition fresh :: "answers \<Rightarrow> Time \<Rightarrow> Node \<Rightarrow> bool" where
  "fresh q t n \<longleftrightarrow>
     \<not> succeeded q n \<or> (case fst (q n) of None \<Rightarrow> False | Some (_, v) \<Rightarrow> \<not> Time_Before (GetTimestamp v) t)"

text \<open>
  C16: a quorum read sees what a quorum holds.  If more than half of the replicas of a datacenter
  hold a value that is at least as new as \<open>t\<close> or answer with an error, and the read asks this
  datacenter at a quorum level, then the value that the read returns is at least as new as \<open>t\<close>,
  whichever replicas answer first.
\<close>

theorem quorum_read_newest:
  assumes "read_setting c replicaMap key cl early later" and "labelled replicaMap"
    and "(dcid, nodes) \<in> set replicaMap"
    and "cl = CONSISTENCY_QUORUM \<or> cl = CONSISTENCY_QUORUM_LOCAL \<and> dcid = GetDatacenterId c"
    and "length nodes < 2 * length (filter (fresh (answers_to query cmd key args) t) nodes)"
    and "ExecuteRead query c replicaMap cmd key args cl synchronous early later = Ret (val, repair)"
  shows "\<exists>a v. val = Some (a, v) \<and> \<not> Time_Before (GetTimestamp v) t"
proof -
  let ?q = "answers_to query cmd key args" and ?dc = "GetDatacenterId c"
  from ExecuteRead_Ret [OF assms(1) refl assms(6)] obtain k ins where
    enough: "enough ?q ?dc cl replicaMap (take k early)"
    and rec: "Reconcile key (received_values ?q (take k early)) = Ret (val, ins)" by metis
  define ms where "ms = take k early"
  have asks: "\<not> (dcid \<noteq> ?dc \<and> readLocalOnly cl)"
    using assms(4) by (auto simp: readLocalOnly_def consistency_defs)
  let ?ms = "filter (\<lambda>n. succeeded ?q n \<and> node_dcId n = dcid) ms"
  have "mset ms \<subseteq># mset early" 
    unfolding ms_def by (metis append_take_drop_id mset_append mset_subset_eq_add_left)
  then have "mset ms \<subseteq># mset (asked_nodes ?dc cl replicaMap)"
    using assms(1) subset_mset.order_trans by (auto simp: read_setting_def)
  then have "mset (filter (\<lambda>n. node_dcId n = dcid) ms) \<subseteq>#
      mset (filter (\<lambda>n. node_dcId n = dcid) (asked_nodes ?dc cl replicaMap))"
    by (simp add: multiset_filter_mono)
  moreover have "filter (\<lambda>n. node_dcId n = dcid) (asked_nodes ?dc cl replicaMap) = nodes"
    using asked_in_dc [OF assms(2) _ assms(3), of ?dc cl] assms(1) asks by (auto simp: read_setting_def)
  moreover have "mset ?ms \<subseteq># mset (filter (\<lambda>n. node_dcId n = dcid) ms)"
    using multiset_filter_subset [of "succeeded ?q" "mset (filter (\<lambda>n. node_dcId n = dcid) ms)"]
    by (simp add: filter_filter_mset conj_commute)
  ultimately have sub: "mset ?ms \<subseteq># mset nodes" using subset_mset.order_trans by blast
  have "needed ?dc cl dcid nodes \<le> length ?ms"
    using enough assms(3) by (auto simp: enough_def received_def ms_def)
  then have "length nodes div 2 + 1 \<le> length ?ms"
    using asks assms(4) by (auto simp: needed_def required_responses_def consistency_defs split: if_splits)
  from quorum_overlap [OF sub assms(5) this] obtain n where n: "n \<in> set ms" "succeeded ?q n" "fresh ?q t n" by auto
  then obtain a v where v: "fst (?q n) = Some (a, v)" "\<not> Time_Before (GetTimestamp v) t"
    by (auto simp: fresh_def succeeded_def split: prod.splits option.splits)
  then have "Some (a, v) \<in> set (received_values ?q ms)" using n 
    by (force simp: received_values_def)
  from Reconcile_newest [OF rec this [unfolded ms_def]] v(2) Time_Before_weak show ?thesis by fastforce
qed

lemma read_fails:
  assumes "read_setting c replicaMap key cl early later" and "q = answers_to query cmd key args"
    and "\<not> enough q (GetDatacenterId c) cl replicaMap early"
  shows "ExecuteRead query c replicaMap cmd key args cl synchronous early later =
    Err (if numMappedNodes replicaMap \<le> length early
      then Errorf ''Errors received from remote nodes, could not satisfy consistency''
      else TimeoutError ''Read not completed before timeout'')"
proof -
  have none: "first_prefix (enough q (GetDatacenterId c) cl replicaMap) [] early = None"
  proof (cases "first_prefix (enough q (GetDatacenterId c) cl replicaMap) [] early")
    case (Some ms)
    from first_prefix_Some [OF this] obtain k where "enough q (GetDatacenterId c) cl replicaMap (take k early)" by auto
    from enough_mono [OF this] assms(3) show ?thesis by blast
  qed
  show ?thesis
    using ExecuteRead_run [OF assms(1,2), of synchronous] unfolding none option.case by blast
qed

lemma reconcile_loop_run:
  assumes "k + length ns \<le> N"
  shows "reconcile_loop N k vals nids (map (query_response query cmd key args) ns) =
    (vals @ received_values (answers_to query cmd key args) ns,
     nids @ map node_id (filter (succeeded (answers_to query cmd key args)) ns))"
  using assms
proof (induction ns arbitrary: k vals nids)
  case (Cons n ns)
  have "qr_err (query_response query cmd key args n) = snd (answers_to query cmd key args n)"
    "qr_val (query_response query cmd key args n) = fst (answers_to query cmd key args n)"
    "qr_nid (query_response query cmd key args n) = node_id n"
    by (simp_all add: query_response_def answers_to_def split: prod.split)
  with Cons show ?case
    by (auto simp: received_values_def succeeded_def split: option.split)
qed (simp add: received_values_def)

lemma repair_map_size:
  assumes "\<forall>n \<in> set asked. map_of nm (node_id n) = Some n" and "distinct asked" and "inj_on node_id (set asked)"
    and "mset later \<subseteq># mset asked"
  shows "length later \<le> length nm"
proof -
  have "node_id ` set asked \<subseteq> fst ` set nm" using assms(1) by (force dest!: map_of_SomeD)
  from card_mono [OF _ this] have "card (node_id ` set asked) \<le> card (fst ` set nm)" by simp
  also have "\<dots> \<le> length nm" using card_length [of "map fst nm"] by simp
  finally have "length asked \<le> length nm" using assms(2,3) by (simp add: card_image distinct_card)
  with size_mset_mono [OF assms(4)] show ?thesis by simp
qed

lemma reconcileRead_run:
  assumes "length later \<le> length nm" and "q = answers_to query cmd key args"
  shows "reconcileRead key nm (map (query_response query cmd key args) later) =
    (case Reconcile key (received_values q later) of
       Ret (_, instructions) \<Rightarrow>
         Ret (concat (map (\<lambda>(nid, instructionList). map (\<lambda>inst. (map_of nm nid, inst)) instructionList)
           (zip (map node_id (filter (succeeded q) later)) instructions)))
     | Err err \<Rightarrow> Ret []
     | Panic p \<Rightarrow> Panic p)"
  using assms(1) unfolding assms(2) by (simp add: reconcileRead_def reconcile_loop_run)

lemma repair_runs:
  assumes "read_setting c replicaMap key cl early later" and q: "q = answers_to query cmd key args"
    and "\<forall>n \<in> set (asked_nodes (GetDatacenterId c) cl replicaMap). map_of nm (node_id n) = Some n"
    and "\<forall>n \<in> set later. succeeded q n \<longrightarrow> proper (fst (q n))"
  shows "\<exists>ws. reconcileRead key nm (map (query_response query cmd key args) later) = Ret ws"
proof -
  have len: "length later \<le> length nm"
    using repair_map_size [OF assms(3)] assms(1) by (simp add: read_setting_def distinct_map)
  show ?thesis
  proof (cases "received_values q later = []")
    case True
    then show ?thesis by (simp add: reconcileRead_run [OF len q] Reconcile_def)
  next
    case False
    have "\<forall>v \<in> set (received_values q later). proper v" using assms(4) by (auto simp: received_values_def)
    from Reconcile_proper [OF False this, of key] show ?thesis by (auto simp: reconcileRead_run [OF len q])
  qed
qed

lemma read_answers:
  assumes "read_setting c replicaMap key cl early later" and q: "q = answers_to query cmd key args"
    and "\<exists>(dcid, nodes) \<in> set replicaMap. 0 < needed (GetDatacenterId c) cl dcid nodes"
    and proper: "\<forall>n \<in> set early \<union> set later. succeeded q n \<longrightarrow> proper (fst (q n))"
    and "enough q (GetDatacenterId c) cl replicaMap early"
  shows "\<exists>val ws. ExecuteRead query c replicaMap cmd key args cl synchronous early later = Ret (val, Ret ws)"
proof -
  let ?dc = "GetDatacenterId c"
  from assms(5) obtain ms where ms: "first_prefix (enough q ?dc cl replicaMap) [] early = Some ms"
    using first_prefix_None [of "enough q ?dc cl replicaMap" "[]" early] by fastforce
  from first_prefix_Some [OF ms] obtain k where k: "enough q ?dc cl replicaMap ms" "ms = take k early" by auto
  obtain dcid nodes where "(dcid, nodes) \<in> set replicaMap" "0 < needed ?dc cl dcid nodes" using assms(3) by auto
  with k(1) have "0 < received q ms dcid" by (auto simp: enough_def)
  then have "received_values q ms \<noteq> []"
    by (auto simp: received_def received_values_def filter_empty_conv)
  moreover have "\<forall>v \<in> set (received_values q ms). proper v"
    using proper k(2) by (auto simp: received_values_def dest: in_set_takeD)
  ultimately obtain hv ins where rec: "Reconcile key (received_values q ms) = Ret (Some hv, ins)"
    using Reconcile_proper by blast
  from ExecuteRead_run [OF assms(1) q, of synchronous] obtain nm where
    nm: "\<forall>n \<in> set (asked_nodes ?dc cl replicaMap). map_of nm (node_id n) = Some n"
    and run: "ExecuteRead query c replicaMap cmd key args cl synchronous early later =
      (let repair = reconcileRead key nm (map (query_response query cmd key args) later)
       in if synchronous then obind repair (\<lambda>writes. Ret (Some hv, Ret writes)) else Ret (Some hv, repair))"
    unfolding ms rec option.case outcome.case prod.case by blast
  from repair_runs [OF assms(1) q nm] proper obtain ws where
    "reconcileRead key nm (map (query_response query cmd key args) later) = Ret ws" by blast
  then show ?thesis using run by (simp add: Let_def)
qed


lemma distinct_sub:
  assumes "mset xs \<subseteq># mset ys" and "distinct ys"
  shows "distinct xs"
proof -
  obtain zs where "mset ys = mset (xs @ zs)"
    using assms(1) by (metis ex_mset mset_append mset_subset_eq_exists_conv)
  with assms(2) show ?thesis by (metis distinct_append mset_eq_imp_distinct_iff)
qed

lemma filter_writes:
  assumes "distinct ns" and "length ns = length ins" and "i < length ns"
  shows "map snd (filter (\<lambda>w. fst w = Some (ns ! i))
    (concat (map (\<lambda>(n, l). map (\<lambda>inst. (Some n, inst)) l) (zip ns ins)))) = ins ! i"
  using assms
proof (induction ns arbitrary: ins i)
  case (Cons n ns)
  then obtain l ins' where ins: "ins = l # ins'" by (cases ins) auto
  have other: "filter (\<lambda>w. fst w = Some m) (concat (map (\<lambda>(n, l). map (\<lambda>inst. (Some n, inst)) l) (zip ns ls))) = []"
    if "m \<notin> set ns" for m and ls :: "'b list list"
    using that by (auto simp: filter_empty_conv dest: set_zip_leftD)
  show ?case
  proof (cases i)
    case 0
    then show ?thesis using Cons.prems(1) other [of n ins'] by (simp add: ins filter_map o_def)
  next
    case (Suc j)
    then have "ns ! j \<noteq> n" using Cons.prems by auto
    then show ?thesis using Cons.IH [of ins' j] Cons.prems Suc by (simp add: ins filter_map o_def)
  qed
qed simp

lemma map_of_ids:
  assumes "\<forall>n \<in> set asked. map_of nm (node_id n) = Some n" and "set ns \<subseteq> set asked"
  shows "concat (map (\<lambda>(nid, l). map (\<lambda>inst. (map_of nm nid, inst)) l) (zip (map node_id ns) ins)) =
    concat (map (\<lambda>(n, l). map (\<lambda>inst. (Some n, inst)) l) (zip ns ins))"
  using assms(2)
proof (induction ns arbitrary: ins)
  case (Cons n ns)
  then show ?case using assms(1) by (cases ins) auto
qed simp


section \<open>Examples\<close>

definition ex_reading :: Cluster where
  "ex_reading =
     \<lparr>c_store = NewKVStore, c_seeds = [], c_replicationFactor = 3,
      c_topology = \<lparr>partitioner = (\<lambda>_. []), localNodeID = node_id (ex_node 1), localDcID = ''DC1'', replicationFactor = 3,
        rings = [(''DC1'', \<lparr>nodeMap = [], tokenRing = [ex_node 1, ex_node 2, ex_node 3], priorRing = []\<rparr>)],
        top_nodes = Map.empty\<rparr>,
      c_name = ''n'', c_token = [1], c_nodeId = node_id (ex_node 1), c_dcId = ''DC1'', c_peerAddr = '''',
      c_status = CLUSTER_NORMAL, c_isRunning = True, c_listening = True, c_localStarted = True, c_remotes = [],
      c_streams = []\<rparr>"

definition ex_query :: query where
  "ex_query n cmd key args timestamp =
     (if node_ref n = 1 then (Some (1, String ''old'' (ex_time 1)), None)
      else (Some (node_ref n, String ''new'' (ex_time 2)), None))"

lemma ex_replicas: "GetNodesForKey ex_reading ''k'' = [(''DC1'', [ex_node 1, ex_node 2, ex_node 3])]"
  by code_simp

lemma ex_setting:
  "read_setting ex_reading [(''DC1'', [ex_node 1, ex_node 2, ex_node 3])] ''k'' CONSISTENCY_QUORUM
     [ex_node 1, ex_node 2] [ex_node 1, ex_node 2]"
  by (simp add: read_setting_def ex_replicas readable_def asked_nodes_def readLocalOnly_def consistency_defs
      ex_node_def)

lemma ex_read:
  "ExecuteRead ex_query ex_reading [(''DC1'', [ex_node 1, ex_node 2, ex_node 3])] GET ''k'' [] CONSISTENCY_QUORUM True
     [ex_node 1, ex_node 2] [ex_node 1, ex_node 2] =
   Ret (Some (2, String ''new'' (ex_time 2)), Ret [(Some (ex_node 1), ex_set ''k'' ''new'' 2)])"
  by code_simp

theorem quorum_read_newest_witness:
  "\<exists>a v w. ExecuteRead ex_query ex_reading [(''DC1'', [ex_node 1, ex_node 2, ex_node 3])] GET ''k'' []
       CONSISTENCY_QUORUM True [ex_node 1, ex_node 2] [ex_node 1, ex_node 2] = Ret (Some (a, v), w) \<and>
     \<not> Time_Before (GetTimestamp v) (ex_time 2)"
proof -
  have "length [ex_node 1, ex_node 2, ex_node 3] <
      2 * length (filter (fresh (answers_to ex_query GET ''k'' []) (ex_time 2)) [ex_node 1, ex_node 2, ex_node 3])"
    by code_simp
  from quorum_read_newest [OF ex_setting _ _ _ this ex_read] ex_read show ?thesis
    by (auto simp: labelled_def ex_node_def)
qed



text \<open>
  The nodes of the program do not implement queries: every one of them answers nil.  A read that
  waits for more than one of them dereferences the nil value.
\<close>

theorem own_nodes_panic:
  "ExecuteRead Node_ExecuteQuery ex_reading [(''DC1'', [ex_node 1, ex_node 2, ex_node 3])] GET ''k'' []
     CONSISTENCY_QUORUM True [ex_node 1, ex_node 2] [ex_node 1, ex_node 2] = Panic ''nil pointer dereference''"
  by code_simp

text \<open>
  A local read that can no longer succeed does not notice: the loop compares the responses with the
  replicas of all datacenters, but only those of its own datacenter have been asked.
\<close>

theorem local_read_waits:
  assumes "read_setting c replicaMap key cl early later" and "readLocalOnly cl"
    and "(dcid, nodes) \<in> set replicaMap" and "dcid \<noteq> GetDatacenterId c" and "nodes \<noteq> []"
    and "\<not> enough (answers_to query cmd key args) (GetDatacenterId c) cl replicaMap early"
  shows "ExecuteRead query c replicaMap cmd key args cl synchronous early later =
    Err (TimeoutError ''Read not completed before timeout'')"
proof -
  have "length (asked_nodes (GetDatacenterId c) cl rm) < numMappedNodes rm" if "(dcid, nodes) \<in> set rm" for rm
    using that
  proof (induction rm)
    case (Cons entry rm)
    note le = length_asked [of "GetDatacenterId c" cl rm]
    obtain d ns where e: "entry = (d, ns)" by fastforce
    show ?case
    proof (cases "entry = (dcid, nodes)")
      case True
      then show ?thesis
        using le assms(2,4,5) by (auto simp: asked_nodes_def numMappedNodes_alt less_eq_Suc_le neq_Nil_conv)
    next
      case False
      with Cons show ?thesis by (auto simp: asked_nodes_def numMappedNodes_alt e)
    qed
  qed simp
  from this [OF assms(3)] have "length early < numMappedNodes replicaMap"
    using assms(1) size_mset_mono [of "mset early"] by (fastforce simp: read_setting_def)
  then show ?thesis using read_fails [OF assms(1) refl assms(6)] by simp
qed

text \<open>
  The answer of a replica counts for the datacenter that the node names itself, not for the one
  whose ring it is in.  If no node of the rings names a datacenter, no read that needs it succeeds.
\<close>

theorem unlabelled_replicas_block_reads:
  assumes "read_setting c replicaMap key cl early later" and "(dcid, nodes) \<in> set replicaMap"
    and "0 < needed (GetDatacenterId c) cl dcid nodes" and "\<forall>n \<in> set early. node_dcId n \<noteq> dcid"
  shows "\<exists>e. ExecuteRead query c replicaMap cmd key args cl synchronous early later = Err e"
proof -
  have "received (answers_to query cmd key args) early dcid = 0" using assms(4) by (simp add: received_def filter_empty_conv)
  then have "\<not> enough (answers_to query cmd key args) (GetDatacenterId c) cl replicaMap early"
    using assms(2,3) by (force simp: enough_def)
  from read_fails [OF assms(1) refl this] show ?thesis by blast
qed

end
