(* ===== verification/Server.thy ===== *)
theory Server
  imports Prelude
begin

text \<open>
  The life of the peer server (\<^verbatim>\<open>cluster/server.go\<close>): the goroutine that accepts connections next
  to the calls of \<^verbatim>\<open>Start\<close> and \<^verbatim>\<open>Stop\<close>, which share the listener and the flag
  \<^verbatim>\<open>isRunning\<close> without a lock.  What a connection does once it has been accepted is
  \<^verbatim>\<open>handleConnection\<close> of the theory of the cluster; here it is a value.
\<close>

section \<open>The server\<close>

text \<open>The listener is nil, or open or closed.\<close>

datatype listener = Nil_listener | Open | Closed

record PeerServer =
  ps_listener :: listener
  ps_listenAddr :: string
  ps_isRunning :: bool

definition NewPeerServer :: "string \<Rightarrow> PeerServer" where
  "NewPeerServer listenAddr = \<lparr>ps_listener = Nil_listener, ps_listenAddr = listenAddr, ps_isRunning = False\<rparr>"

definition PeerServer_GetAddr :: "PeerServer \<Rightarrow> string" where
  "PeerServer_GetAddr s = ps_listenAddr s"

text \<open>
  One round of the loop: what \<^verbatim>\<open>Accept\<close> returns and the flag as it is read then.  The result
  is the connection to handle, if any, and whether the loop goes on.
\<close>

definition accept_round :: "error + 'conn \<Rightarrow> bool \<Rightarrow> 'conn option \<times> bool" where
  "accept_round accepted isRunning =
     (case accepted of
        Inl err \<Rightarrow> if \<not> isRunning then (None, False) else (None, True)
      | Inr conn \<Rightarrow> (Some conn, True))"

text \<open>The loop on a sequence of rounds: the connections it hands on, and whether it has returned.\<close>

fun acceptConnections :: "((error + 'conn) \<times> bool) list \<Rightarrow> 'conn list \<times> bool" where
  "acceptConnections [] = ([], False)"
| "acceptConnections ((accepted, isRunning) # rounds) =
     (case accept_round accepted isRunning of
        (conn, True) \<Rightarrow> (case acceptConnections rounds of (conns, returned) \<Rightarrow>
          ((case conn of None \<Rightarrow> [] | Some c \<Rightarrow> [c]) @ conns, returned))
      | (conn, False) \<Rightarrow> ([], True))"

section \<open>Start, Stop and the loop\<close>

text \<open>
  Besides the server: the number of accept loops that run, of calls of \<^verbatim>\<open>Start\<close> and
  \<^verbatim>\<open>Stop\<close> that have still to set the flag, and the connections handed on.  Calls of a nil
  listener panic and have no step.
\<close>

record 'conn server_state =
  sv_server :: PeerServer
  sv_loops :: nat
  sv_starting :: nat
  sv_stopping :: nat
  sv_conns :: "'conn list"

definition server_init :: "string \<Rightarrow> 'conn server_state" where
  "server_init addr = \<lparr>sv_server = NewPeerServer addr, sv_loops = 0, sv_starting = 0, sv_stopping = 0, sv_conns = []\<rparr>"

definition set_listener :: "listener \<Rightarrow> 'conn server_state \<Rightarrow> 'conn server_state" where
  "set_listener l s = s\<lparr>sv_server := (sv_server s)\<lparr>ps_listener := l\<rparr>\<rparr>"

definition set_running :: "bool \<Rightarrow> 'conn server_state \<Rightarrow> 'conn server_state" where
  "set_running b s = s\<lparr>sv_server := (sv_server s)\<lparr>ps_isRunning := b\<rparr>\<rparr>"

datatype server_label = StartListens | StartRuns | StopCloses | StopEnds | Accepts

text \<open>
  \<^verbatim>\<open>Accept\<close> gives a connection only while the listener is open, and may fail at any time.
\<close>

inductive server_step :: "'conn server_state \<Rightarrow> server_label \<Rightarrow> 'conn server_state \<Rightarrow> bool" where
  start_listens: "server_step s StartListens
    (set_listener Open s\<lparr>sv_loops := sv_loops s + 1, sv_starting := sv_starting s + 1\<rparr>)"
| start_runs: "0 < sv_starting s \<Longrightarrow> server_step s StartRuns (set_running True s\<lparr>sv_starting := sv_starting s - 1\<rparr>)"
| stop_closes: "ps_listener (sv_server s) \<noteq> Nil_listener \<Longrightarrow>
    server_step s StopCloses (set_listener Closed s\<lparr>sv_stopping := sv_stopping s + 1\<rparr>)"
| stop_ends: "0 < sv_stopping s \<Longrightarrow> server_step s StopEnds (set_running False s\<lparr>sv_stopping := sv_stopping s - 1\<rparr>)"
| accepts: "0 < sv_loops s \<Longrightarrow> (\<forall>c. accepted = Inr c \<longrightarrow> ps_listener (sv_server s) = Open) \<Longrightarrow>
    accept_round accepted (ps_isRunning (sv_server s)) = (conn, goes_on) \<Longrightarrow>
    server_step s Accepts
      (s\<lparr>sv_loops := (if goes_on then sv_loops s else sv_loops s - 1), sv_conns := sv_conns s @ (case conn of None \<Rightarrow> [] | Some c \<Rightarrow> [c])\<rparr>)"

inductive server_run :: "'conn server_state \<Rightarrow> server_label list \<Rightarrow> 'conn server_state \<Rightarrow> bool" where
  stay: "server_run s [] s"
| move: "server_step s l s' \<Longrightarrow> server_run s' ls s'' \<Longrightarrow> server_run s (l # ls) s''"

inductive_simps server_run_Cons: "server_run s (l # ls) s'"
inductive_simps server_run_Nil: "server_run s [] s'"

lemmas server_defs = set_listener_def set_running_def accept_round_def

text \<open>The loop hands on what arrives before the first failure that finds the server stopped.\<close>

lemma acceptConnections_spec:
  "acceptConnections rounds =
     (let before = takeWhile (\<lambda>(accepted, isRunning). isRunning \<or> (\<exists>c. accepted = Inr c)) rounds
      in (List.map_filter (\<lambda>(accepted, _). case accepted of Inr c \<Rightarrow> Some c | Inl _ \<Rightarrow> None) before, before \<noteq> rounds))"
  by (induction rounds rule: acceptConnections.induct)
    (auto simp: accept_round_def Let_def List.map_filter_def split: sum.splits)

text \<open>A stopped server accepts no connection until it is started again.\<close>

lemma server_run_closed:
  assumes "server_run s ls s'" and "ps_listener (sv_server s) = Closed" and "StartListens \<notin> set ls"
  shows "ps_listener (sv_server s') = Closed \<and> sv_conns s' = sv_conns s \<and> sv_loops s' \<le> sv_loops s"
  using assms
proof induction
  case (move s l s' ls s'')
  from move(1) have "ps_listener (sv_server s') = Closed \<and> sv_conns s' = sv_conns s \<and> sv_loops s' \<le> sv_loops s"
    using move(4,5) by cases (auto simp: server_defs split: sum.splits if_splits)
  then show ?case using move by auto
qed simp

text \<open>
  Every failure ends a loop of a stopped server, so that as many failures as there are loops
  end all of them.
\<close>

lemma stopped_loops_end:
  assumes "ps_listener (sv_server s) = Closed" and "\<not> ps_isRunning (sv_server s)"
    and "server_run s (replicate k Accepts) s'"
  shows "sv_loops s' = sv_loops s - k"
  using assms
proof (induction k arbitrary: s)
  case (Suc k)
  then obtain s1 where s1: "server_step s Accepts s1" "server_run s1 (replicate k Accepts) s'"
    by (auto simp: server_run_Cons)
  from s1(1) have "sv_server s1 = sv_server s" "sv_loops s1 = sv_loops s - 1"
    using Suc.prems(1,2) by (cases; auto simp: accept_round_def split: sum.splits)+
  then show ?case using Suc.IH [OF _ _ s1(2)] Suc.prems(1,2) by simp
qed (simp add: server_run_Nil)

text \<open>
  The goroutine is started before the flag is set.  When the first \<^verbatim>\<open>Accept\<close> fails in
  between, the loop takes the server for a stopped one and returns: \<^verbatim>\<open>Start\<close> succeeds, the port
  is open and the server says that it runs, but no connection is accepted.
\<close>

lemma early_failure_deaf:
  "\<exists>s. server_run (server_init addr) [StartListens, Accepts, StartRuns] s \<and>
     ps_listener (sv_server s) = Open \<and> ps_isRunning (sv_server s) \<and> sv_loops s = 0 \<and>
     (\<forall>l s'. server_step s l s' \<longrightarrow> l \<noteq> Accepts)"
proof -
  let ?s1 = "set_listener Open (server_init addr)\<lparr>sv_loops := 1, sv_starting := 1\<rparr>"
  let ?s2 = "?s1\<lparr>sv_loops := 0\<rparr>" and ?s3 = "set_running True (?s1\<lparr>sv_loops := 0\<rparr>)\<lparr>sv_starting := 0\<rparr>"
  have 1: "server_step (server_init addr) StartListens ?s1"
    using server_step.start_listens [of "server_init addr"] by (simp add: server_init_def set_listener_def)
  have 2: "server_step ?s1 Accepts ?s2"
    using server_step.accepts [of ?s1 "Inl EOF" None False]
    by (simp add: server_init_def NewPeerServer_def server_defs)
  have 3: "server_step ?s2 StartRuns ?s3"
    using server_step.start_runs [of ?s2] by (simp add: server_init_def server_defs)
  have "server_run (server_init addr) [StartListens, Accepts, StartRuns] ?s3"
    by (rule server_run.move [OF 1 server_run.move [OF 2 server_run.move [OF 3 server_run.stay]]])
  moreover have "\<not> server_step ?s3 Accepts s'" for s'
    by (auto elim!: server_step.cases simp: server_defs)
  ultimately show ?thesis by (intro exI [of _ ?s3]) (auto simp: server_defs)
qed

end
