(* ===== verification/Redis.thy ===== *)
theory Redis
  imports KVStore "HOL-Library.AList"
begin

text \<open>
  The store of the package \<^verbatim>\<open>redis\<close>.  It was the model for the key-value store and has its
  own copy of the values and the commands; it executes reads and writes by two methods, and it
  reconciles values that are given by the names of the nodes they come from.
\<close>

section \<open>Values\<close>

text \<open>\<^verbatim>\<open>redis/val_string.go\<close>, \<^verbatim>\<open>val_tombstone.go\<close>, \<^verbatim>\<open>val_bool.go\<close>\<close>

datatype RValue = RString string Time | RTombstone Time | RBoolean bool Time

definition R_STRING_VALUE :: string where "R_STRING_VALUE = ''STRING''"
definition R_TOMBSTONE_VALUE :: string where "R_TOMBSTONE_VALUE = ''TOMBSTONE''"
definition R_BOOL_VALUE :: string where "R_BOOL_VALUE = ''BOOL''"

fun RValue_GetTimestamp :: "RValue \<Rightarrow> Time" where
  "RValue_GetTimestamp (RString v t) = t"
| "RValue_GetTimestamp (RTombstone t) = t"
| "RValue_GetTimestamp (RBoolean v t) = t"

fun RValue_GetValueType :: "RValue \<Rightarrow> string" where
  "RValue_GetValueType (RString v t) = R_STRING_VALUE"
| "RValue_GetValueType (RTombstone t) = R_TOMBSTONE_VALUE"
| "RValue_GetValueType (RBoolean v t) = R_BOOL_VALUE"

definition r_baseValueEqual :: "RValue \<Rightarrow> RValue \<Rightarrow> bool" where
  "r_baseValueEqual v0 v1 =
     (if RValue_GetValueType v0 \<noteq> RValue_GetValueType v1 then False
      else if RValue_GetTimestamp v0 \<noteq> RValue_GetTimestamp v1 then False
      else True)"

definition RString_Equal :: "string \<Rightarrow> Time \<Rightarrow> RValue \<Rightarrow> bool" where
  "RString_Equal v t u =
     (if \<not> r_baseValueEqual (RString v t) u then False
      else case u of RString w _ \<Rightarrow> v = w | _ \<Rightarrow> False)"

definition RTombstone_Equal :: "Time \<Rightarrow> RValue \<Rightarrow> bool" where
  "RTombstone_Equal t u = r_baseValueEqual (RTombstone t) u"

definition RBoolean_Equal :: "bool \<Rightarrow> Time \<Rightarrow> RValue \<Rightarrow> bool" where
  "RBoolean_Equal v t u =
     (if \<not> r_baseValueEqual (RBoolean v t) u then False
      else case u of RBoolean w _ \<Rightarrow> v = w | _ \<Rightarrow> False)"

definition RString_Serialize :: "string \<Rightarrow> Time \<Rightarrow> bytes" where
  "RString_Serialize v t = WriteFieldBytes (string_bytes v) @ WriteTime t"

definition RTombstone_Serialize :: "Time \<Rightarrow> bytes" where
  "RTombstone_Serialize t = WriteTime t"

definition RBoolean_Serialize :: "bool \<Rightarrow> Time \<Rightarrow> bytes" where
  "RBoolean_Serialize v t = (if v then 0xff else 0) # WriteTime t"

fun RValue_Serialize :: "RValue \<Rightarrow> bytes" where
  "RValue_Serialize (RString v t) = RString_Serialize v t"
| "RValue_Serialize (RTombstone t) = RTombstone_Serialize t"
| "RValue_Serialize (RBoolean v t) = RBoolean_Serialize v t"

definition RString_Deserialize :: "RValue reader" where
  "RString_Deserialize =
     rbind ReadFieldBytes (\<lambda>val. rbind ReadTime (\<lambda>t. rreturn (RString (bytes_string val) t)))"

definition RTombstone_Deserialize :: "RValue reader" where
  "RTombstone_Deserialize = rbind ReadTime (\<lambda>t. rreturn (RTombstone t))"

definition RBoolean_Deserialize :: "RValue reader" where
  "RBoolean_Deserialize = rbind read_bool (\<lambda>b. rbind ReadTime (\<lambda>t. rreturn (RBoolean b t)))"

text \<open>\<^verbatim>\<open>redis/values.go\<close>\<close>

definition Redis_WriteValue :: "RValue \<Rightarrow> bytes" where
  "Redis_WriteValue v = WriteFieldBytes (string_bytes (RValue_GetValueType v)) @ RValue_Serialize v"

definition Redis_ReadValue :: "(RValue \<times> string) reader" where
  "Redis_ReadValue =
     rbind ReadFieldBytes (\<lambda>vstr.
       let vtype = bytes_string vstr in
       rbind
         (if vtype = R_STRING_VALUE then RString_Deserialize
          else if vtype = R_TOMBSTONE_VALUE then RTombstone_Deserialize
          else if vtype = R_BOOL_VALUE then RBoolean_Deserialize
          else rfail (Errorf ''Unexpected value type: %v''))
         (\<lambda>value. rreturn (value, vtype)))"

section \<open>The store\<close>

text \<open>\<^verbatim>\<open>redis/store.go\<close>, \<^verbatim>\<open>cmd_get.go\<close>, \<^verbatim>\<open>cmd_set.go\<close>, \<^verbatim>\<open>cmd_del.go\<close>\<close>

record Redis =
  r_data :: "string \<Rightarrow> RValue option"

definition NewRedis :: Redis where
  "NewRedis = \<lparr>r_data = Map.empty\<rparr>"

definition R_GET :: string where "R_GET = ''GET''"
definition R_SET :: string where "R_SET = ''SET''"
definition R_DEL :: string where "R_DEL = ''DEL''"

definition Redis_SerializeValue :: "RValue \<Rightarrow> bytes" where
  "Redis_SerializeValue v = Redis_WriteValue v"

definition Redis_DeserializeValue :: "bytes \<Rightarrow> error + (RValue \<times> string)" where
  "Redis_DeserializeValue b = map_sum id fst (Redis_ReadValue b)"

definition Redis_validateGet :: "string \<Rightarrow> string list \<Rightarrow> error option" where
  "Redis_validateGet key args =
     (if length args \<noteq> 0 then Some (Errorf ''too many args for GET'') else None)"

definition Redis_get :: "Redis \<Rightarrow> string \<Rightarrow> RValue option" where
  "Redis_get s key = r_data s key"

definition Redis_validateSet :: "string \<Rightarrow> string list \<Rightarrow> Time \<Rightarrow> error option" where
  "Redis_validateSet key args timestamp =
     (if length args \<noteq> 1
      then Some (Errorf ''incorrect number of args for SET. Expected 1, got %v'')
      else if Time_IsZero timestamp then Some (Errorf ''DEL Got zero timestamp'')
      else None)"

definition Redis_set :: "Redis \<Rightarrow> string \<Rightarrow> string \<Rightarrow> Time \<Rightarrow> Redis \<times> RValue" where
  "Redis_set s key val ts =
     (case r_data s key of
        Some existing \<Rightarrow>
          if Time_Before ts (RValue_GetTimestamp existing) then (s, existing)
          else (s\<lparr>r_data := (r_data s)(key \<mapsto> RString val ts)\<rparr>, RString val ts)
      | None \<Rightarrow> (s\<lparr>r_data := (r_data s)(key \<mapsto> RString val ts)\<rparr>, RString val ts))"

definition Redis_validateDel :: "string \<Rightarrow> string list \<Rightarrow> Time \<Rightarrow> error option" where
  "Redis_validateDel key args timestamp =
     (if length args \<noteq> 0 then Some (Errorf ''DEL takes 0 args, %v found'')
      else if Time_IsZero timestamp then Some (Errorf ''DEL Got zero timestamp'')
      else None)"

definition Redis_del :: "Redis \<Rightarrow> string \<Rightarrow> Time \<Rightarrow> Redis \<times> RValue" where
  "Redis_del s key ts =
     (case r_data s key of
        Some val \<Rightarrow> (s\<lparr>r_data := (r_data s)(key \<mapsto> RTombstone ts)\<rparr>,
                     RBoolean True (RValue_GetTimestamp val))
      | None \<Rightarrow> (s, RBoolean False zero_Time))"

definition Redis_ExecuteRead :: "Redis \<Rightarrow> string \<Rightarrow> string \<Rightarrow> string list \<Rightarrow> RValue option outcome" where
  "Redis_ExecuteRead s cmd key args =
     (if cmd = R_GET then
        (case Redis_validateGet key args of
           Some err \<Rightarrow> Err err
         | None \<Rightarrow> Ret (Redis_get s key))
      else Err (Errorf ''Unrecognized read command: %v''))"

definition Redis_ExecuteWrite ::
    "Redis \<Rightarrow> string \<Rightarrow> string \<Rightarrow> string list \<Rightarrow> Time \<Rightarrow> Redis \<times> RValue option outcome" where
  "Redis_ExecuteWrite s cmd key args timestamp =
     (if cmd = R_SET then
        (case Redis_validateSet key args timestamp of
           Some err \<Rightarrow> (s, Err err)
         | None \<Rightarrow>
             (case args of
                [] \<Rightarrow> (s, Panic ''index out of range'')
              | a # _ \<Rightarrow> (let (s', v) = Redis_set s key a timestamp in (s', Ret (Some v)))))
      else if cmd = R_DEL then
        (case Redis_validateDel key args timestamp of
           Some err \<Rightarrow> (s, Err err)
         | None \<Rightarrow> (let (s', v) = Redis_del s key timestamp in (s', Ret (Some v))))
      else (s, Err (Errorf ''Unrecognized write command: %v'')))"

definition IsReadCommand :: "string \<Rightarrow> bool" where
  "IsReadCommand cmd = (if ToUpper cmd = R_GET then True else False)"

definition IsWriteCommand :: "string \<Rightarrow> bool" where
  "IsWriteCommand cmd = (if ToUpper cmd = R_SET \<or> ToUpper cmd = R_DEL then True else False)"

definition Redis_ReturnsValue :: "string \<Rightarrow> bool" where
  "Redis_ReturnsValue cmd = (if ToUpper cmd = R_GET then True else False)"

definition Redis_GetRawKey :: "Redis \<Rightarrow> string \<Rightarrow> RValue outcome" where
  "Redis_GetRawKey s key =
     (case r_data s key of
        None \<Rightarrow> Err (Errorf ''key [%v] does not exist'')
      | Some val \<Rightarrow> Ret val)"

definition Redis_SetRawKey :: "Redis \<Rightarrow> string \<Rightarrow> RValue \<Rightarrow> Redis" where
  "Redis_SetRawKey s key val = s\<lparr>r_data := (r_data s)(key \<mapsto> val)\<rparr>"

definition Redis_KeyExists :: "Redis \<Rightarrow> string \<Rightarrow> bool" where
  "Redis_KeyExists s key = (case r_data s key of Some _ \<Rightarrow> True | None \<Rightarrow> False)"

definition Redis_GetKeys :: "Redis \<Rightarrow> string list \<Rightarrow> bool" where
  "Redis_GetKeys s keys \<longleftrightarrow> distinct keys \<and> set keys = dom (r_data s)"

section \<open>Reconciliation\<close>

text \<open>
  The values are a map from the names of nodes to pointers; it is given as a list of its entries in
  the order in which a range over it yields them.
\<close>

type_synonym rref = "nat \<times> RValue"

fun Redis_getHighValue_loop :: "Time \<Rightarrow> rref option \<Rightarrow> (string \<times> rref option) list \<Rightarrow> rref option outcome" where
  "Redis_getHighValue_loop highTimestamp highValue [] = Ret highValue"
| "Redis_getHighValue_loop highTimestamp highValue ((_, None) # vals) = Panic ''nil pointer dereference''"
| "Redis_getHighValue_loop highTimestamp highValue ((_, Some val) # vals) =
     (let ts = RValue_GetTimestamp (snd val) in
      if Time_After ts highTimestamp then Redis_getHighValue_loop ts (Some val) vals
      else Redis_getHighValue_loop highTimestamp highValue vals)"

definition Redis_getHighValue :: "(string \<times> rref option) list \<Rightarrow> rref option outcome" where
  "Redis_getHighValue values = Redis_getHighValue_loop zero_Time None values"

definition Redis_reconcileString ::
    "string \<Rightarrow> string \<Rightarrow> Time \<Rightarrow> (string \<times> rref) list \<Rightarrow> (string \<times> Instruction list) list" where
  "Redis_reconcileString key value t values =
     fold (\<lambda>(nodeid, val) instructions.
       if \<not> RString_Equal value t (snd val)
       then AList.update nodeid [\<lparr>Cmd = ''SET'', Key = key, Args = [value], Timestamp = t\<rparr>] instructions
       else instructions) values []"

definition Redis_reconcileTombstone ::
    "string \<Rightarrow> nat \<Rightarrow> Time \<Rightarrow> (string \<times> rref) list \<Rightarrow> (string \<times> Instruction list) list" where
  "Redis_reconcileTombstone key addr t values =
     fold (\<lambda>(nodeid, val) instructions.
       if fst val \<noteq> addr
       then AList.update nodeid [\<lparr>Cmd = ''DEL'', Key = key, Args = [], Timestamp = t\<rparr>] instructions
       else instructions) values []"

definition Redis_Reconcile ::
    "string \<Rightarrow> (string \<times> rref option) list \<Rightarrow> (rref option \<times> (string \<times> Instruction list) list) outcome" where
  "Redis_Reconcile key values =
     (case values of
        [] \<Rightarrow> Err (Errorf ''At least one value must be provided'')
      | [(_, val)] \<Rightarrow> Ret (val, [])
      | _ \<Rightarrow> obind (Redis_getHighValue values) (\<lambda>high.
          case high of
            None \<Rightarrow> Panic ''nil pointer dereference''
          | Some (addr, RString value t) \<Rightarrow>
              Ret (high, Redis_reconcileString key value t (map (map_prod id the) values))
          | Some (addr, RTombstone t) \<Rightarrow>
              Ret (high, Redis_reconcileTombstone key addr t (map (map_prod id the) values))
          | Some (addr, RBoolean _ _) \<Rightarrow> Err (Errorf ''Unknown value type: %T'')))"

section \<open>The key-value store as a specification\<close>

fun kv_of :: "RValue \<Rightarrow> Value" where
  "kv_of (RString v t) = String v t"
| "kv_of (RTombstone t) = Tombstone t"
| "kv_of (RBoolean v t) = Boolean v t"

definition kvstore_of :: "Redis \<Rightarrow> KVStore" where
  "kvstore_of r = \<lparr>kv_data = (\<lambda>k. map_option kv_of (r_data r k))\<rparr>"

definition kv_ref :: "rref option \<Rightarrow> vref option" where
  "kv_ref = map_option (map_prod id kv_of)"

lemma kv_of_simps [simp]:
  "GetTimestamp (kv_of v) = RValue_GetTimestamp v" "GetValueType (kv_of v) = RValue_GetValueType v"
  by (cases v; simp add: STRING_VALUE_def R_STRING_VALUE_def TOMBSTONE_VALUE_def R_TOMBSTONE_VALUE_def
      BOOL_VALUE_def R_BOOL_VALUE_def)+

lemmas redis_cmd_defs = R_GET_def R_SET_def R_DEL_def GET_def SET_def DEL_def

lemma kvstore_of_update [simp]:
  "kvstore_of (r\<lparr>r_data := (r_data r)(k \<mapsto> v)\<rparr>) = (kvstore_of r)\<lparr>kv_data := (kv_data (kvstore_of r))(k \<mapsto> kv_of v)\<rparr>"
  by (auto simp: kvstore_of_def)

lemma kvstore_of_data [simp]: "kv_data (kvstore_of r) k = map_option kv_of (r_data r k)"
  by (simp add: kvstore_of_def)

lemma redis_exec:
  "ExecuteInstruction (kvstore_of r) i =
     (if Cmd i = GET
      then (kvstore_of r, map_outcome (map_option kv_of) (Redis_ExecuteRead r (Cmd i) (Key i) (Args i)))
      else map_prod kvstore_of (map_outcome (map_option kv_of))
        (Redis_ExecuteWrite r (Cmd i) (Key i) (Args i) (Timestamp i)))"
  by (cases "Args i"; cases "r_data r (Key i)")
    (auto simp: exec_defs redis_cmd_defs Redis_ExecuteRead_def Redis_ExecuteWrite_def Redis_validateGet_def
      Redis_validateSet_def Redis_validateDel_def Redis_get_def Redis_set_def Redis_del_def)

lemma redis_getHighValue_loop:
  "getHighValue_loop ts (kv_ref h) (map (kv_ref \<circ> snd) vals) = map_outcome kv_ref (Redis_getHighValue_loop ts h vals)"
  by (induction ts h vals rule: Redis_getHighValue_loop.induct) (auto simp: kv_ref_def Let_def)

lemma redis_string_equal: "RString_Equal v t u \<longleftrightarrow> Value_Equal (String v t) (kv_of u)"
  by (cases u) (auto simp: RString_Equal_def String_Equal_def r_baseValueEqual_def baseValueEqual_def
      STRING_VALUE_def R_STRING_VALUE_def TOMBSTONE_VALUE_def R_TOMBSTONE_VALUE_def BOOL_VALUE_def R_BOOL_VALUE_def)

lemma map_of_fold_instructions:
  "distinct (map fst vals) \<Longrightarrow>
     map_of (fold (\<lambda>(n, v) ins. if P v then AList.update n l ins else ins) vals acc) n =
     (case map_of vals n of Some v \<Rightarrow> if P v then Some l else map_of acc n | None \<Rightarrow> map_of acc n)"
proof (induction vals arbitrary: acc)
  case (Cons x vals)
  obtain m v where x: "x = (m, v)" by fastforce
  have "map_of vals m = None" using Cons.prems x by (auto simp: map_of_eq_None_iff)
  then show ?case using Cons by (auto simp: x update_conv split: option.split)
qed simp

text \<open>The instructions for each value, in the order of the values.\<close>

definition by_position :: "(string \<times> 'v) list \<Rightarrow> (string \<times> Instruction list) list \<Rightarrow> Instruction list list" where
  "by_position vals ins = map (\<lambda>(nodeid, _). case map_of ins nodeid of None \<Rightarrow> [] | Some l \<Rightarrow> l) vals"

lemma by_position_fold:
  assumes "distinct (map fst vals)"
  shows "by_position vals (fold (\<lambda>(n, v) ins. if P v then AList.update n l ins else ins) (map (map_prod id f) vals) []) =
    map (\<lambda>(_, v). if P (f v) then l else []) vals"
proof -
  have names: "distinct (map fst (map (map_prod id f) vals))" using assms by (simp add: o_def)
  have "map_of (map (map_prod id f) vals) n = Some (f v)" if "(n, v) \<in> set vals" for n v
    by (rule map_of_is_SomeI [OF names]) (use that in force)
  then show ?thesis
    by (auto simp: by_position_def map_of_fold_instructions [OF names])
qed

lemma redis_getHighValue:
  "getHighValue (map (kv_ref \<circ> snd) vals) = map_outcome kv_ref (Redis_getHighValue vals)"
  using redis_getHighValue_loop [of zero_Time None vals]
  by (simp add: getHighValue_def Redis_getHighValue_def kv_ref_def)

text \<open>Where a highest value is found, no value is nil.\<close>

lemma redis_no_nil:
  assumes "Redis_getHighValue vals = Ret h" and "(n, v) \<in> set vals"
  shows "the (kv_ref v) = (fst (the v), kv_of (snd (the v)))"
proof -
  have "getHighValue_loop (ref_time None) None (map (kv_ref \<circ> snd) vals) = Ret (kv_ref h)"
    using redis_getHighValue [of vals] assms(1) by (simp add: getHighValue_def ref_time_def)
  from getHighValue_loop_spec [OF this] have "None \<notin> set (map (kv_ref \<circ> snd) vals)" by blast
  moreover have "kv_ref v \<in> set (map (kv_ref \<circ> snd) vals)" using assms(2) by force
  ultimately have "kv_ref v \<noteq> None" by metis
  then show ?thesis by (cases v) (auto simp: kv_ref_def)
qed

lemma redis_reconcileString:
  assumes "distinct (map fst vals)" and "Redis_getHighValue vals = Ret h"
  shows "by_position vals (Redis_reconcileString key w t (map (map_prod id the) vals)) =
    reconcileString key w t (map the (map (kv_ref \<circ> snd) vals))"
  using assms redis_no_nil [OF assms(2)]
  by (auto simp: Redis_reconcileString_def reconcileString_def by_position_fold redis_string_equal SET_def
      simp del: Value_Equal.simps)

lemma redis_reconcileTombstone:
  assumes "distinct (map fst vals)" and "Redis_getHighValue vals = Ret h"
  shows "by_position vals (Redis_reconcileTombstone key addr t (map (map_prod id the) vals)) =
    reconcileTombstone key addr t (map the (map (kv_ref \<circ> snd) vals))"
  using assms redis_no_nil [OF assms(2)]
  by (auto simp: Redis_reconcileTombstone_def reconcileTombstone_def by_position_fold DEL_def)

lemma redis_reconcile:
  assumes "distinct (map fst vals)"
  shows "Reconcile key (map (kv_ref \<circ> snd) vals) =
    map_outcome (\<lambda>(high, ins). (kv_ref high, if length vals \<le> 1 then [] else by_position vals ins))
      (Redis_Reconcile key vals)"
proof (cases "1 < length vals")
  case False
  then show ?thesis by (cases vals rule: remdups_adj.cases) (auto simp: Reconcile_def Redis_Reconcile_def)
next
  case True
  then obtain a b vs where vals: "vals = a # b # vs" by (cases vals rule: remdups_adj.cases) auto
  have kv: "Reconcile key (map (kv_ref \<circ> snd) vals) = obind (map_outcome kv_ref (Redis_getHighValue vals)) (\<lambda>high.
      case high of
        None \<Rightarrow> Panic ''nil pointer dereference''
      | Some (addr, String value t) \<Rightarrow>
          Ret (high, reconcileString key value t (map the (map (kv_ref \<circ> snd) vals)))
      | Some (addr, Tombstone t) \<Rightarrow>
          Ret (high, reconcileTombstone key addr t (map the (map (kv_ref \<circ> snd) vals)))
      | Some (addr, Boolean _ _) \<Rightarrow> Err (Errorf ''Unknown value type: %T''))"
    unfolding redis_getHighValue [symmetric] Reconcile_def vals by simp
  have r: "Redis_Reconcile key vals = obind (Redis_getHighValue vals) (\<lambda>high.
      case high of
        None \<Rightarrow> Panic ''nil pointer dereference''
      | Some (addr, RString value t) \<Rightarrow>
          Ret (high, Redis_reconcileString key value t (map (map_prod id the) vals))
      | Some (addr, RTombstone t) \<Rightarrow>
          Ret (high, Redis_reconcileTombstone key addr t (map (map_prod id the) vals))
      | Some (addr, RBoolean _ _) \<Rightarrow> Err (Errorf ''Unknown value type: %T''))"
    unfolding Redis_Reconcile_def vals by (cases a; cases b) simp
  show ?thesis
  proof (cases "Redis_getHighValue vals")
    case (Ret h)
    note same = redis_reconcileString [OF assms Ret, symmetric] redis_reconcileTombstone [OF assms Ret, symmetric]
    show ?thesis
    proof (cases h)
      case None
      then show ?thesis using Ret unfolding kv r by (simp add: kv_ref_def)
    next
      case (Some x)
      obtain addr v where "x = (addr, v)" by fastforce
      then show ?thesis
        using Ret Some True unfolding kv r same by (cases v) (simp_all add: kv_ref_def)
    qed
  qed (simp_all add: kv r)
qed

section \<open>Properties\<close>

text \<open>
  C29: the redis store is the key-value store.  Reading and writing through its two methods has the
  results and the effects of executing the instruction on the key-value store, for every command;
  and its reconciliation of values from named nodes gives the value and the repair instructions
  of the reconciliation of the values in the order of the iteration.
\<close>

theorem redis_refines_kvstore:
  assumes "distinct (map fst vals)"
  shows "ExecuteInstruction (kvstore_of r) i =
      (if Cmd i = GET
       then (kvstore_of r, map_outcome (map_option kv_of) (Redis_ExecuteRead r (Cmd i) (Key i) (Args i)))
       else map_prod kvstore_of (map_outcome (map_option kv_of))
         (Redis_ExecuteWrite r (Cmd i) (Key i) (Args i) (Timestamp i))) \<and>
    Reconcile key (map (kv_ref \<circ> snd) vals) =
      map_outcome (\<lambda>(high, ins). (kv_ref high, if length vals \<le> 1 then [] else by_position vals ins))
        (Redis_Reconcile key vals)"
  using redis_exec redis_reconcile [OF assms] by blast

theorem redis_refines_kvstore_witness:
  "Reconcile ''k'' [Some (0, String ''x'' (ex_time 1)), Some (1, Tombstone (ex_time 2))] =
     Ret (Some (1, Tombstone (ex_time 2)), [[NewInstruction DEL ''k'' [] (ex_time 2)], []])"
proof -
  let ?vals = "[(''a'', Some (0, RString ''x'' (ex_time 1))), (''b'', Some (1, RTombstone (ex_time 2)))]"
  have "distinct (map fst ?vals)" by simp
  note conj = conjunct2 [OF redis_refines_kvstore [OF this, where r = NewRedis and i = "ex_set ''k'' ''x'' 1"
    and key = "''k''"]]
  have "Redis_Reconcile ''k'' ?vals =
      Ret (Some (1, RTombstone (ex_time 2)), [(''a'', [NewInstruction DEL ''k'' [] (ex_time 2)])])"
    by code_simp
  with conj show ?thesis by (simp add: kv_ref_def by_position_def)
qed

text \<open>The wire form of the values is the same.\<close>

lemma redis_value_bytes: "Redis_SerializeValue v = SerializeValue (kv_of v)"
  by (cases v) (simp_all add: Redis_SerializeValue_def SerializeValue_def Redis_WriteValue_def WriteValue_def value_defs
      RString_Serialize_def RTombstone_Serialize_def RBoolean_Serialize_def bool_byte_def STRING_VALUE_def
      R_STRING_VALUE_def TOMBSTONE_VALUE_def R_TOMBSTONE_VALUE_def BOOL_VALUE_def R_BOOL_VALUE_def)

end
