(* ===== verification/MessageTypes.thy ===== *)
theory MessageTypes
  imports Truncation
begin

text \<open>
  The type of a message on the wire (\<^verbatim>\<open>message/io.go\<close>): what the registered decoders
  produce has the type under which they are registered.
\<close>

section \<open>Typed decoders\<close>

definition yields :: "('m \<Rightarrow> 32 word) \<Rightarrow> 32 word \<Rightarrow> 'm reader \<Rightarrow> bool" where
  "yields mtype t r \<longleftrightarrow> (\<forall>bs m rest. r bs = Inr (m, rest) \<longrightarrow> mtype m = t)"

named_theorems yields_intros

lemma yields_return [yields_intros]: "mtype m = t \<Longrightarrow> yields mtype t (rreturn m)"
  by (simp add: yields_def rreturn_def)

lemma yields_bind [yields_intros]: "(\<And>a. yields mtype t (f a)) \<Longrightarrow> yields mtype t (rbind r f)"
  by (force simp: yields_def rbind_def split: sum.splits prod.splits)

lemma yields_case_prod [yields_intros]: "(\<And>a b. yields mtype t (f a b)) \<Longrightarrow> yields mtype t (case p of (a, b) \<Rightarrow> f a b)"
  by (cases p) simp

lemma put_get_uint32: "put_uint32 (get_uint32 a b c d) = [a, b, c, d]"
proof -
  have "ucast (get_uint32 a b c d) = a" "ucast (drop_bit 8 (get_uint32 a b c d)) = b"
    "ucast (drop_bit 16 (get_uint32 a b c d)) = c" "ucast (drop_bit 24 (get_uint32 a b c d)) = d"
    by (rule bit_word_eqI; auto simp: get_uint32_def bit_simps dest: bit_imp_le_length)+
  then show ?thesis by (simp add: put_uint32_def)
qed

locale typed_registry =
  fixes mtype :: "'m \<Rightarrow> 32 word" and constructors :: "32 word \<Rightarrow> 'm reader option"
  assumes typed: "constructors t = Some deser \<Longrightarrow> yields mtype t deser"
begin

lemma read_type:
  assumes "ReadMessage constructors bs = Inr (m, rest)"
  shows "take 4 bs = put_uint32 (mtype m)"
proof -
  from assms obtain t body deser where bs: "read_uint32 bs = Inr (t, body)" and d: "constructors t = Some deser"
    "deser body = Inr (m, rest)"
    by (auto simp: ReadMessage_def rbind_def rfail_def split: sum.splits option.splits)
  then have "mtype m = t" using typed [OF d(1)] by (auto simp: yields_def)
  then show ?thesis using bs by (cases bs rule: read_uint32.cases) (auto simp flip: put_get_uint32)
qed

end

lemma registered_yields:
  assumes "\<forall>(t, d) \<in> set ds. yields mtype t d"
    and "fold (\<lambda>(t, d) cs. RegisterMessage cs t d) ds cs0 t = Some deser"
    and "\<And>t d. cs0 t = Some d \<Longrightarrow> yields mtype t d"
  shows "yields mtype t deser"
  using assms
proof (induction ds arbitrary: cs0)
  case (Cons x ds)
  obtain u d where x: "x = (u, d)" by fastforce
  show ?case
    by (rule Cons.IH [of "RegisterMessage cs0 u d"])
      (use Cons.prems in \<open>auto simp: x RegisterMessage_def split: if_splits\<close>)
qed simp

interpretation consensus_types: typed_registry GetType consensus_constructors
proof
  fix t deser assume "consensus_constructors t = Some deser"
  then show "yields GetType t deser"
    unfolding consensus_constructors_def
    by (rule registered_yields [rotated]) (auto simp: consensus_deser_defs Let_def intro!: yields_intros)
qed

interpretation cluster_types: typed_registry cluster_GetType cluster_constructors
proof
  fix t deser assume "cluster_constructors t = Some deser"
  then show "yields cluster_GetType t deser"
    unfolding cluster_constructors_def
    by (rule registered_yields [rotated])
      (auto simp: connect_constructors_def query_constructors_def stream_constructors_def intro!: yields_intros)
qed

section \<open>Properties\<close>

text \<open>
  C39: the type on the wire is the type of the message.  Whatever bytes arrive, the message that
  \<^verbatim>\<open>ReadMessage\<close> makes of them has the type that its first four bytes announce, so the type
  switches of the handlers see what the sender declared; for the messages of the consensus and
  for those of the cluster.
\<close>

theorem message_types_sound:
  "(ReadMessage consensus_constructors bs = Inr (m, rest) \<longrightarrow> take 4 bs = put_uint32 (GetType m)) \<and>
   (ReadMessage cluster_constructors bs = Inr (m', rest') \<longrightarrow> take 4 bs = put_uint32 (cluster_GetType m'))"
  using consensus_types.read_type cluster_types.read_type by blast

theorem message_types_sound_witness:
  "ReadMessage cluster_constructors (put_uint32 STREAM_REQUEST) = Inr (StreamRequest, []) \<and>
   take 4 (put_uint32 STREAM_REQUEST) = put_uint32 (cluster_GetType StreamRequest)"
proof -
  have "ReadMessage cluster_constructors (put_uint32 STREAM_REQUEST) = Inr (StreamRequest, [])" by code_simp
  with message_types_sound [of "put_uint32 STREAM_REQUEST" "InstanceResponse []" "[]" StreamRequest "[]"] show ?thesis by blast
qed

end
