(* ===== verification/Events.thy ===== *)
theory Events
  imports Instance
begin

text \<open>
  Commit events (\<^verbatim>\<open>event\<close> in \<^verbatim>\<open>consensus/manager.go\<close>, \<^verbatim>\<open>getCommitEvent\<close> and
  \<^verbatim>\<open>broadcastCommitEvent\<close> in \<^verbatim>\<open>consensus/instance.go\<close>): goroutines that wait on a condition
  variable until an instance is committed, as a step relation over their interleavings.
\<close>

section \<open>Events\<close>

text \<open>
  Where the goroutine is that \<^verbatim>\<open>getChan\<close> starts: before taking the lock, between taking it and
  waiting, waiting, woken but without the lock, with the lock again, blocked on its channel, and
  finished.
\<close>

datatype pc = Starting | Locked | Waiting | Woken | Relocked | Sending | Received

text \<open>The goroutines of an event in the order in which they were started, and the one that holds the lock.\<close>

record event =
  ev_lock :: "nat option"
  ev_waiters :: "pc list"

definition newEvent :: event where
  "newEvent = \<lparr>ev_lock = None, ev_waiters = []\<rparr>"

definition getChan :: "event \<Rightarrow> event \<times> nat" where
  "getChan e = (e\<lparr>ev_waiters := ev_waiters e @ [Starting]\<rparr>, length (ev_waiters e))"

text \<open>\<^verbatim>\<open>sync.Cond.Broadcast\<close> wakes the goroutines that are waiting.\<close>

definition broadcast :: "event \<Rightarrow> event" where
  "broadcast e = e\<lparr>ev_waiters := map (\<lambda>p. if p = Waiting then Woken else p) (ev_waiters e)\<rparr>"

text \<open>
  One step of a goroutine, if it can make one.  \<^verbatim>\<open>sync.Cond.Wait\<close> queues the goroutine and
  releases the lock in one step, and takes the lock again before it returns.
\<close>

definition advance :: "nat \<Rightarrow> event \<Rightarrow> event option" where
  "advance i e =
     (if length (ev_waiters e) \<le> i then None
      else case ev_waiters e ! i of
        Starting \<Rightarrow>
          if ev_lock e = None then Some (e\<lparr>ev_lock := Some i, ev_waiters := (ev_waiters e)[i := Locked]\<rparr>) else None
      | Locked \<Rightarrow> Some (e\<lparr>ev_lock := None, ev_waiters := (ev_waiters e)[i := Waiting]\<rparr>)
      | Waiting \<Rightarrow> None
      | Woken \<Rightarrow>
          if ev_lock e = None then Some (e\<lparr>ev_lock := Some i, ev_waiters := (ev_waiters e)[i := Relocked]\<rparr>) else None
      | Relocked \<Rightarrow> Some (e\<lparr>ev_lock := None, ev_waiters := (ev_waiters e)[i := Sending]\<rparr>)
      | Sending \<Rightarrow> None
      | Received \<Rightarrow> None)"

text \<open>Receiving from the channel of a goroutine.\<close>

definition receive :: "nat \<Rightarrow> event \<Rightarrow> event option" where
  "receive i e =
     (if i < length (ev_waiters e) \<and> ev_waiters e ! i = Sending
      then Some (e\<lparr>ev_waiters := (ev_waiters e)[i := Received]\<rparr>) else None)"

section \<open>The event of an instance\<close>

text \<open>
  An instance with its event, and the calls of \<^verbatim>\<open>commitInstance\<close> that have committed the
  instance and not yet broadcast.
\<close>

record watched =
  w_instance :: Instance
  w_event :: "event option"
  w_pending :: nat

definition getCommitEvent :: "watched \<Rightarrow> watched" where
  "getCommitEvent s = (case w_event s of None \<Rightarrow> s\<lparr>w_event := Some newEvent\<rparr> | Some _ \<Rightarrow> s)"

definition broadcastCommitEvent :: "watched \<Rightarrow> watched" where
  "broadcastCommitEvent s =
     (case w_event s of None \<Rightarrow> s | Some e \<Rightarrow> s\<lparr>w_event := Some (broadcast e)\<rparr>)"

text \<open>\<^verbatim>\<open>instance.getCommitEvent().getChan()\<close>\<close>

definition watch :: "watched \<Rightarrow> watched" where
  "watch s = (let s = getCommitEvent s in s\<lparr>w_event := map_option (fst \<circ> getChan) (w_event s)\<rparr>)"

text \<open>
  What can happen: a goroutine watches the instance, the goroutines of the event go on, a channel
  is received from, the instance is committed and the event is broadcast, and other handlers move
  the instance forward.
\<close>

inductive step :: "watched \<Rightarrow> watched \<Rightarrow> bool" where
  watch: "step s (watch s)"
| go: "w_event s = Some e \<Longrightarrow> advance i e = Some e' \<Longrightarrow> step s (s\<lparr>w_event := Some e'\<rparr>)"
| receive: "w_event s = Some e \<Longrightarrow> receive i e = Some e' \<Longrightarrow> step s (s\<lparr>w_event := Some e'\<rparr>)"
| commit: "commit (w_instance s) inst incr = (instance', None) \<Longrightarrow>
    step s (s\<lparr>w_instance := instance', w_pending := Suc (w_pending s)\<rparr>)"
| broadcast: "0 < w_pending s \<Longrightarrow> step s ((broadcastCommitEvent s)\<lparr>w_pending := w_pending s - 1\<rparr>)"
| forward: "Status (w_instance s) \<le> Status instance' \<Longrightarrow> step s (s\<lparr>w_instance := instance'\<rparr>)"

definition initial :: "Instance \<Rightarrow> watched" where
  "initial instance = \<lparr>w_instance = instance, w_event = None, w_pending = 0\<rparr>"

definition reachable :: "Instance \<Rightarrow> watched \<Rightarrow> bool" where
  "reachable instance s \<longleftrightarrow> step\<^sup>*\<^sup>* (initial instance) s"

section \<open>The invariant\<close>

definition holds_lock :: "pc \<Rightarrow> bool" where
  "holds_lock p \<longleftrightarrow> p = Locked \<or> p = Relocked"

definition past_wait :: "pc \<Rightarrow> bool" where
  "past_wait p \<longleftrightarrow> p = Woken \<or> p = Relocked \<or> p = Sending \<or> p = Received"

definition lock_ok :: "event \<Rightarrow> bool" where
  "lock_ok e \<longleftrightarrow>
     (\<forall>i < length (ev_waiters e). holds_lock (ev_waiters e ! i) \<longleftrightarrow> ev_lock e = Some i) \<and>
     (\<forall>i. ev_lock e = Some i \<longrightarrow> i < length (ev_waiters e))"

definition watched_inv :: "watched \<Rightarrow> bool" where
  "watched_inv s \<longleftrightarrow>
     (0 < w_pending s \<longrightarrow> INSTANCE_COMMITTED \<le> Status (w_instance s)) \<and>
     (\<forall>e. w_event s = Some e \<longrightarrow> lock_ok e \<and>
        ((\<exists>p \<in> set (ev_waiters e). past_wait p) \<longrightarrow> INSTANCE_COMMITTED \<le> Status (w_instance s)))"

lemmas pc_defs = holds_lock_def past_wait_def

lemma lock_ok_new: "lock_ok newEvent"
  by (simp add: lock_ok_def newEvent_def)

lemma lock_ok_getChan: "lock_ok e \<Longrightarrow> lock_ok (fst (getChan e))"
  by (auto simp: lock_ok_def getChan_def pc_defs nth_append less_Suc_eq)

lemma lock_ok_broadcast: "lock_ok e \<Longrightarrow> lock_ok (broadcast e)"
  by (auto simp: lock_ok_def broadcast_def pc_defs)

lemma lock_ok_update:
  assumes "lock_ok e" and "i < length (ev_waiters e)"
    and "if holds_lock p then ev_lock e = None \<and> l = Some i else ev_lock e = Some i \<and> l = None"
  shows "lock_ok (e\<lparr>ev_lock := l, ev_waiters := (ev_waiters e)[i := p]\<rparr>)"
  using assms by (auto simp: lock_ok_def nth_list_update split: if_splits)

lemma lock_ok_advance:
  assumes "lock_ok e" and "advance i e = Some e'"
  shows "lock_ok e'"
proof -
  have i: "i < length (ev_waiters e)" using assms(2) by (auto simp: advance_def split: if_splits)
  then have holds: "holds_lock (ev_waiters e ! i) \<longleftrightarrow> ev_lock e = Some i" using assms(1) by (simp add: lock_ok_def)
  show ?thesis
    using assms(2) i holds lock_ok_update [OF assms(1) i]
    by (cases "ev_waiters e ! i") (auto simp: advance_def holds_lock_def split: if_splits)
qed

lemma lock_ok_receive: "lock_ok e \<Longrightarrow> receive i e = Some e' \<Longrightarrow> lock_ok e'"
  by (auto simp: lock_ok_def receive_def pc_defs nth_list_update split: if_splits)

text \<open>Only a broadcast takes a goroutine past its wait.\<close>

lemma advance_update:
  assumes "advance i e = Some e'"
  shows "i < length (ev_waiters e) \<and>
    (\<exists>l p. e' = e\<lparr>ev_lock := l, ev_waiters := (ev_waiters e)[i := p]\<rparr> \<and> (past_wait p \<longrightarrow> past_wait (ev_waiters e ! i)) \<and>
      ev_waiters e ! i \<noteq> Waiting)"
  using assms by (cases "ev_waiters e ! i") (auto simp: advance_def past_wait_def split: if_splits)

lemma past_wait_advance:
  assumes "advance i e = Some e'" and "p \<in> set (ev_waiters e')" and "past_wait p"
  shows "\<exists>p \<in> set (ev_waiters e). past_wait p"
proof -
  from advance_update [OF assms(1)] obtain q where
    i: "i < length (ev_waiters e)" and q: "ev_waiters e' = (ev_waiters e)[i := q]"
    "past_wait q \<longrightarrow> past_wait (ev_waiters e ! i)" by auto
  then have "p \<in> set (ev_waiters e) \<or> p = q" using assms(2) set_update_subset_insert [of "ev_waiters e" i q] by auto
  then show ?thesis using i q(2) assms(3) by (auto intro: nth_mem)
qed

lemma past_wait_receive:
  assumes "receive i e = Some e'" and "p \<in> set (ev_waiters e')" and "past_wait p"
  shows "\<exists>p \<in> set (ev_waiters e). past_wait p"
proof -
  from assms(1) have i: "i < length (ev_waiters e)" "ev_waiters e ! i = Sending"
    "ev_waiters e' = (ev_waiters e)[i := Received]" by (auto simp: receive_def split: if_splits)
  then have "past_wait (ev_waiters e ! i)" by (simp add: past_wait_def)
  then show ?thesis using i(1) by (auto intro: nth_mem)
qed

lemma commit_status: "commit i inst incr = (i', None) \<Longrightarrow> Status i' = INSTANCE_COMMITTED"
  by (auto simp: commit_def Let_def split: if_splits)

lemma inv_initial: "watched_inv (initial instance)"
  by (simp add: watched_inv_def initial_def)

lemma inv_step:
  assumes "step s s'" and "watched_inv s"
  shows "watched_inv s'"
  using assms
proof (cases rule: step.cases)
  case watch
  with assms(2) show ?thesis
    by (auto simp: watched_inv_def watch_def getCommitEvent_def Let_def lock_ok_new lock_ok_getChan
        split: option.splits) (auto simp: getChan_def newEvent_def pc_defs)
next
  case (go e i e')
  with assms(2) lock_ok_advance [OF _ go(3)] past_wait_advance [OF go(3)] show ?thesis
    by (auto simp: watched_inv_def)
next
  case (receive e i e')
  with assms(2) lock_ok_receive [OF _ receive(3)] past_wait_receive [OF receive(3)] show ?thesis
    by (auto simp: watched_inv_def)
next
  case (commit inst incr instance')
  with assms(2) commit_status [OF commit(2)] show ?thesis by (auto simp: watched_inv_def)
next
  case broadcast
  with assms(2) show ?thesis
    by (auto simp: watched_inv_def broadcastCommitEvent_def lock_ok_broadcast split: option.splits)
next
  case (forward instance')
  with assms(2) show ?thesis by (auto simp: watched_inv_def)
qed

lemma inv_reachable: "reachable instance s \<Longrightarrow> watched_inv s"
  unfolding reachable_def
  by (induction rule: rtranclp_induct) (auto intro: inv_initial inv_step)

section \<open>Progress\<close>

lemma lock_released:
  assumes "lock_ok e" and "i < length (ev_waiters e)" and "ev_waiters e ! i = Woken" and "w_event s = Some e"
  shows "\<exists>s' e'. step\<^sup>*\<^sup>* s s' \<and> w_event s' = Some e' \<and> ev_lock e' = None \<and> i < length (ev_waiters e') \<and>
    ev_waiters e' ! i = Woken"
proof (cases "ev_lock e")
  case None
  then show ?thesis using assms by blast
next
  case (Some j)
  then have j: "j < length (ev_waiters e)" "holds_lock (ev_waiters e ! j)" using assms(1) by (auto simp: lock_ok_def)
  then have "j \<noteq> i" using assms(3) by (auto simp: holds_lock_def)
  from j obtain q where a: "advance j e = Some (e\<lparr>ev_lock := None, ev_waiters := (ev_waiters e)[j := q]\<rparr>)"
    by (auto simp: advance_def holds_lock_def)
  let ?e = "e\<lparr>ev_lock := None, ev_waiters := (ev_waiters e)[j := q]\<rparr>"
  from step.go [OF assms(4) a] have "step\<^sup>*\<^sup>* s (s\<lparr>w_event := Some ?e\<rparr>)" by blast
  then show ?thesis
    using assms(2,3) \<open>j \<noteq> i\<close> by (intro exI [of _ "s\<lparr>w_event := Some ?e\<rparr>"] exI [of _ ?e]) simp
qed

lemma woken_receives:
  assumes "lock_ok e" and "i < length (ev_waiters e)" and "ev_waiters e ! i = Woken" and "w_event s = Some e"
  shows "\<exists>s' e'. step\<^sup>*\<^sup>* s s' \<and> w_event s' = Some e' \<and> ev_waiters e' ! i = Received"
proof -
  from lock_released [OF assms] obtain s1 e1 where
    s1: "step\<^sup>*\<^sup>* s s1" "w_event s1 = Some e1" "ev_lock e1 = None" "i < length (ev_waiters e1)" "ev_waiters e1 ! i = Woken"
    by blast
  let ?e2 = "e1\<lparr>ev_lock := Some i, ev_waiters := (ev_waiters e1)[i := Relocked]\<rparr>"
  let ?e3 = "?e2\<lparr>ev_lock := None, ev_waiters := (ev_waiters ?e2)[i := Sending]\<rparr>"
  let ?e4 = "?e3\<lparr>ev_waiters := (ev_waiters ?e3)[i := Received]\<rparr>"
  have "advance i e1 = Some ?e2" using s1 by (simp add: advance_def)
  from step.go [OF s1(2) this] have s2: "step s1 (s1\<lparr>w_event := Some ?e2\<rparr>)" .
  have "advance i ?e2 = Some ?e3" using s1(4) by (simp add: advance_def)
  from step.go [OF _ this, of "s1\<lparr>w_event := Some ?e2\<rparr>"]
  have s3: "step (s1\<lparr>w_event := Some ?e2\<rparr>) (s1\<lparr>w_event := Some ?e3\<rparr>)" by simp
  have "receive i ?e3 = Some ?e4" using s1(4) by (simp add: receive_def)
  from step.receive [OF _ this, of "s1\<lparr>w_event := Some ?e3\<rparr>"]
  have s4: "step (s1\<lparr>w_event := Some ?e3\<rparr>) (s1\<lparr>w_event := Some ?e4\<rparr>)" by simp
  have "step\<^sup>*\<^sup>* s (s1\<lparr>w_event := Some ?e4\<rparr>)"
    using s1(1) s2 s3 s4 by (meson rtranclp.rtrancl_into_rtrancl)
  then show ?thesis using s1(4) by (intro exI [of _ "s1\<lparr>w_event := Some ?e4\<rparr>"] exI [of _ ?e4]) simp
qed

lemma waiting_receives:
  assumes "watched_inv s" and "w_event s = Some e" and "i < length (ev_waiters e)" and "ev_waiters e ! i = Waiting"
    and "0 < w_pending s"
  shows "\<exists>s' e'. step\<^sup>*\<^sup>* s s' \<and> w_event s' = Some e' \<and> ev_waiters e' ! i = Received"
proof -
  let ?s = "(broadcastCommitEvent s)\<lparr>w_pending := w_pending s - 1\<rparr>"
  have "w_event ?s = Some (broadcast e)" using assms(2) by (simp add: broadcastCommitEvent_def)
  moreover have "lock_ok (broadcast e)" using assms(1,2) lock_ok_broadcast by (auto simp: watched_inv_def)
  moreover have "i < length (ev_waiters (broadcast e))" "ev_waiters (broadcast e) ! i = Woken"
    using assms(3,4) by (auto simp: broadcast_def)
  ultimately obtain s' e' where "step\<^sup>*\<^sup>* ?s s'" "w_event s' = Some e'" "ev_waiters e' ! i = Received"
    using woken_receives by blast
  then show ?thesis using step.broadcast [OF assms(5)] by (meson converse_rtranclp_into_rtranclp)
qed

section \<open>Properties\<close>

text \<open>
  C22: commit events announce commits.  In every interleaving of the goroutines that watch, commit
  and change an instance, a goroutine that receives from the channel of the commit event finds the
  instance committed; and one that is waiting when the event is about to be broadcast can receive,
  whatever the other goroutines have done before.
\<close>

theorem commit_event_sound:
  assumes "reachable instance s" and "w_event s = Some e" and "i < length (ev_waiters e)"
  shows "(ev_waiters e ! i = Received \<longrightarrow> INSTANCE_COMMITTED \<le> Status (w_instance s)) \<and>
    (ev_waiters e ! i = Waiting \<and> 0 < w_pending s \<longrightarrow>
      (\<exists>s' e'. step\<^sup>*\<^sup>* s s' \<and> w_event s' = Some e' \<and> ev_waiters e' ! i = Received))"
proof -
  note inv = inv_reachable [OF assms(1)]
  have "INSTANCE_COMMITTED \<le> Status (w_instance s)" if "ev_waiters e ! i = Received"
  proof -
    have "past_wait (ev_waiters e ! i)" using that by (simp add: past_wait_def)
    moreover have "ev_waiters e ! i \<in> set (ev_waiters e)" using assms(3) by (rule nth_mem)
    ultimately show ?thesis using inv assms(2) by (auto simp: watched_inv_def)
  qed
  then show ?thesis using waiting_receives [OF inv assms(2,3)] by blast
qed

text \<open>A goroutine that waits for a preaccepted instance, and one commit.\<close>

definition ex_watched :: "pc \<Rightarrow> nat \<Rightarrow> InstanceStatus \<Rightarrow> watched" where
  "ex_watched p n status =
     \<lparr>w_instance = zero_Instance\<lparr>Status := status\<rparr>, w_event = Some \<lparr>ev_lock = None, ev_waiters = [p]\<rparr>, w_pending = n\<rparr>"

lemma step_then: "step s s' \<Longrightarrow> step\<^sup>*\<^sup>* s' s'' \<Longrightarrow> step\<^sup>*\<^sup>* s s''"
  by (rule converse_rtranclp_into_rtranclp)

definition ex_instance_1 :: Instance where
  "ex_instance_1 = zero_Instance\<lparr>Status := INSTANCE_PREACCEPTED\<rparr>"

lemma ex_steps:
  "step (initial ex_instance_1) (ex_watched Starting 0 INSTANCE_PREACCEPTED)"
  "step (ex_watched Starting n status) ((ex_watched Starting n status)\<lparr>w_event := Some \<lparr>ev_lock = Some 0, ev_waiters = [Locked]\<rparr>\<rparr>)"
  "step ((ex_watched Starting n status)\<lparr>w_event := Some \<lparr>ev_lock = Some 0, ev_waiters = [Locked]\<rparr>\<rparr>) (ex_watched Waiting n status)"
  "step (ex_watched p 0 INSTANCE_PREACCEPTED) (ex_watched p 1 INSTANCE_COMMITTED)"
  "step (ex_watched Starting 1 INSTANCE_COMMITTED) (ex_watched Starting 0 INSTANCE_COMMITTED)"
proof -
  show "step (initial ex_instance_1) (ex_watched Starting 0 INSTANCE_PREACCEPTED)"
    using step.watch [of "initial ex_instance_1"]
    by (simp add: initial_def watch_def getCommitEvent_def getChan_def newEvent_def ex_watched_def ex_instance_1_def)
  have "advance 0 \<lparr>ev_lock = None, ev_waiters = [Starting]\<rparr> = Some \<lparr>ev_lock = Some 0, ev_waiters = [Locked]\<rparr>"
    by (simp add: advance_def)
  from step.go [OF _ this, of "ex_watched Starting n status"] show "step (ex_watched Starting n status)
      ((ex_watched Starting n status)\<lparr>w_event := Some \<lparr>ev_lock = Some 0, ev_waiters = [Locked]\<rparr>\<rparr>)"
    by (simp add: ex_watched_def)
  have "advance 0 \<lparr>ev_lock = Some 0, ev_waiters = [Locked]\<rparr> = Some \<lparr>ev_lock = None, ev_waiters = [Waiting]\<rparr>"
    by (simp add: advance_def)
  from step.go [OF _ this, of "(ex_watched Starting n status)\<lparr>w_event := Some \<lparr>ev_lock = Some 0, ev_waiters = [Locked]\<rparr>\<rparr>"]
  show "step ((ex_watched Starting n status)\<lparr>w_event := Some \<lparr>ev_lock = Some 0, ev_waiters = [Locked]\<rparr>\<rparr>)
      (ex_watched Waiting n status)" by (simp add: ex_watched_def)
  have "commit (zero_Instance\<lparr>Status := INSTANCE_PREACCEPTED\<rparr>) zero_Instance False =
      (zero_Instance\<lparr>Status := INSTANCE_COMMITTED\<rparr>, None)"
    by (simp add: commit_def setDeps_def copyAttributes_def bumpBallot_def zero_Instance_def status_defs Let_def)
  then show "step (ex_watched p 0 INSTANCE_PREACCEPTED) (ex_watched p 1 INSTANCE_COMMITTED)"
    using step.commit [of "ex_watched p 0 INSTANCE_PREACCEPTED" zero_Instance False] by (simp add: ex_watched_def)
  show "step (ex_watched Starting 1 INSTANCE_COMMITTED) (ex_watched Starting 0 INSTANCE_COMMITTED)"
    using step.broadcast [of "ex_watched Starting 1 INSTANCE_COMMITTED"]
    by (simp add: ex_watched_def broadcastCommitEvent_def broadcast_def)
qed

theorem commit_event_sound_witness:
  "\<exists>s' e'. step\<^sup>*\<^sup>* (ex_watched Waiting 1 INSTANCE_COMMITTED) s' \<and> w_event s' = Some e' \<and> ev_waiters e' ! 0 = Received"
proof -
  have "reachable ex_instance_1 (ex_watched Waiting 1 INSTANCE_COMMITTED)"
    unfolding reachable_def
    by (rule step_then [OF ex_steps(1)], rule step_then [OF ex_steps(2)], rule step_then [OF ex_steps(3)],
        rule step_then [OF ex_steps(4)], rule rtranclp.rtrancl_refl)
  from commit_event_sound [OF this, of "\<lparr>ev_lock = None, ev_waiters = [Waiting]\<rparr>" 0] show ?thesis
    by (simp add: ex_watched_def)
qed

text \<open>
  A wakeup can be lost: the goroutine that \<^verbatim>\<open>getChan\<close> starts may reach its wait only after the
  broadcast, although the channel was taken before the commit.  It then stays there in whatever
  happens without another commit, and only a timer gets the receiver on.
\<close>

inductive quiet :: "watched \<Rightarrow> watched \<Rightarrow> bool" where
  watch: "quiet s (watch s)"
| go: "w_event s = Some e \<Longrightarrow> advance i e = Some e' \<Longrightarrow> quiet s (s\<lparr>w_event := Some e'\<rparr>)"
| receive: "w_event s = Some e \<Longrightarrow> receive i e = Some e' \<Longrightarrow> quiet s (s\<lparr>w_event := Some e'\<rparr>)"
| forward: "Status (w_instance s) \<le> Status instance' \<Longrightarrow> quiet s (s\<lparr>w_instance := instance'\<rparr>)"

definition waits :: "nat \<Rightarrow> watched \<Rightarrow> bool" where
  "waits i s \<longleftrightarrow> (case w_event s of None \<Rightarrow> False | Some e \<Rightarrow> i < length (ev_waiters e) \<and> ev_waiters e ! i = Waiting)"

lemma quiet_waits:
  assumes "quiet s s'" and "waits i s"
  shows "waits i s'"
  using assms
proof (cases rule: quiet.cases)
  case watch
  with assms(2) show ?thesis
    by (auto simp: waits_def watch_def getCommitEvent_def getChan_def nth_append split: option.splits)
next
  case (go e j e')
  from advance_update [OF go(3)] assms(2) go show ?thesis
    by (auto simp: waits_def nth_list_update)
next
  case (receive e j e')
  with assms(2) show ?thesis by (auto simp: waits_def receive_def nth_list_update split: if_splits)
next
  case (forward instance')
  with assms(2) show ?thesis by (simp add: waits_def)
qed

theorem wakeup_can_be_lost:
  "\<exists>s. reachable ex_instance_1 s \<and> Status (w_instance s) = INSTANCE_COMMITTED \<and> w_pending s = 0 \<and> waits 0 s \<and>
     (\<forall>s'. quiet\<^sup>*\<^sup>* s s' \<longrightarrow> waits 0 s')"
proof (intro exI conjI allI impI)
  let ?s = "ex_watched Waiting 0 INSTANCE_COMMITTED"
  show "reachable ex_instance_1 ?s"
    unfolding reachable_def
    by (rule step_then [OF ex_steps(1)], rule step_then [OF ex_steps(4)], rule step_then [OF ex_steps(5)],
        rule step_then [OF ex_steps(2)], rule step_then [OF ex_steps(3)], rule rtranclp.rtrancl_refl)
  show w: "waits 0 ?s" by (simp add: waits_def ex_watched_def)
  show "waits 0 s'" if "quiet\<^sup>*\<^sup>* ?s s'" for s'
    using that by (induction rule: rtranclp_induct) (auto intro: w quiet_waits)
qed (simp_all add: ex_watched_def)

end
