(* ===== verification/Spec2Isabelle.thy ===== *)
theory Spec2Isabelle
  imports Runs Mocks Joining Query Server Redis MessageTypes Events
begin

text \<open>
  Kickboxer is a distributed key-value store in Go.  Clients send instructions to any node; the
  nodes agree on an order of interfering instructions by Egalitarian Paxos (package
  \<^verbatim>\<open>consensus\<close>) and execute them on a store (\<^verbatim>\<open>kvstore\<close>, an older copy in
  \<^verbatim>\<open>redis\<close>).  A token ring (\<^verbatim>\<open>topology\<close>, \<^verbatim>\<open>partitioner\<close>) says which nodes replicate
  a key.  An older layer (\<^verbatim>\<open>cluster\<close>) has nodes that talk over pooled connections, find their
  peers, stream keys and answer reads at a consistency level.  Both layers exchange messages in
  the format of \<^verbatim>\<open>message\<close>, \<^verbatim>\<open>serializer\<close> and \<^verbatim>\<open>types\<close>.  This development
  models these packages; paths are relative to the source root.

  \<^bold>\<open>Foundations.\<close>
  \<^item> \<^verbatim>\<open>Prelude\<close>, \<^verbatim>\<open>Gostd\<close>: bytes as \<^typ>\<open>8 word\<close>, readers, the codec contract (a locale
    with the round trip as its law), outcomes (a value, an error, a panic), and what is used of Go's library:
    \<^verbatim>\<open>bytes.Compare\<close>, \<^verbatim>\<open>sort\<close>, \<^verbatim>\<open>time.Time\<close>.
  \<^item> \<^verbatim>\<open>Serializer\<close>, \<^verbatim>\<open>Types\<close>, \<^verbatim>\<open>Instruction\<close>: \<^verbatim>\<open>serializer/serializer.go\<close>,
    \<^verbatim>\<open>types/\<close>, \<^verbatim>\<open>store/instruction.go\<close>, each an interpretation of the codec contract.
  \<^item> \<^verbatim>\<open>Messages\<close>, \<^verbatim>\<open>ClusterMessages\<close>: \<^verbatim>\<open>message/io.go\<close>, \<^verbatim>\<open>consensus/message.go\<close> and the
    messages of \<^verbatim>\<open>cluster/\<close>, with round trips for both families.  \<^verbatim>\<open>Truncation\<close> shows that a
    message that is cut off is not read as another one, \<^verbatim>\<open>MessageTypes\<close> that a message has the
    type that its bytes announce.
  \<^item> \<^verbatim>\<open>Partitioner\<close>: \<^verbatim>\<open>partitioner/md5.go\<close> with the digest itself, checked on the values of
    its tests.  \<^verbatim>\<open>Topology\<close>: \<^verbatim>\<open>topology/\<close>; the replicas of a token do not depend on the order
    in which the nodes were added.

  \<^bold>\<open>Stores.\<close>
  \<^item> \<^verbatim>\<open>KVStore\<close>: \<^verbatim>\<open>kvstore/\<close>.  Instructions without a common key commute, the newest SET
    wins, reconciliation repairs.  \<^verbatim>\<open>Redis\<close>: \<^verbatim>\<open>redis/\<close> as a refinement of it.

  \<^bold>\<open>One replica.\<close>
  \<^item> \<^verbatim>\<open>IdSet\<close>, \<^verbatim>\<open>Instance\<close>: \<^verbatim>\<open>consensus/instance_containers.go\<close>,
    \<^verbatim>\<open>consensus/instance.go\<close>.  \<^verbatim>\<open>Events\<close>: the condition variable of commit events, as a
    step relation over goroutines.
  \<^item> \<^verbatim>\<open>Dependencies\<close>: \<^verbatim>\<open>consensus/manager_depedencies.go\<close>; the tree of keys returns exactly the
    recorded interfering instances.
  \<^item> \<^verbatim>\<open>Manager\<close>, \<^verbatim>\<open>ManagerInv\<close>: the record of a replica, the handlers of all messages
    (\<^verbatim>\<open>HandleMessage\<close>), and the invariant that they keep: instances only move forward.
  \<^item> \<^verbatim>\<open>Tarjan\<close>, \<^verbatim>\<open>ExecOrder\<close>, \<^verbatim>\<open>Execute\<close>, \<^verbatim>\<open>Convergence\<close>:
    \<^verbatim>\<open>consensus/algorithms.go\<close> and \<^verbatim>\<open>consensus/manager_execute.go\<close>.  The algorithm returns
    the strongly connected components; replicas that agree on their instances reach the same store.

  \<^bold>\<open>Goroutines.\<close>
  A goroutine is a function from a manager and a schedule, a list of events (a response, a failed
  request, a timer, a commit event, a lock, a step of another goroutine), to an outcome, the
  manager and the rest of the schedule; a schedule that ends while it waits gives
  \<^term>\<open>None\<close>.
  \<^item> \<^verbatim>\<open>Phases\<close>: the preaccept, accept and commit phases of a leader.  \<^verbatim>\<open>Prepare\<close>:
    \<^verbatim>\<open>consensus/manager_prepare.go\<close>.  \<^verbatim>\<open>Leader\<close>: \<^verbatim>\<open>managerExecuteInstance\<close>,
    \<^verbatim>\<open>ExecutePaxos\<close>, \<^verbatim>\<open>ExecuteQuery\<close>; a query that is answered by a quorum returns.

  \<^bold>\<open>All replicas.\<close>
  \<^item> \<^verbatim>\<open>System\<close>: the replicas with a network that loses, repeats, reorders and misdirects the
    bytes of messages, as a step relation.  In every reachable state the replicas agree on the leader and
    the command of every instance, and the store of a replica is the result of its log.  Agreement
    on the dependencies of instances is not among the properties: the error properties of
    \<^verbatim>\<open>Phases\<close>, \<^verbatim>\<open>Prepare\<close> and \<^verbatim>\<open>Leader\<close> show where the code gives it up.
  \<^item> \<^verbatim>\<open>Runs\<close>: every run of \<^verbatim>\<open>ExecuteQuery\<close> is a path of steps of the system.
  \<^item> \<^verbatim>\<open>Mocks\<close>: the mock store, network and replica sets of \<^verbatim>\<open>consensus/testing_mocks.go\<close> and
    \<^verbatim>\<open>consensus/testing_setup.go\<close> as such a system.

  \<^bold>\<open>The cluster.\<close>
  \<^item> \<^verbatim>\<open>Pool\<close>: \<^verbatim>\<open>cluster/connection.go\<close>, a linked list that refines a bounded queue.
    \<^verbatim>\<open>Cluster\<close>, \<^verbatim>\<open>ClusterInv\<close>: \<^verbatim>\<open>cluster/cluster.go\<close>, \<^verbatim>\<open>cluster/node.go\<close> and the
    handlers of \<^verbatim>\<open>cluster/server.go\<close>; no behaviour of the network breaks the invariant.
    \<^verbatim>\<open>Server\<close>: the loop that accepts connections, next to \<^verbatim>\<open>Start\<close> and \<^verbatim>\<open>Stop\<close>.
  \<^item> \<^verbatim>\<open>Streaming\<close>, \<^verbatim>\<open>Joining\<close>, \<^verbatim>\<open>Query\<close>: streaming of keys, a node that joins through a
    seed, and reads with their repairs.

  \<^bold>\<open>Interfaces.\<close>
  Locales state what one part relies on of another: the codecs and message families, sorting, the
  pool, a network on which requests are answered, and stores in which a failed instruction has no
  effect.  Each is interpreted on definitions of the program.

  \<^bold>\<open>Parameters.\<close>
  The network and its errors, the clock, the bytes and timestamps of the uuid library, the order in
  which Go visits a map, the partitioner of a topology, and \<^verbatim>\<open>ExecuteQuery\<close> of the nodes
  that a read asks.

  \<^bold>\<open>Bounds and fuel.\<close>
  A loop of a goroutine has the length of its schedule plus one as fuel, which is enough since every
  round takes an event.  The traversal of \<^verbatim>\<open>getExecutionOrder\<close> has the number of known
  instances, which bounds its depth, and Tarjan's algorithm the number of vertices; both are shown
  to return.  Status and ballots, lengths on the wire and replication factors have the
  width that they have in Go.  A duration is an event or the end of a list.

  \<^bold>\<open>Not modelled.\<close>
  Logging, statistics of the manager and \<^verbatim>\<open>Persist\<close>, which does nothing; the debug log
  \<^verbatim>\<open>DepsLog\<close>, which is off outside the tests; printing and JSON of identifiers.  Locks appear
  as the atomicity of the sections that they guard, apart from commit events, the prepare lock
  and the flag of the server.  The prepares of one execution run one after the other, where the
  code starts goroutines and waits for all of them.  \<^verbatim>\<open>node/node.go\<close>, \<^verbatim>\<open>store/store.go\<close>
  and \<^verbatim>\<open>clusterproto/\<close> are interfaces and constants, \<^verbatim>\<open>disk/\<close>, \<^verbatim>\<open>server/\<close> and
  \<^verbatim>\<open>main.go\<close> have no behaviour, \<^verbatim>\<open>consensus/consensus.go\<close> creates the logger.  The test
  doubles of \<^verbatim>\<open>cluster/\<close>, \<^verbatim>\<open>topology/\<close> and the test helpers stand for what is a
  parameter here, and the rest of \<^verbatim>\<open>consensus/testing_setup.go\<close> and
  \<^verbatim>\<open>consensus/testing_checks.go\<close> serve the test framework.
\<close>

end
